(* ===== verification/Prelude.thy ===== *)
theory Prelude
  imports Main "HOL-Library.Word"
begin

text \<open>
  Shared vocabulary of the development: the machine integers of the Go code, the outcome of a
  Go call (a value, an error value, or a run-time panic), and the generic lemmas on lists and
  words that several components use.
\<close>

unbundle bit_operations_syntax

section \<open>Machine integers\<close>

type_synonym byte = "8 word"
type_synonym i32 = "32 word"
type_synonym u32 = "32 word"
type_synonym i64 = "64 word"
type_synonym u64 = "64 word"

text \<open>A Go \<open>float64\<close> is its IEEE-754 binary64 bit pattern.\<close>

type_synonym f64 = "64 word"

section \<open>Outcomes\<close>

text \<open>
  A Go function that returns \<open>(T, error)\<close> has three outcomes: the value, a non-nil error, or a
  run-time panic (an out-of-range slice expression, an explicit \<open>panic\<close>).
\<close>

datatype ('e, 'a) result = Ok 'a | Err 'e | Panic

named_theorems result_simps \<open>unfolding of the outcome combinators\<close>
named_theorems wire_defs \<open>definitions of the BER encoders\<close>
named_theorems wire_bytes \<open>the octets each encoder appends\<close>
named_theorems wire_decode \<open>decoders applied to the octets of an encoder\<close>

fun rbind :: "('e, 'a) result \<Rightarrow> ('a \<Rightarrow> ('e, 'b) result) \<Rightarrow> ('e, 'b) result" where
  "rbind (Ok x) f = f x"
| "rbind (Err e) f = Err e"
| "rbind Panic f = Panic"

text \<open>\<open>fmt.Errorf("...: %w", err)\<close>: an error is wrapped, a panic is not.\<close>

fun wrap_err :: "('e \<Rightarrow> 'e2) \<Rightarrow> ('e, 'a) result \<Rightarrow> ('e2, 'a) result" where
  "wrap_err w (Ok x) = Ok x"
| "wrap_err w (Err e) = Err (w e)"
| "wrap_err w Panic = Panic"

lemma rbind_cong [fundef_cong]:
  "r = r' \<Longrightarrow> (\<And>x. r' = Ok x \<Longrightarrow> f x = g x) \<Longrightarrow> rbind r f = rbind r' g"
  by (cases r') auto

lemma rbind_Ok_iff: "rbind r f = Ok y \<longleftrightarrow> (\<exists>x. r = Ok x \<and> f x = Ok y)"
  by (cases r) auto

lemma rbind_Panic_iff: "rbind r f = Panic \<longleftrightarrow> r = Panic \<or> (\<exists>x. r = Ok x \<and> f x = Panic)"
  by (cases r) auto

lemma wrap_err_Ok_iff [simp]: "wrap_err w r = Ok x \<longleftrightarrow> r = Ok x"
  by (cases r) auto

lemma wrap_err_Panic_iff [simp]: "wrap_err w r = Panic \<longleftrightarrow> r = Panic"
  by (cases r) auto

section \<open>Strings and bytes\<close>

text \<open>
  A Go string is a byte sequence, as a HOL \<^typ>\<open>string\<close> is: \<open>[]byte(s)\<close> and \<open>string(b)\<close> are
  conversions without loss.
\<close>

definition byte_of_char :: "char \<Rightarrow> byte" where
  "byte_of_char c = word_of_nat (of_char c)"

definition char_of_byte :: "byte \<Rightarrow> char" where
  "char_of_byte b = char_of (unat b)"

definition bytes_of :: "string \<Rightarrow> byte list" where
  "bytes_of s = map byte_of_char s"

definition string_of :: "byte list \<Rightarrow> string" where
  "string_of b = map char_of_byte b"

lemma char_of_byte_of_char [simp]: "char_of_byte (byte_of_char c) = c"
proof -
  have "(of_char c :: nat) < 256" by (rule nat_of_char_less_256)
  then have "unat (word_of_nat (of_char c) :: byte) = of_char c"
    by (simp add: unat_of_nat)
  then show ?thesis by (simp add: char_of_byte_def byte_of_char_def)
qed

lemma byte_of_char_of_byte [simp]: "byte_of_char (char_of_byte b) = b"
proof -
  have "unat b < 256" using unsigned_less [of b, where ?'a = nat] by simp
  then have "(of_char (char_of (unat b)) :: nat) = unat b" by (simp add: of_char_of)
  then show ?thesis by (simp add: char_of_byte_def byte_of_char_def)
qed

lemma string_of_bytes_of [simp]: "string_of (bytes_of s) = s"
  by (simp add: string_of_def bytes_of_def comp_def)

lemma bytes_of_string_of [simp]: "bytes_of (string_of b) = b"
  by (simp add: string_of_def bytes_of_def comp_def)

lemma length_bytes_of [simp]: "length (bytes_of s) = length s"
  by (simp add: bytes_of_def)

section \<open>Big-endian octets\<close>

text \<open>The value of big-endian octets (\<open>big.Int.SetBytes\<close>) and the shortest octets of a
  value (\<open>big.Int.Bytes\<close>: none for 0).\<close>

definition be_nat :: "byte list \<Rightarrow> nat" where
  "be_nat bs = foldl (\<lambda>a b. 256 * a + unat b) 0 bs"

fun be_bytes :: "nat \<Rightarrow> byte list" where
  "be_bytes n = (if n = 0 then [] else be_bytes (n div 256) @ [word_of_nat (n mod 256)])"

declare be_bytes.simps [simp del]

lemma be_nat_Nil [simp]: "be_nat [] = 0"
  by (simp add: be_nat_def)

lemma be_nat_snoc [simp]: "be_nat (bs @ [b]) = 256 * be_nat bs + unat b"
  by (simp add: be_nat_def)

lemma unat_byte_lt: "unat (b :: byte) < 256"
  using unsigned_less [of b, where ?'a = nat] by simp

lemma be_nat_lt: "be_nat bs < 256 ^ length bs"
proof (induction bs rule: rev_induct)
  case Nil
  show ?case by simp
next
  case (snoc b bs)
  have "256 * be_nat bs + unat b < 256 * (be_nat bs + 1)"
    using unat_byte_lt [of b] by simp
  also have "\<dots> \<le> 256 * 256 ^ length bs"
    using snoc.IH by (intro mult_le_mono) simp_all
  finally show ?case by simp
qed

lemma be_nat_Cons: "be_nat (b # bs) = unat b * 256 ^ length bs + be_nat bs"
proof (induction bs rule: rev_induct)
  case Nil
  show ?case by (simp add: be_nat_def)
next
  case (snoc x xs)
  have "be_nat (b # xs @ [x]) = 256 * be_nat (b # xs) + unat x"
    using be_nat_snoc [of "b # xs" x] by simp
  then show ?case by (simp add: snoc.IH algebra_simps)
qed

lemma be_bytes_0 [simp]: "be_bytes 0 = []"
  by (simp add: be_bytes.simps)

lemma be_nat_be_bytes [simp]: "be_nat (be_bytes n) = n"
proof (induction n rule: be_bytes.induct)
  case (1 n)
  then show ?case
    by (cases "n = 0") (simp_all add: be_bytes.simps [of n] unat_of_nat)
qed

lemma be_bytes_eq_Nil [simp]: "be_bytes n = [] \<longleftrightarrow> n = 0"
  by (subst be_bytes.simps) simp

lemma length_be_bytes_le: "n < 256 ^ k \<Longrightarrow> length (be_bytes n) \<le> k"
proof (induction k arbitrary: n)
  case 0
  then show ?case by simp
next
  case (Suc k)
  then have "n div 256 < 256 ^ k" by (simp add: less_mult_imp_div_less mult.commute)
  from Suc.IH [OF this] show ?case by (subst be_bytes.simps) simp
qed

lemma length_be_bytes_ge: "256 ^ k \<le> n \<Longrightarrow> k < length (be_bytes n)"
proof (rule ccontr)
  assume n: "256 ^ k \<le> n" and "\<not> k < length (be_bytes n)"
  then have "(256::nat) ^ length (be_bytes n) \<le> 256 ^ k" by (intro power_increasing) simp_all
  with n be_nat_lt [of "be_bytes n"] show False by simp
qed

lemma hd_be_bytes_nonzero: "n \<noteq> 0 \<Longrightarrow> hd (be_bytes n) \<noteq> 0"
proof (induction n rule: be_bytes.induct)
  case (1 n)
  show ?case
  proof (cases "n div 256 = 0")
    case True
    then have "n < 256" by (simp add: div_eq_0_iff)
    with "1.prems" True have "unat (word_of_nat (n mod 256) :: byte) \<noteq> 0"
      by (simp add: unat_of_nat)
    then have "(word_of_nat (n mod 256) :: byte) \<noteq> 0" by auto
    with True "1.prems" show ?thesis by (subst be_bytes.simps) simp
  next
    case False
    with "1.IH" "1.prems" have "hd (be_bytes (n div 256)) \<noteq> 0" by simp
    with False "1.prems" show ?thesis by (subst be_bytes.simps) (simp add: hd_append)
  qed
qed

section \<open>The range of \<open>int64\<close>\<close>

lemma sint_of_int_i64: "- (2 ^ 63) \<le> x \<Longrightarrow> x < 2 ^ 63 \<Longrightarrow> sint (of_int x :: i64) = x"
  by (simp only: signed_of_int) (simp add: signed_take_bit_int_eq_self)

lemma sint_range: "- (2 ^ 63) \<le> sint (x :: i64)" "sint (x :: i64) < 2 ^ 63"
  using sint_ge [of x] sint_lt [of x] by simp_all

lemma sint_eq_iff [simp]: "sint (a :: i64) = sint b \<longleftrightarrow> a = b"
  by (rule word_eq_iff_signed [symmetric])

lemma sint_plus_1:
  fixes c s :: i64
  assumes "sint c < sint s"
  shows "sint (c + 1) = sint c + 1"
  using sint_of_int_i64 [of "sint c + 1"] sint_range [of c] sint_range [of s] assms by simp

lemma sint_minus_1:
  fixes c s :: i64
  assumes "sint c < sint s"
  shows "sint (s - 1) = sint s - 1"
  using sint_of_int_i64 [of "sint s - 1"] sint_range [of c] sint_range [of s] assms by simp

end
