(* ===== verification/Wire_Types.thy ===== *)
theory Wire_Types
  imports Prelude
begin

text \<open>
  The message types of \<open>internal/wire/types.go\<close>. A Go struct with a \<open>Kind\<close> discriminator is a
  datatype with one constructor per kind, a plain struct is a record, an optional (pointer)
  field is an \<open>option\<close>. Only values whose \<open>Kind\<close> is one of the declared constants exist here.
\<close>

section \<open>Pointers and values\<close>

datatype NodePointer =
    PointerAbsolute string
  | PointerOffset i64
  | PointerNone

datatype NodeValue =
    ValueInteger32 i32
  | ValueUnsigned32 u32
  | ValueCounter32 u32
  | ValueCounter64 u64
  | ValueTimeTicks u32
  | ValueOctetString "byte list"
  | ValueReal f64
  | ValueNoValue

fun IsNumeric :: "NodeValue \<Rightarrow> bool" where
  "IsNumeric (ValueOctetString _) = False"
| "IsNumeric ValueNoValue = False"
| "IsNumeric _ = True"

text \<open>The \<open>==\<close> of Go on two \<open>float64\<close>, on their bit patterns: a NaN equals nothing, the two
  zeros are equal, any other value equals only itself.\<close>

definition f64_is_nan :: "f64 \<Rightarrow> bool" where
  "f64_is_nan x \<longleftrightarrow> (drop_bit 52 x) AND 0x7ff = 0x7ff \<and> x AND 0xfffffffffffff \<noteq> 0"

definition f64_is_zero :: "f64 \<Rightarrow> bool" where
  "f64_is_zero x \<longleftrightarrow> x AND 0x7fffffffffffffff = 0"

definition f64_eq :: "f64 \<Rightarrow> f64 \<Rightarrow> bool" where
  "f64_eq x y \<longleftrightarrow> \<not> f64_is_nan x \<and> \<not> f64_is_nan y \<and> (x = y \<or> f64_is_zero x \<and> f64_is_zero y)"

fun NodeValue_Equal :: "NodeValue \<Rightarrow> NodeValue \<Rightarrow> bool" where
  "NodeValue_Equal (ValueInteger32 a) (ValueInteger32 b) = (a = b)"
| "NodeValue_Equal (ValueUnsigned32 a) (ValueUnsigned32 b) = (a = b)"
| "NodeValue_Equal (ValueCounter32 a) (ValueCounter32 b) = (a = b)"
| "NodeValue_Equal (ValueCounter64 a) (ValueCounter64 b) = (a = b)"
| "NodeValue_Equal (ValueTimeTicks a) (ValueTimeTicks b) = (a = b)"
| "NodeValue_Equal (ValueOctetString a) (ValueOctetString b) = (a = b)"
| "NodeValue_Equal (ValueReal a) (ValueReal b) = f64_eq a b"
| "NodeValue_Equal ValueNoValue ValueNoValue = True"
| "NodeValue_Equal _ _ = False"

definition StringValue :: "string \<Rightarrow> NodeValue" where
  "StringValue s = ValueOctetString (bytes_of s)"

record Node =
  nd_Key :: string
  nd_Value :: NodeValue
  nd_FirstChild :: NodePointer
  nd_NextSibling :: NodePointer

section \<open>Messages\<close>

record GetReq =
  get_SequenceNumber :: i64
  get_Target :: NodePointer

record SetEdit =
  se_Target :: string
  se_NewValue :: "NodeValue option"
  se_NewFirstChild :: "NodePointer option"
  se_NewNextSibling :: "NodePointer option"
  se_NewParent :: "string option"

record SetReq =
  set_SequenceNumber :: i64
  set_Edits :: "SetEdit list"

record DeleteReq =
  del_SequenceNumber :: i64
  del_Targets :: "string list"

record CreateReq =
  cr_SequenceNumber :: i64
  cr_Key :: string
  cr_Value :: "NodeValue option"
  cr_Parent :: "string option"

datatype AggregationMethod = AggMin | AggMax | AggMean | AggStdDev | AggPercentile i64

datatype CollectionMode = CollectOnce | CollectInterval i64 | CollectOnChange

record QueryReq =
  q_SequenceNumber :: i64
  q_NodeExpression :: string
  q_CollectionMode :: CollectionMode
  q_AggregationInterval :: "i64 option"
  q_AggregationMethod :: "AggregationMethod option"
  q_TransferInterval :: i64

record Response =
  rs_SequenceNumber :: i64
  rs_InReplyTo :: i64
  rs_Error :: bool
  rs_ErrorNode :: "NodePointer option"
  rs_Nodes :: "Node list"

record SequenceRange =
  sr_First :: i64
  sr_Last :: i64

record SummaryAck =
  sa_Received :: "SequenceRange list"

datatype Message =
    MsgGet GetReq
  | MsgSet SetReq
  | MsgCreate CreateReq
  | MsgQuery QueryReq
  | MsgResponse Response
  | MsgSummaryAck SummaryAck
  | MsgDelete DeleteReq

section \<open>Equality of values\<close>

fun value_is_nan :: "NodeValue \<Rightarrow> bool" where
  "value_is_nan (ValueReal x) = f64_is_nan x"
| "value_is_nan _ = False"

lemma NodeValue_Equal_sym: "NodeValue_Equal v w \<longleftrightarrow> NodeValue_Equal w v"
  by (cases v; cases w) (auto simp: f64_eq_def)

lemma NodeValue_Equal_refl_iff: "NodeValue_Equal v v \<longleftrightarrow> \<not> value_is_nan v"
  by (cases v) (auto simp: f64_eq_def)

lemma NodeValue_Equal_trans: "NodeValue_Equal u v \<Longrightarrow> NodeValue_Equal v w \<Longrightarrow> NodeValue_Equal u w"
  by (cases u; cases v; cases w) (auto simp: f64_eq_def)

end
