(* ===== verification/Ber.thy ===== *)
theory Ber
  imports Wire_Types
begin

text \<open>
  The tag-length-value layer of \<open>internal/wire/ber.go\<close>. Encoders append to a buffer, as the Go
  code does with its \<open>*bytes.Buffer\<close>; the decoder \<open>readTLV\<close> computes the content length in a
  64-bit signed \<open>int\<close>, wrap-around included. \<open>tlv_bytes\<close> is the abstract encoding (identifier
  octet, shortest definite length, content) the encoders are shown to implement.
\<close>

datatype wire_error =
    TruncatedTagLength nat
  | HighTagNumber
  | IndefiniteLength
  | TruncatedLengthOctets
  | TruncatedContent int nat
  | EmptyInteger
  | NotInt64 int
  | NotUint64 int
  | BadBoolLength nat
  | Trailing nat string
  | WrongClass string nat
  | UnknownTag string nat
  | WrongElement string nat nat
  | OutOfRange string
  | BadRealLength nat
  | InField string wire_error

type_synonym 'a wire_result = "(wire_error, 'a) result"

section \<open>Constants\<close>

definition classUniversal :: nat where "classUniversal = 0"
definition classContext :: nat where "classContext = 2"
definition tagUTF8String :: nat where "tagUTF8String = 12"
definition tagSequence :: nat where "tagSequence = 16"

lemmas ber_consts = classUniversal_def classContext_def tagUTF8String_def tagSequence_def

section \<open>Writing headers\<close>

text \<open>\<open>for n > 0 \{ lb = append([]byte\{byte(n \& 0xff)\}, lb...); n >>= 8 \}\<close>\<close>

fun length_octets :: "nat \<Rightarrow> byte list \<Rightarrow> byte list" where
  "length_octets n lb =
     (if n > 0 then length_octets (n div 256) (word_of_nat (n mod 256) # lb) else lb)"

declare length_octets.simps [simp del]

definition writeLength :: "byte list \<Rightarrow> nat \<Rightarrow> byte list" where
  "writeLength buf n =
     (if n < 0x80 then buf @ [word_of_nat n]
      else let lb = length_octets n [] in buf @ [0x80 OR word_of_nat (length lb)] @ lb)"

definition writeTagLen :: "byte list \<Rightarrow> nat \<Rightarrow> bool \<Rightarrow> nat \<Rightarrow> nat \<Rightarrow> byte list wire_result" where
  "writeTagLen buf cls constructed tag n =
     (let b = push_bit 6 (word_of_nat cls) OR word_of_nat tag :: byte;
          b = (if constructed then b OR 0x20 else b)
      in if tag \<ge> 31 then Panic else Ok (writeLength (buf @ [b]) n))"

section \<open>Reading one TLV\<close>

record tlv =
  tlv_class :: nat
  tlv_constructed :: bool
  tlv_tag :: nat
  tlv_content :: "byte list"

text \<open>\<open>length = (length << 8) | int(rest[i])\<close>, in 64 bits.\<close>

definition readLengthOctets :: "byte list \<Rightarrow> i64" where
  "readLengthOctets bs = foldl (\<lambda>n b. push_bit 8 n OR ucast b) 0 bs"

text \<open>The tail of \<open>readTLV\<close> once the length is known. A negative length passes the
  \<open>len(rest) < length\<close> test and the slice expression \<open>rest[:length]\<close> then panics.\<close>

definition readContent :: "nat \<Rightarrow> bool \<Rightarrow> nat \<Rightarrow> i64 \<Rightarrow> byte list \<Rightarrow> (tlv \<times> byte list) wire_result" where
  "readContent cls constructed tag n rest =
     (if int (length rest) < sint n then Err (TruncatedContent (sint n) (length rest))
      else if sint n < 0 then Panic
      else Ok (\<lparr>tlv_class = cls, tlv_constructed = constructed, tlv_tag = tag,
                tlv_content = take (nat (sint n)) rest\<rparr>, drop (nat (sint n)) rest))"

fun readTLV :: "byte list \<Rightarrow> (tlv \<times> byte list) wire_result" where
  "readTLV (first # lengthByte # rest) =
     (let cls = unat (drop_bit 6 first);
          constructed = (first AND 0x20 \<noteq> 0);
          tag = unat (first AND 0x1f)
      in if tag = 0x1f then Err HighTagNumber
         else if lengthByte < 0x80 then readContent cls constructed tag (ucast lengthByte) rest
         else let numBytes = unat (lengthByte AND 0x7f)
              in if numBytes = 0 then Err IndefiniteLength
                 else if length rest < numBytes then Err TruncatedLengthOctets
                 else readContent cls constructed tag
                        (readLengthOctets (take numBytes rest)) (drop numBytes rest))"
| "readTLV data = Err (TruncatedTagLength (length data))"

declare readTLV.simps [simp del]

section \<open>INTEGER contents\<close>

text \<open>\<open>big.Int.BitLen\<close> of a magnitude.\<close>

fun bitLen :: "nat \<Rightarrow> nat" where
  "bitLen n = (if n = 0 then 0 else Suc (bitLen (n div 2)))"

declare bitLen.simps [simp del]

definition minimalTwosComplement :: "int \<Rightarrow> byte list" where
  "minimalTwosComplement v =
     (if v = 0 then [0]
      else if v > 0 then
        (let b = be_bytes (nat v) in if hd b AND 0x80 \<noteq> 0 then 0 # b else b)
      else
        (let nBytes = bitLen (nat (- v)) div 8 + 1;
             b = be_bytes (nat (2 ^ (nBytes * 8) + v))
         in replicate (nBytes - length b) 0 @ b))"

definition decodeBigInt :: "byte list \<Rightarrow> int wire_result" where
  "decodeBigInt content =
     (case content of
        [] \<Rightarrow> Err EmptyInteger
      | b # _ \<Rightarrow> (if b AND 0x80 = 0 then Ok (int (be_nat content))
                 else Ok (int (be_nat content) - 2 ^ (length content * 8))))"

definition decodeInt64 :: "byte list \<Rightarrow> i64 wire_result" where
  "decodeInt64 content = rbind (decodeBigInt content) (\<lambda>bi.
     if bi < - (2 ^ 63) \<or> 2 ^ 63 \<le> bi then Err (NotInt64 bi) else Ok (word_of_int bi))"

definition decodeUint64 :: "byte list \<Rightarrow> u64 wire_result" where
  "decodeUint64 content = rbind (decodeBigInt content) (\<lambda>bi.
     if bi < 0 \<or> 2 ^ 64 \<le> bi then Err (NotUint64 bi) else Ok (word_of_int bi))"

section \<open>Primitive encoders\<close>

definition encodeBytes :: "byte list \<Rightarrow> nat \<Rightarrow> bool \<Rightarrow> nat \<Rightarrow> byte list \<Rightarrow> byte list wire_result" where
  "encodeBytes buf cls constructed tag v =
     rbind (writeTagLen buf cls constructed tag (length v)) (\<lambda>buf. Ok (buf @ v))"

definition encodeInt64 :: "byte list \<Rightarrow> nat \<Rightarrow> bool \<Rightarrow> nat \<Rightarrow> i64 \<Rightarrow> byte list wire_result" where
  "encodeInt64 buf cls constructed tag v =
     (let content = minimalTwosComplement (sint v) in
      rbind (writeTagLen buf cls constructed tag (length content)) (\<lambda>buf. Ok (buf @ content)))"

definition encodeBigUint :: "byte list \<Rightarrow> nat \<Rightarrow> bool \<Rightarrow> nat \<Rightarrow> u64 \<Rightarrow> byte list wire_result" where
  "encodeBigUint buf cls constructed tag v =
     (let content = minimalTwosComplement (uint v) in
      rbind (writeTagLen buf cls constructed tag (length content)) (\<lambda>buf. Ok (buf @ content)))"

definition encodeString :: "byte list \<Rightarrow> nat \<Rightarrow> bool \<Rightarrow> nat \<Rightarrow> string \<Rightarrow> byte list wire_result" where
  "encodeString buf cls constructed tag v = encodeBytes buf cls constructed tag (bytes_of v)"

definition encodeBool :: "byte list \<Rightarrow> nat \<Rightarrow> bool \<Rightarrow> nat \<Rightarrow> bool \<Rightarrow> byte list wire_result" where
  "encodeBool buf cls constructed tag v =
     rbind (writeTagLen buf cls constructed tag 1) (\<lambda>buf. Ok (buf @ [if v then 0xff else 0]))"

definition decodeBool :: "byte list \<Rightarrow> bool wire_result" where
  "decodeBool content =
     (if length content \<noteq> 1 then Err (BadBoolLength (length content)) else Ok (content ! 0 \<noteq> 0))"

definition encodeNull :: "byte list \<Rightarrow> nat \<Rightarrow> bool \<Rightarrow> nat \<Rightarrow> byte list wire_result" where
  "encodeNull buf cls constructed tag = writeTagLen buf cls constructed tag 0"

text \<open>\<open>real\<close>: the IEEE-754 bits, big-endian, in exactly 8 octets.\<close>

definition float64ToBytes :: "f64 \<Rightarrow> byte list" where
  "float64ToBytes f = map (\<lambda>i. ucast (drop_bit (8 * i) f)) (rev [0..<8])"

definition bytesToFloat64 :: "byte list \<Rightarrow> f64" where
  "bytesToFloat64 b = foldl (\<lambda>n x. push_bit 8 n OR ucast x) 0 (take 8 b)"

section \<open>The abstract encoding\<close>

lemma length_octets_be_bytes: "length_octets n lb = be_bytes n @ lb"
proof (induction n lb rule: length_octets.induct)
  case (1 n lb)
  then show ?case
    by (cases "n = 0")
       (simp_all add: length_octets.simps [of 0] length_octets.simps [of n] be_bytes.simps [of n])
qed

definition ident_octet :: "nat \<Rightarrow> bool \<Rightarrow> nat \<Rightarrow> byte" where
  "ident_octet cls constructed tag =
     (let b = push_bit 6 (word_of_nat cls) OR word_of_nat tag
      in if constructed then b OR 0x20 else b)"

definition length_bytes :: "nat \<Rightarrow> byte list" where
  "length_bytes n =
     (if n < 0x80 then [word_of_nat n]
      else (0x80 OR word_of_nat (length (be_bytes n))) # be_bytes n)"

definition tlv_bytes :: "nat \<Rightarrow> bool \<Rightarrow> nat \<Rightarrow> byte list \<Rightarrow> byte list" where
  "tlv_bytes cls constructed tag content =
     ident_octet cls constructed tag # length_bytes (length content) @ content"

lemma writeLength_bytes: "writeLength buf n = buf @ length_bytes n"
  by (simp add: writeLength_def length_bytes_def length_octets_be_bytes Let_def)

lemma writeTagLen_Ok:
  "tag < 31 \<Longrightarrow> writeTagLen buf cls k tag n = Ok (buf @ ident_octet cls k tag # length_bytes n)"
  by (simp add: writeTagLen_def writeLength_bytes ident_octet_def Let_def)

lemma small_tag_bits:
  assumes "t < 32"
  shows "drop_bit 6 (word_of_nat t :: byte) = 0"
    and "(word_of_nat t :: byte) AND 32 = 0"
    and "(word_of_nat t :: byte) AND 31 = word_of_nat t"
proof -
  have u: "unat (word_of_nat t :: byte) = t" using assms by (simp add: unat_of_nat)
  show "drop_bit 6 (word_of_nat t :: byte) = 0"
  proof -
    have "unat (drop_bit 6 (word_of_nat t :: byte)) = drop_bit 6 (unat (word_of_nat t :: byte))"
      by (rule unat_drop_bit_eq)
    also have "\<dots> = 0" unfolding u using assms by (simp add: drop_bit_eq_div)
    finally show ?thesis by (simp only: unat_eq_zero)
  qed
  have "\<not> bit (unat (word_of_nat t :: byte)) 5"
    unfolding u using assms by (simp add: bit_iff_odd)
  then have "\<not> bit (word_of_nat t :: byte) 5"
    by (simp only: bit_unsigned_iff possible_bit_nat) simp
  then show "(word_of_nat t :: byte) AND 32 = 0"
    using and_exp_eq_0_iff_not_bit [of "word_of_nat t :: byte" 5] by simp
  have "(word_of_nat t :: byte) AND mask 5 = word_of_nat t"
    using assms by (simp flip: take_bit_eq_mask) (simp add: take_bit_of_nat take_bit_nat_eq_self)
  then show "(word_of_nat t :: byte) AND 31 = word_of_nat t" by (simp add: mask_eq_exp_minus_1)
qed

lemma ident_octet_fields:
  assumes "c < 4" "t < 32"
  shows "unat (drop_bit 6 (ident_octet c k t)) = c"
    and "ident_octet c k t AND 0x20 \<noteq> 0 \<longleftrightarrow> k"
    and "unat (ident_octet c k t AND 0x1f) = t"
proof -
  have "c = 0 \<or> c = 1 \<or> c = 2 \<or> c = 3" using assms(1) by auto
  then show "unat (drop_bit 6 (ident_octet c k t)) = c"
    by (elim disjE) (simp_all add: ident_octet_def Let_def small_tag_bits [OF assms(2)] drop_bit_or)
  show "ident_octet c k t AND 0x20 \<noteq> 0 \<longleftrightarrow> k"
    using \<open>c = 0 \<or> _\<close>
    by (elim disjE) (simp_all add: ident_octet_def Let_def small_tag_bits [OF assms(2)] bit.conj_disj_distrib2)
  show "unat (ident_octet c k t AND 0x1f) = t"
    using \<open>c = 0 \<or> _\<close> assms(2)
    by (elim disjE) (simp_all add: ident_octet_def Let_def small_tag_bits [OF assms(2)]
        bit.conj_disj_distrib2 unat_of_nat)
qed

lemma byte_top_bit: "(x :: byte) AND 0x80 = 0 \<longleftrightarrow> unat x < 128"
proof -
  have "x AND 0x80 = 0 \<longleftrightarrow> \<not> bit x 7"
    using and_exp_eq_0_iff_not_bit [of x 7] by simp
  also have "bit x 7 \<longleftrightarrow> bit (unat x) 7"
    by (simp add: bit_unsigned_iff)
  also have "\<dots> \<longleftrightarrow> odd (unat x div 128)"
    by (simp add: bit_iff_odd)
  also have "\<dots> \<longleftrightarrow> \<not> unat x < 128"
    using unat_byte_lt [of x] by (cases "unat x < 128") (auto simp: div_if)
  finally show ?thesis by simp
qed

lemma shift_or_add: "push_bit 8 n OR ucast (b :: byte) = 256 * n + (ucast b :: i64)"
proof -
  have "push_bit 8 n + (ucast b :: i64) = push_bit 8 n OR ucast b"
    by (rule disjunctive_add) (auto simp: bit_simps dest: bit_imp_le_length)
  then show ?thesis by (simp add: push_bit_eq_mult mult.commute)
qed

lemma readLengthOctets_eq: "readLengthOctets bs = word_of_nat (be_nat bs)"
proof (induction bs rule: rev_induct)
  case Nil
  then show ?case by (simp add: readLengthOctets_def)
next
  case (snoc b bs)
  then show ?case by (simp add: readLengthOctets_def shift_or_add)
qed

lemma sint_word_of_nat_small: "n < 2 ^ 63 \<Longrightarrow> sint (word_of_nat n :: i64) = int n"
  by (simp add: sint_uint signed_take_bit_int_eq_self uint_nat unat_of_nat)

lemma length_bytes_octet:
  assumes "n < 2 ^ 63" "128 \<le> n"
  defines "l \<equiv> 0x80 OR (word_of_nat (length (be_bytes n)) :: byte)"
  shows "unat (l AND 0x7f) = length (be_bytes n)" and "\<not> l < 0x80" and "length (be_bytes n) \<noteq> 0"
proof -
  have "length (be_bytes n) \<le> 8" by (rule length_be_bytes_le) (use assms in simp)
  moreover show "length (be_bytes n) \<noteq> 0" using assms by simp
  ultimately have "length (be_bytes n) \<in> {1,2,3,4,5,6,7,8}"
    by (simp only: insert_iff empty_iff) arith
  then show "unat (l AND 0x7f) = length (be_bytes n)" and "\<not> l < 0x80"
    unfolding l_def by auto
qed

lemma readContent_take:
  "length c < 2 ^ 63 \<Longrightarrow> readContent cls k t (word_of_nat (length c)) (c @ r) =
     Ok (\<lparr>tlv_class = cls, tlv_constructed = k, tlv_tag = t, tlv_content = c\<rparr>, r)"
  by (simp add: readContent_def sint_word_of_nat_small)

lemma readTLV_tlv_bytes:
  assumes "cls < 4" "t < 31" "length c < 2 ^ 63"
  shows "readTLV (tlv_bytes cls k t c @ r) =
    Ok (\<lparr>tlv_class = cls, tlv_constructed = k, tlv_tag = t, tlv_content = c\<rparr>, r)"
proof (cases "length c < 128")
  case True
  then have "ucast (word_of_nat (length c) :: byte) = (word_of_nat (length c) :: i64)"
    by (simp add: unsigned_of_nat take_bit_nat_eq_self)
  moreover have "(word_of_nat (length c) :: byte) < 0x80"
    using True by (simp add: word_less_nat_alt unat_of_nat)
  ultimately show ?thesis
    using assms True ident_octet_fields [of cls t k]
    by (simp add: tlv_bytes_def length_bytes_def readTLV.simps readContent_take Let_def)
next
  case False
  then show ?thesis
    using assms ident_octet_fields [of cls t k] length_bytes_octet [of "length c"]
    by (simp add: tlv_bytes_def length_bytes_def readTLV.simps readLengthOctets_eq readContent_take
        Let_def)
qed

section \<open>INTEGER contents round-trip\<close>

lemma bitLen_0 [simp]: "bitLen 0 = 0"
  by (simp add: bitLen.simps)

lemma bitLen_bounds: "n \<noteq> 0 \<Longrightarrow> 2 ^ (bitLen n - 1) \<le> n \<and> n < 2 ^ bitLen n \<and> bitLen n \<noteq> 0"
proof (induction n rule: bitLen.induct)
  case (1 n)
  show ?case
  proof (cases "n div 2 = 0")
    case True
    with "1.prems" have "n = Suc 0" by simp
    then show ?thesis by (simp add: bitLen.simps [of "Suc 0"])
  next
    case False
    with "1.IH" "1.prems" have IH: "2 ^ (bitLen (n div 2) - 1) \<le> n div 2"
      "n div 2 < 2 ^ bitLen (n div 2)" "bitLen (n div 2) \<noteq> 0" by auto
    have "2 * 2 ^ (bitLen (n div 2) - 1) = (2::nat) ^ bitLen (n div 2)"
      using IH(3) by (simp flip: power_Suc)
    with IH have "2 ^ bitLen (n div 2) \<le> n" "n < 2 * 2 ^ bitLen (n div 2)" by linarith+
    with "1.prems" show ?thesis by (simp add: bitLen.simps [of n])
  qed
qed

lemma be_nat_top_bit:
  "bs \<noteq> [] \<Longrightarrow> hd bs AND 0x80 = 0 \<longleftrightarrow> 2 * be_nat bs < 256 ^ length bs"
proof (cases bs)
  case (Cons b xs)
  define P where "P = (256::nat) ^ length xs"
  have lt: "be_nat xs < P" unfolding P_def by (rule be_nat_lt)
  have "unat b < 128 \<longleftrightarrow> 2 * (unat b * P + be_nat xs) < 256 * P"
  proof (cases "unat b < 128")
    case True
    then have "unat b * P \<le> 127 * P" by (intro mult_right_mono) simp_all
    then have "unat b * P + be_nat xs < 128 * P" using lt by linarith
    then have "2 * (unat b * P + be_nat xs) < 256 * P" by simp
    with True show ?thesis by simp
  next
    case False
    then have "128 * P \<le> unat b * P" by (intro mult_right_mono) simp_all
    then have "\<not> unat b * P + be_nat xs < 128 * P" by linarith
    then have "\<not> 2 * (unat b * P + be_nat xs) < 256 * P" by simp
    with False show ?thesis by simp
  qed
  then have "unat b < 128 \<longleftrightarrow> 2 * be_nat (b # xs) < 256 ^ length (b # xs)"
    by (simp add: be_nat_Cons P_def)
  then show ?thesis by (simp add: Cons byte_top_bit)
qed simp

lemma power_256: "(256::nat) ^ k = 2 ^ (8 * k)"
  by (simp add: power_mult)

text \<open>The octets chosen for a negative integer: as many as the magnitude's bit length asks for,
  with the top bit set.\<close>

lemma negative_octets:
  assumes "v < 0"
  defines "k \<equiv> bitLen (nat (- v)) div 8 + 1"
  defines "b \<equiv> be_bytes (nat (2 ^ (k * 8) + v))"
  shows "length b = k" and "hd b AND 0x80 \<noteq> 0" and "int (be_nat b) = 2 ^ (k * 8) + v"
    and "minimalTwosComplement v = b"
proof -
  define m where "m = nat (- v)"
  have m: "m \<noteq> 0" "v = - int m" using assms(1) by (simp_all add: m_def)
  have "bitLen m \<le> k * 8 - 1" by (simp add: k_def m_def)
  then have "(2::nat) ^ bitLen m \<le> 2 ^ (k * 8 - 1)" by (intro power_increasing) simp_all
  with bitLen_bounds [OF m(1)] have "m < 2 ^ (k * 8 - 1)" by linarith
  moreover have "(2::nat) ^ (k * 8) = 2 * 2 ^ (k * 8 - 1)"
    using power_Suc [of "2::nat" "k * 8 - 1"] by (simp add: k_def)
  ultimately have half: "2 * m < 2 ^ (k * 8)" by linarith
  define tc where "tc = nat (2 ^ (k * 8) + v)"
  have tc: "tc + m = 2 ^ (k * 8)"
  proof -
    have "2 ^ (k * 8) - int m = int (2 ^ (k * 8) - m)" using half by (simp add: of_nat_diff)
    then have "tc = 2 ^ (k * 8) - m" by (simp add: tc_def m(2))
    with half show ?thesis by simp
  qed
  have nb: "be_nat b = tc" by (simp add: b_def tc_def)
  have "length b \<le> k"
    unfolding b_def tc_def [symmetric]
    by (rule length_be_bytes_le) (use tc m(1) in \<open>simp add: power_256 mult.commute\<close>)
  moreover have "256 ^ (k - 1) \<le> tc"
  proof -
    have "(2::nat) * 256 ^ (k - 1) \<le> 256 ^ k"
      using power_Suc [of "256::nat" "k - 1"] by (simp add: k_def)
    then show ?thesis using half tc by (simp add: power_256 mult.commute)
  qed
  then have "k - 1 < length b"
    unfolding b_def tc_def [symmetric] by (rule length_be_bytes_ge)
  ultimately show len: "length b = k" by simp
  then have "b \<noteq> []" by (auto simp: k_def)
  then show "hd b AND 0x80 \<noteq> 0"
    using half tc by (simp add: be_nat_top_bit nb len power_256 mult.commute)
  show "int (be_nat b) = 2 ^ (k * 8) + v"
    unfolding nb m(2) using arg_cong [OF tc, of int] by simp
  show "minimalTwosComplement v = b"
    using assms(1) len by (simp add: minimalTwosComplement_def Let_def k_def b_def)
qed

lemma decodeBigInt_minimalTwosComplement:
  "decodeBigInt (minimalTwosComplement v) = Ok v"
proof -
  consider "v = 0" | "v > 0" | "v < 0" by linarith
  then show ?thesis
  proof cases
    case 1
    then show ?thesis by (simp add: minimalTwosComplement_def decodeBigInt_def be_nat_def)
  next
    case 2
    then obtain x xs where b: "be_bytes (nat v) = x # xs" by (cases "be_bytes (nat v)") auto
    have "be_nat (x # xs) = nat v" unfolding b [symmetric] by simp
    with 2 b show ?thesis
      by (simp add: minimalTwosComplement_def decodeBigInt_def Let_def be_nat_Cons)
  next
    case 3
    note n = negative_octets [OF 3]
    define b where "b = minimalTwosComplement v"
    from n have "b \<noteq> []" "hd b AND 0x80 \<noteq> 0" "int (be_nat b) = 2 ^ (length b * 8) + v"
      by (auto simp: b_def)
    then show ?thesis unfolding b_def [symmetric]
      by (cases b) (simp_all add: decodeBigInt_def)
  qed
qed

lemma decodeInt64_minimal [wire_decode]: "decodeInt64 (minimalTwosComplement (sint v)) = Ok v"
  using sint_ge [of v] sint_lt [of v]
  by (simp add: decodeInt64_def decodeBigInt_minimalTwosComplement not_less not_le)

lemma decodeUint64_minimal [wire_decode]: "decodeUint64 (minimalTwosComplement (uint v)) = Ok v"
  using uint_lt2p [of v]
  by (simp add: decodeUint64_def decodeBigInt_minimalTwosComplement not_less not_le)

text \<open>X.690 8.3.2: the first nine bits of the contents are neither all zero nor all one.\<close>

fun minimal_octets :: "byte list \<Rightarrow> bool" where
  "minimal_octets (x # y # ys) =
     (\<not> (x = 0 \<and> y AND 0x80 = 0) \<and> \<not> (x = 0xff \<and> y AND 0x80 \<noteq> 0))"
| "minimal_octets bs = (bs \<noteq> [])"

lemma leading_ones:
  "x = 0xff \<and> y AND 0x80 \<noteq> 0 \<longleftrightarrow>
   2 * 256 ^ length (x # y # ys) \<le> 256 ^ length (y # ys) + 2 * be_nat (x # y # ys)"
proof -
  define P where "P = (256::nat) ^ length (y # ys)"
  define n where "n = be_nat (y # ys)"
  have lt: "n < P" unfolding P_def n_def by (rule be_nat_lt)
  have top: "y AND 0x80 \<noteq> 0 \<longleftrightarrow> P \<le> 2 * n"
    using be_nat_top_bit [of "y # ys"] by (auto simp: P_def n_def)
  have ff: "x = 0xff \<longleftrightarrow> unat x = 255"
    using word_unat_eq_iff [of x "0xff"] by simp
  have "x = 0xff \<and> P \<le> 2 * n \<longleftrightarrow> 512 * P \<le> P + 2 * (unat x * P + n)"
  proof (cases "unat x = 255")
    case True
    then show ?thesis using ff by auto
  next
    case False
    then have "unat x \<le> 254" using unat_byte_lt [of x] by simp
    then have "unat x * P \<le> 254 * P" by (intro mult_right_mono) simp_all
    then have "unat x * P + n < 255 * P" using lt by linarith
    then have "2 * (unat x * P + n) < 510 * P" by simp
    then have "\<not> 512 * P \<le> P + 2 * (unat x * P + n)" by linarith
    with False ff show ?thesis by simp
  qed
  with top show ?thesis
    by (simp add: be_nat_Cons [of x] P_def n_def)
qed

lemma minimalTwosComplement_minimal:
  "minimal_octets (minimalTwosComplement v) \<longleftrightarrow> (\<forall>k. v \<noteq> - (2 ^ (8 * k + 7)))"
proof -
  consider "v = 0" | "v > 0" | "v < 0" by linarith
  then show ?thesis
  proof cases
    case 1
    then show ?thesis by (simp add: minimalTwosComplement_def)
  next
    case 2
    then obtain x xs where b: "be_bytes (nat v) = x # xs" by (cases "be_bytes (nat v)") auto
    with 2 hd_be_bytes_nonzero [of "nat v"] have "x \<noteq> 0" by simp
    then have "minimal_octets (minimalTwosComplement v)"
      using 2 by (cases xs) (auto simp: minimalTwosComplement_def b Let_def)
    moreover have "v \<noteq> - (2 ^ (8 * k + 7))" for k
      using 2 zero_less_power [of "2::int" "8 * k + 7"] by linarith
    ultimately show ?thesis by blast
  next
    case 3
    define m where "m = nat (- v)"
    define k where "k = bitLen m div 8 + 1"
    define b where "b = minimalTwosComplement v"
    have b: "length b = k" "hd b AND 0x80 \<noteq> 0" "int (be_nat b) = 2 ^ (k * 8) + v"
      using negative_octets [OF 3] by (simp_all add: b_def k_def m_def)
    have m: "m \<noteq> 0" "v = - int m" using 3 by (simp_all add: m_def)
    have "int (be_nat b + m) = int (2 ^ (k * 8))" using b(3) m(2) by simp
    then have sum: "be_nat b + m = 2 ^ (k * 8)" by (simp only: of_nat_eq_iff)
    note bl = bitLen_bounds [OF m(1)]
    have nonmin: "\<not> minimal_octets b \<longleftrightarrow> 1 < k \<and> m = 2 ^ (8 * (k - 1) - 1)"
    proof (cases "1 < k")
      case False
      then have "k = 1" using k_def by simp
      then show ?thesis using b(1) by (cases b) auto
    next
      case True
      then obtain x y ys where xy: "b = x # y # ys" using b(1) by (cases b; cases "tl b") auto
      have "x \<noteq> 0" using b(2) xy by auto
      then have "\<not> minimal_octets b \<longleftrightarrow> x = 0xff \<and> y AND 0x80 \<noteq> 0" by (simp add: xy)
      also have "\<dots> \<longleftrightarrow> 2 * 256 ^ k \<le> 256 ^ (k - 1) + 2 * be_nat b"
        using leading_ones [of x y ys] b(1) by (auto simp: xy)
      also have "\<dots> \<longleftrightarrow> 2 * m \<le> 2 ^ (8 * (k - 1))"
      proof -
        have "(256::nat) ^ k = 2 ^ (k * 8)" "(256::nat) ^ (k - 1) = 2 ^ (8 * (k - 1))"
          by (simp_all add: power_256 mult.commute)
        with sum show ?thesis by linarith
      qed
      also have "\<dots> \<longleftrightarrow> m \<le> 2 ^ (8 * (k - 1) - 1)"
      proof -
        have "Suc (8 * (k - 1) - 1) = 8 * (k - 1)" using True by simp
        then have "(2::nat) ^ (8 * (k - 1)) = 2 * 2 ^ (8 * (k - 1) - 1)"
          using power_Suc [of "2::nat" "8 * (k - 1) - 1"] by simp
        then show ?thesis by linarith
      qed
      also have "\<dots> \<longleftrightarrow> m = 2 ^ (8 * (k - 1) - 1)"
      proof -
        have "8 * (k - 1) - 1 \<le> bitLen m - 1" by (simp add: k_def)
        then have "(2::nat) ^ (8 * (k - 1) - 1) \<le> 2 ^ (bitLen m - 1)" by (intro power_increasing) simp_all
        with bl show ?thesis by linarith
      qed
      finally show ?thesis using True by simp
    qed
    have "(\<exists>j. v = - (2 ^ (8 * j + 7))) \<longleftrightarrow> 1 < k \<and> m = 2 ^ (8 * (k - 1) - 1)"
    proof
      assume "\<exists>j. v = - (2 ^ (8 * j + 7))"
      then obtain j where "int m = 2 ^ (8 * j + 7)" using m(2) by auto
      then have "int m = int (2 ^ (8 * j + 7))" by simp
      then have mj: "m = 2 ^ (8 * j + 7)" by (simp only: of_nat_eq_iff)
      have "bitLen m = 8 * j + 8"
      proof -
        have "(2::nat) ^ (8 * j + 7) < 2 ^ bitLen m" "(2::nat) ^ (bitLen m - 1) \<le> 2 ^ (8 * j + 7)"
          using bl mj by auto
        then show ?thesis using bl by (simp add: power_strict_increasing_iff power_increasing_iff)
      qed
      then have "k = j + 2" by (simp add: k_def)
      then show "1 < k \<and> m = 2 ^ (8 * (k - 1) - 1)" by (simp add: mj)
    next
      assume "1 < k \<and> m = 2 ^ (8 * (k - 1) - 1)"
      moreover from this have "8 * (k - 1) - 1 = 8 * (k - 2) + 7" by arith
      ultimately have "v = - (2 ^ (8 * (k - 2) + 7))" using m(2) by simp
      then show "\<exists>j. v = - (2 ^ (8 * j + 7))" by blast
    qed
    with nonmin show ?thesis unfolding b_def by blast
  qed
qed

section \<open>What \<open>readTLV\<close> consumes, and when it panics\<close>

lemma readContent_Ok:
  "readContent cls k t n rest = Ok (v, r) \<Longrightarrow> rest = tlv_content v @ r"
  by (auto simp: readContent_def split: if_splits)

lemma readTLV_consumes:
  assumes "readTLV d = Ok (v, r)"
  shows "\<exists>hdr. 2 \<le> length hdr \<and> d = hdr @ tlv_content v @ r"
proof (cases d rule: readTLV.cases)
  case (1 first lb rest)
  from assms 1 consider
      "rest = tlv_content v @ r"
    | n where "drop n rest = tlv_content v @ r"
    by (auto simp: readTLV.simps Let_def split: if_splits dest: readContent_Ok)
  then show ?thesis
  proof cases
    case A: 1
    then show ?thesis using 1 by (intro exI [of _ "[first, lb]"]) simp
  next
    case (2 n)
    then have "rest = take n rest @ tlv_content v @ r" by (metis append_take_drop_id)
    then show ?thesis using 1 by (intro exI [of _ "first # lb # take n rest"]) simp
  qed
qed (use assms in \<open>simp_all add: readTLV.simps\<close>)

lemma readTLV_shrinks: "readTLV d = Ok (v, r) \<Longrightarrow> length r < length d"
  by (drule readTLV_consumes) auto

lemma readTLV_content_shrinks: "readTLV d = Ok (v, r) \<Longrightarrow> length (tlv_content v) < length d"
  by (drule readTLV_consumes) auto

text \<open>The datagrams on which \<open>readTLV\<close> panics: at least eight length octets whose value has
  bit 63 set, so the \<open>int\<close> length is negative.\<close>

fun negative_length :: "byte list \<Rightarrow> bool" where
  "negative_length (first # lb # rest) =
     (first AND 0x1f \<noteq> 0x1f \<and> 0x80 \<le> lb \<and> unat (lb AND 0x7f) \<le> length rest \<and>
      2 ^ 63 \<le> be_nat (take (unat (lb AND 0x7f)) rest) mod 2 ^ 64)"
| "negative_length _ = False"

lemma sint_word_of_nat_neg: "sint (word_of_nat n :: i64) < 0 \<longleftrightarrow> 2 ^ 63 \<le> n mod 2 ^ 64"
proof -
  have "sint (word_of_nat n :: i64) < 0 \<longleftrightarrow> bit (word_of_nat n :: i64) 63"
    using bit_last_iff [of "word_of_nat n :: i64"] by simp
  also have "\<dots> \<longleftrightarrow> bit (unat (word_of_nat n :: i64)) 63"
    by (simp only: bit_unsigned_iff possible_bit_nat) simp
  also have "\<dots> \<longleftrightarrow> odd (n mod 2 ^ 64 div 2 ^ 63)"
    by (simp add: unat_of_nat bit_iff_odd)
  also have "\<dots> \<longleftrightarrow> 2 ^ 63 \<le> n mod 2 ^ 64"
  proof -
    have "n mod 2 ^ 64 < 2 * 2 ^ 63" by simp
    then have "n mod 2 ^ 64 div 2 ^ 63 < 2" by (simp add: less_mult_imp_div_less)
    moreover have "n mod 2 ^ 64 div 2 ^ 63 = 0 \<longleftrightarrow> n mod 2 ^ 64 < 2 ^ 63"
      by (simp add: div_eq_0_iff)
    ultimately consider "n mod 2 ^ 64 div 2 ^ 63 = 0" "n mod 2 ^ 64 < 2 ^ 63"
      | "n mod 2 ^ 64 div 2 ^ 63 = 1" "2 ^ 63 \<le> n mod 2 ^ 64" by linarith
    then show ?thesis by cases (metis even_zero not_less, metis odd_one)
  qed
  finally show ?thesis .
qed

lemma readContent_Panic:
  "readContent cls k t (word_of_nat n) rest = Panic \<longleftrightarrow> 2 ^ 63 \<le> n mod 2 ^ 64"
  using sint_word_of_nat_neg [of n] by (auto simp: readContent_def)

lemma unat_eq_31: "unat (x AND 0x1f :: byte) = 31 \<longleftrightarrow> x AND 0x1f = 0x1f"
  using word_unat_eq_iff [of "x AND 0x1f" "0x1f"] by simp

lemma readTLV_Panic_iff: "readTLV d = Panic \<longleftrightarrow> negative_length d"
proof (cases d rule: readTLV.cases)
  case (1 first lb rest)
  have u: "(ucast lb :: i64) = word_of_nat (unat lb)" by simp
  have s: "\<not> 2 ^ 63 \<le> unat lb mod 2 ^ 64" using unat_byte_lt [of lb] by simp
  show ?thesis
    using s by (auto simp: 1 readTLV.simps Let_def readLengthOctets_eq readContent_Panic unat_eq_31
        u not_less not_le simp del: of_nat_unat)
qed (simp_all add: readTLV.simps)

lemma short_data_no_panic: "length d < 10 \<Longrightarrow> readTLV d \<noteq> Panic"
proof
  assume l: "length d < 10" and "readTLV d = Panic"
  then have n: "negative_length d" by (simp add: readTLV_Panic_iff)
  then obtain f lb rest where d: "d = f # lb # rest" by (cases d rule: negative_length.cases) auto
  define n where "n = be_nat (take (unat (lb AND 0x7f)) rest)"
  have "n < 256 ^ length (take (unat (lb AND 0x7f)) rest)" unfolding n_def by (rule be_nat_lt)
  also have "\<dots> \<le> 256 ^ 7" using l d by (intro power_increasing) auto
  finally have "n mod 2 ^ 64 < 2 ^ 63" by simp
  with n d show False by (simp add: n_def)
qed

section \<open>The octets of the primitive encoders\<close>

lemma encodeBytes_Ok [wire_bytes]:
  "tag < 31 \<Longrightarrow> encodeBytes buf cls k tag v = Ok (buf @ tlv_bytes cls k tag v)"
  by (simp add: encodeBytes_def writeTagLen_Ok tlv_bytes_def)

lemma encodeString_Ok [wire_bytes]:
  "tag < 31 \<Longrightarrow> encodeString buf cls k tag v = Ok (buf @ tlv_bytes cls k tag (bytes_of v))"
  by (simp add: encodeString_def encodeBytes_Ok)

lemma encodeInt64_Ok [wire_bytes]:
  "tag < 31 \<Longrightarrow> encodeInt64 buf cls k tag v =
     Ok (buf @ tlv_bytes cls k tag (minimalTwosComplement (sint v)))"
  by (simp add: encodeInt64_def writeTagLen_Ok tlv_bytes_def Let_def)

lemma encodeBigUint_Ok [wire_bytes]:
  "tag < 31 \<Longrightarrow> encodeBigUint buf cls k tag v =
     Ok (buf @ tlv_bytes cls k tag (minimalTwosComplement (uint v)))"
  by (simp add: encodeBigUint_def writeTagLen_Ok tlv_bytes_def Let_def)

lemma encodeBool_Ok [wire_bytes]:
  "tag < 31 \<Longrightarrow> encodeBool buf cls k tag v = Ok (buf @ tlv_bytes cls k tag [if v then 0xff else 0])"
  by (simp add: encodeBool_def writeTagLen_Ok tlv_bytes_def)

lemma encodeNull_Ok [wire_bytes]:
  "tag < 31 \<Longrightarrow> encodeNull buf cls k tag = Ok (buf @ tlv_bytes cls k tag [])"
  by (simp add: encodeNull_def writeTagLen_Ok tlv_bytes_def)

lemma writeTagLen_tlv [wire_bytes]:
  "tag < 31 \<Longrightarrow> rbind (writeTagLen buf cls k tag (length v)) (\<lambda>b. f (b @ v)) =
     f (buf @ tlv_bytes cls k tag v)"
  by (simp add: writeTagLen_Ok tlv_bytes_def)

abbreviation fits :: "byte list \<Rightarrow> bool" where
  "fits bs \<equiv> length bs < 2 ^ 63"

lemma length_tlv_bytes:
  "length (tlv_bytes cls k t c) = 1 + length (length_bytes (length c)) + length c"
  by (simp add: tlv_bytes_def)

lemma tlv_bytes_not_Nil [simp]: "tlv_bytes cls k t c \<noteq> []"
  by (simp add: tlv_bytes_def)

lemma readTLV_bytes [wire_decode]:
  "cls < 4 \<Longrightarrow> t < 31 \<Longrightarrow> fits c \<Longrightarrow> readTLV (tlv_bytes cls k t c @ r) =
    Ok (\<lparr>tlv_class = cls, tlv_constructed = k, tlv_tag = t, tlv_content = c\<rparr>, r)"
  by (rule readTLV_tlv_bytes)

lemma readTLV_bytes_end [wire_decode]:
  "cls < 4 \<Longrightarrow> t < 31 \<Longrightarrow> fits c \<Longrightarrow> readTLV (tlv_bytes cls k t c) =
    Ok (\<lparr>tlv_class = cls, tlv_constructed = k, tlv_tag = t, tlv_content = c\<rparr>, [])"
  using readTLV_tlv_bytes [of cls t c k "[]"] by simp

lemma decodeBool_octet [wire_decode]: "decodeBool [if v then 0xff else 0] = Ok v"
  by (simp add: decodeBool_def)

section \<open>IEEE-754 octets\<close>

lemma length_float64ToBytes [simp]: "length (float64ToBytes f) = 8"
  by (simp add: float64ToBytes_def)

lemma be_nat_shifts:
  "be_nat (map (\<lambda>i. ucast (drop_bit (8 * i) f)) (rev [0..<k])) = unat (f :: f64) mod 256 ^ k"
proof (induction k)
  case 0
  show ?case by simp
next
  case (Suc k)
  have "unat (ucast (drop_bit (8 * k) f) :: byte) = unat f div 256 ^ k mod 256"
  proof -
    have "unat (drop_bit (8 * k) f) = unat f div 256 ^ k"
      unfolding unat_drop_bit_eq power_256 by (simp only: drop_bit_eq_div)
    moreover have "unat (ucast w :: byte) = unat w mod 256" for w :: f64
      by (simp add: unsigned_ucast_eq take_bit_eq_mod)
    ultimately show ?thesis by (simp only:)
  qed
  then show ?case
    using Suc.IH mod_mult2_eq [of "unat f" "256 ^ k" 256]
    by (simp add: be_nat_Cons mult.commute)
qed

lemma bytesToFloat64_float64ToBytes [wire_decode]: "bytesToFloat64 (float64ToBytes f) = f"
proof -
  have "unat f < 256 ^ 8" using unsigned_less [of f, where ?'a = nat] by simp
  then have "be_nat (float64ToBytes f) = unat f"
    unfolding float64ToBytes_def be_nat_shifts by simp
  moreover have "bytesToFloat64 (float64ToBytes f) = readLengthOctets (float64ToBytes f)"
    by (simp add: bytesToFloat64_def readLengthOctets_def)
  ultimately show ?thesis by (simp add: readLengthOctets_eq)
qed

end
