(* ===== verification/Codec_Node.thy ===== *)
theory Codec_Node
  imports Ber
begin

text \<open>
  The CHOICE types and the \<open>Node\<close> SEQUENCE of \<open>internal/wire/codec.go\<close>: encoders and decoders as
  the code has them, the octets the encoders append (\<open>*_bytes\<close>), and that each decoder inverts
  its encoder.
\<close>

section \<open>NodePointer\<close>

definition encodeNodePointer :: "byte list \<Rightarrow> NodePointer \<Rightarrow> byte list wire_result" where
  "encodeNodePointer buf p =
     (case p of
        PointerAbsolute s \<Rightarrow> encodeString buf classContext False 0 s
      | PointerOffset d \<Rightarrow> encodeInt64 buf classContext False 1 d
      | PointerNone \<Rightarrow> encodeNull buf classContext False 2)"

definition decodeNodePointer :: "byte list \<Rightarrow> NodePointer wire_result" where
  "decodeNodePointer data =
     rbind (readTLV data) (\<lambda>(t, rest).
       if length rest \<noteq> 0 then Err (Trailing (length rest) ''NodePointer'')
       else if tlv_class t \<noteq> classContext then Err (WrongClass ''NodePointer'' (tlv_class t))
       else if tlv_tag t = 0 then Ok (PointerAbsolute (string_of (tlv_content t)))
       else if tlv_tag t = 1 then
         rbind (wrap_err (InField ''NodePointer.offset'') (decodeInt64 (tlv_content t)))
           (\<lambda>v. Ok (PointerOffset v))
       else if tlv_tag t = 2 then Ok PointerNone
       else Err (UnknownTag ''NodePointer'' (tlv_tag t)))"

section \<open>NodeValue\<close>

definition encodeNodeValue :: "byte list \<Rightarrow> NodeValue \<Rightarrow> byte list wire_result" where
  "encodeNodeValue buf v =
     (case v of
        ValueInteger32 x \<Rightarrow> encodeInt64 buf classContext False 0 (scast x)
      | ValueUnsigned32 x \<Rightarrow> encodeBigUint buf classContext False 1 (ucast x)
      | ValueCounter32 x \<Rightarrow> encodeBigUint buf classContext False 2 (ucast x)
      | ValueCounter64 x \<Rightarrow> encodeBigUint buf classContext False 3 x
      | ValueTimeTicks x \<Rightarrow> encodeBigUint buf classContext False 4 (ucast x)
      | ValueOctetString x \<Rightarrow> encodeBytes buf classContext False 5 x
      | ValueReal x \<Rightarrow> encodeBytes buf classContext False 6 (float64ToBytes x)
      | ValueNoValue \<Rightarrow> encodeNull buf classContext False 7)"

text \<open>The shared shape of the \<open>unsigned32\<close>, \<open>counter32\<close> and \<open>timeTicks\<close> arms:
  \<open>err != nil || v > 4294967295\<close> gives one and the same error.\<close>

definition decodeU32 :: "string \<Rightarrow> (u32 \<Rightarrow> NodeValue) \<Rightarrow> byte list \<Rightarrow> NodeValue wire_result" where
  "decodeU32 fld mk content =
     (case decodeUint64 content of
        Ok v \<Rightarrow> (if 4294967295 < v then Err (OutOfRange fld) else Ok (mk (ucast v)))
      | Err e \<Rightarrow> Err (OutOfRange fld)
      | Panic \<Rightarrow> Panic)"

definition decodeNodeValue :: "byte list \<Rightarrow> NodeValue wire_result" where
  "decodeNodeValue data =
     rbind (readTLV data) (\<lambda>(t, rest).
       if length rest \<noteq> 0 then Err (Trailing (length rest) ''NodeValue'')
       else if tlv_class t \<noteq> classContext then Err (WrongClass ''NodeValue'' (tlv_class t))
       else if tlv_tag t = 0 then
         rbind (wrap_err (InField ''NodeValue.integer32'') (decodeInt64 (tlv_content t)))
           (\<lambda>v. if sint v < -2147483648 \<or> 2147483647 < sint v
                then Err (OutOfRange ''NodeValue.integer32'')
                else Ok (ValueInteger32 (scast v)))
       else if tlv_tag t = 1 then decodeU32 ''NodeValue.unsigned32'' ValueUnsigned32 (tlv_content t)
       else if tlv_tag t = 2 then decodeU32 ''NodeValue.counter32'' ValueCounter32 (tlv_content t)
       else if tlv_tag t = 3 then
         rbind (wrap_err (InField ''NodeValue.counter64'') (decodeUint64 (tlv_content t)))
           (\<lambda>v. Ok (ValueCounter64 v))
       else if tlv_tag t = 4 then decodeU32 ''NodeValue.timeTicks'' ValueTimeTicks (tlv_content t)
       else if tlv_tag t = 5 then Ok (ValueOctetString (tlv_content t))
       else if tlv_tag t = 6 then
         (if length (tlv_content t) \<noteq> 8 then Err (BadRealLength (length (tlv_content t)))
          else Ok (ValueReal (bytesToFloat64 (tlv_content t))))
       else if tlv_tag t = 7 then Ok ValueNoValue
       else Err (UnknownTag ''NodeValue'' (tlv_tag t)))"

section \<open>Node\<close>

definition encodeNodeFields :: "byte list \<Rightarrow> Node \<Rightarrow> byte list wire_result" where
  "encodeNodeFields buf n =
     rbind (encodeString buf classContext False 0 (nd_Key n)) (\<lambda>buf.
     rbind (encodeNodeValue [] (nd_Value n)) (\<lambda>vbuf.
     rbind (writeTagLen buf classContext True 1 (length vbuf)) (\<lambda>buf.
     let buf = buf @ vbuf in
     rbind (encodeNodePointer [] (nd_FirstChild n)) (\<lambda>fbuf.
     rbind (writeTagLen buf classContext True 2 (length fbuf)) (\<lambda>buf.
     let buf = buf @ fbuf in
     rbind (encodeNodePointer [] (nd_NextSibling n)) (\<lambda>sbuf.
     rbind (writeTagLen buf classContext True 3 (length sbuf)) (\<lambda>buf.
     Ok (buf @ sbuf))))))))"

definition decodeNodeFields :: "byte list \<Rightarrow> Node wire_result" where
  "decodeNodeFields content =
     rbind (wrap_err (InField ''Node.key'') (readTLV content)) (\<lambda>(t, rest).
     let key = string_of (tlv_content t) in
     rbind (wrap_err (InField ''Node.value'') (readTLV rest)) (\<lambda>(t, rest).
     rbind (wrap_err (InField ''Node.value'') (decodeNodeValue (tlv_content t))) (\<lambda>value.
     rbind (wrap_err (InField ''Node.firstChild'') (readTLV rest)) (\<lambda>(t, rest).
     rbind (wrap_err (InField ''Node.firstChild'') (decodeNodePointer (tlv_content t))) (\<lambda>fc.
     rbind (wrap_err (InField ''Node.nextSibling'') (readTLV rest)) (\<lambda>(t, rest).
     rbind (wrap_err (InField ''Node.nextSibling'') (decodeNodePointer (tlv_content t))) (\<lambda>ns.
     if length rest \<noteq> 0 then Err (Trailing (length rest) ''Node'')
     else Ok \<lparr>nd_Key = key, nd_Value = value, nd_FirstChild = fc, nd_NextSibling = ns\<rparr>)))))))"

text \<open>A universal SEQUENCE around already encoded fields: \<open>MarshalNode\<close>,
  \<open>encodeNodeFieldsWrapped\<close>, \<open>encodeSetEditWrapped\<close>, \<open>encodeSequenceRangeWrapped\<close> and
  \<open>wrapSequence\<close> all end this way.\<close>

definition wrapSequence :: "byte list \<Rightarrow> byte list wire_result \<Rightarrow> byte list wire_result" where
  "wrapSequence buf encoded_fields =
     rbind encoded_fields (\<lambda>fields.
     rbind (writeTagLen buf classUniversal True tagSequence (length fields)) (\<lambda>buf.
     Ok (buf @ fields)))"

definition MarshalNode :: "Node \<Rightarrow> byte list wire_result" where
  "MarshalNode n = wrapSequence [] (encodeNodeFields [] n)"

definition unwrapSequence :: "byte list \<Rightarrow> string \<Rightarrow> byte list wire_result" where
  "unwrapSequence data typeName =
     rbind (readTLV data) (\<lambda>(t, rest).
       if length rest \<noteq> 0 then Err (Trailing (length rest) typeName)
       else if tlv_class t \<noteq> classUniversal \<or> tlv_tag t \<noteq> tagSequence
         then Err (WrongElement typeName (tlv_class t) (tlv_tag t))
       else Ok (tlv_content t))"

definition UnmarshalNode :: "byte list \<Rightarrow> Node wire_result" where
  "UnmarshalNode data = rbind (unwrapSequence data ''Node'') decodeNodeFields"

section \<open>AggregationMethod and CollectionMode\<close>

definition encodeAggregationMethod :: "byte list \<Rightarrow> AggregationMethod \<Rightarrow> byte list wire_result" where
  "encodeAggregationMethod buf m =
     (case m of
        AggMin \<Rightarrow> encodeNull buf classContext False 0
      | AggMax \<Rightarrow> encodeNull buf classContext False 1
      | AggMean \<Rightarrow> encodeNull buf classContext False 2
      | AggStdDev \<Rightarrow> encodeNull buf classContext False 3
      | AggPercentile p \<Rightarrow> encodeInt64 buf classContext False 4 p)"

definition decodeAggregationMethod :: "byte list \<Rightarrow> AggregationMethod wire_result" where
  "decodeAggregationMethod data =
     rbind (readTLV data) (\<lambda>(t, rest).
       if length rest \<noteq> 0 then Err (Trailing (length rest) ''AggregationMethod'')
       else if tlv_class t \<noteq> classContext then Err (WrongClass ''AggregationMethod'' (tlv_class t))
       else if tlv_tag t = 0 then Ok AggMin
       else if tlv_tag t = 1 then Ok AggMax
       else if tlv_tag t = 2 then Ok AggMean
       else if tlv_tag t = 3 then Ok AggStdDev
       else if tlv_tag t = 4 then
         (case decodeInt64 (tlv_content t) of
            Ok v \<Rightarrow> (if sint v < 0 \<or> 100 < sint v
                     then Err (OutOfRange ''AggregationMethod.percentile'')
                     else Ok (AggPercentile v))
          | Err e \<Rightarrow> Err (OutOfRange ''AggregationMethod.percentile'')
          | Panic \<Rightarrow> Panic)
       else Err (UnknownTag ''AggregationMethod'' (tlv_tag t)))"

definition encodeCollectionMode :: "byte list \<Rightarrow> CollectionMode \<Rightarrow> byte list wire_result" where
  "encodeCollectionMode buf m =
     (case m of
        CollectOnce \<Rightarrow> encodeNull buf classContext False 0
      | CollectInterval s \<Rightarrow> encodeInt64 buf classContext False 1 s
      | CollectOnChange \<Rightarrow> encodeNull buf classContext False 2)"

definition decodeCollectionMode :: "byte list \<Rightarrow> CollectionMode wire_result" where
  "decodeCollectionMode data =
     rbind (readTLV data) (\<lambda>(t, rest).
       if length rest \<noteq> 0 then Err (Trailing (length rest) ''CollectionMode'')
       else if tlv_class t \<noteq> classContext then Err (WrongClass ''CollectionMode'' (tlv_class t))
       else if tlv_tag t = 0 then Ok CollectOnce
       else if tlv_tag t = 1 then
         rbind (wrap_err (InField ''CollectionMode.interval'') (decodeInt64 (tlv_content t)))
           (\<lambda>v. Ok (CollectInterval v))
       else if tlv_tag t = 2 then Ok CollectOnChange
       else Err (UnknownTag ''CollectionMode'' (tlv_tag t)))"

section \<open>The octets\<close>

definition pointer_bytes :: "NodePointer \<Rightarrow> byte list" where
  "pointer_bytes p =
     (case p of
        PointerAbsolute s \<Rightarrow> tlv_bytes 2 False 0 (bytes_of s)
      | PointerOffset d \<Rightarrow> tlv_bytes 2 False 1 (minimalTwosComplement (sint d))
      | PointerNone \<Rightarrow> tlv_bytes 2 False 2 [])"

definition value_bytes :: "NodeValue \<Rightarrow> byte list" where
  "value_bytes v =
     (case v of
        ValueInteger32 x \<Rightarrow> tlv_bytes 2 False 0 (minimalTwosComplement (sint x))
      | ValueUnsigned32 x \<Rightarrow> tlv_bytes 2 False 1 (minimalTwosComplement (uint x))
      | ValueCounter32 x \<Rightarrow> tlv_bytes 2 False 2 (minimalTwosComplement (uint x))
      | ValueCounter64 x \<Rightarrow> tlv_bytes 2 False 3 (minimalTwosComplement (uint x))
      | ValueTimeTicks x \<Rightarrow> tlv_bytes 2 False 4 (minimalTwosComplement (uint x))
      | ValueOctetString x \<Rightarrow> tlv_bytes 2 False 5 x
      | ValueReal x \<Rightarrow> tlv_bytes 2 False 6 (float64ToBytes x)
      | ValueNoValue \<Rightarrow> tlv_bytes 2 False 7 [])"

definition node_fields_bytes :: "Node \<Rightarrow> byte list" where
  "node_fields_bytes n =
     tlv_bytes 2 False 0 (bytes_of (nd_Key n)) @
     tlv_bytes 2 True 1 (value_bytes (nd_Value n)) @
     tlv_bytes 2 True 2 (pointer_bytes (nd_FirstChild n)) @
     tlv_bytes 2 True 3 (pointer_bytes (nd_NextSibling n))"

definition seq_bytes :: "byte list \<Rightarrow> byte list" where
  "seq_bytes fs = tlv_bytes 0 True 16 fs"

definition agg_bytes :: "AggregationMethod \<Rightarrow> byte list" where
  "agg_bytes m =
     (case m of
        AggMin \<Rightarrow> tlv_bytes 2 False 0 []
      | AggMax \<Rightarrow> tlv_bytes 2 False 1 []
      | AggMean \<Rightarrow> tlv_bytes 2 False 2 []
      | AggStdDev \<Rightarrow> tlv_bytes 2 False 3 []
      | AggPercentile p \<Rightarrow> tlv_bytes 2 False 4 (minimalTwosComplement (sint p)))"

definition mode_bytes :: "CollectionMode \<Rightarrow> byte list" where
  "mode_bytes m =
     (case m of
        CollectOnce \<Rightarrow> tlv_bytes 2 False 0 []
      | CollectInterval s \<Rightarrow> tlv_bytes 2 False 1 (minimalTwosComplement (sint s))
      | CollectOnChange \<Rightarrow> tlv_bytes 2 False 2 [])"

lemmas bytes_defs = pointer_bytes_def value_bytes_def node_fields_bytes_def seq_bytes_def
  agg_bytes_def mode_bytes_def

section \<open>Encoders append these octets\<close>

lemma sint_scast_32_64 [simp]: "sint (scast (x :: i32) :: i64) = sint x"
  by (rule sint_up_scast) (simp add: is_up)

lemma uint_ucast_32_64 [simp]: "uint (ucast (x :: u32) :: u64) = uint x"
  by (rule uint_up_ucast) (simp add: is_up)

lemma scast_64_32 [simp]: "(scast (scast (x :: i32) :: i64) :: i32) = x"
  by (simp add: scast_eq [of "scast x :: i64"])

lemma ucast_64_32 [simp]: "(ucast (ucast (x :: u32) :: u64) :: u32) = x"
  by (simp add: ucast_eq [of "ucast x :: u64"])

lemma encodeNodePointer_Ok [wire_bytes]: "encodeNodePointer buf p = Ok (buf @ pointer_bytes p)"
  by (cases p) (simp_all add: encodeNodePointer_def pointer_bytes_def ber_consts wire_bytes)

lemma encodeNodeValue_Ok [wire_bytes]: "encodeNodeValue buf v = Ok (buf @ value_bytes v)"
  by (cases v) (simp_all add: encodeNodeValue_def value_bytes_def ber_consts wire_bytes)

lemma encodeNodeFields_Ok [wire_bytes]: "encodeNodeFields buf n = Ok (buf @ node_fields_bytes n)"
  by (simp add: encodeNodeFields_def node_fields_bytes_def ber_consts wire_bytes writeTagLen_Ok
      tlv_bytes_def)

lemma wrapSequence_Ok [wire_bytes]: "wrapSequence buf (Ok fs) = Ok (buf @ seq_bytes fs)"
  by (simp add: wrapSequence_def seq_bytes_def ber_consts writeTagLen_Ok tlv_bytes_def)

lemma encodeAggregationMethod_Ok [wire_bytes]:
  "encodeAggregationMethod buf m = Ok (buf @ agg_bytes m)"
  by (cases m) (simp_all add: encodeAggregationMethod_def agg_bytes_def ber_consts wire_bytes)

lemma encodeCollectionMode_Ok [wire_bytes]: "encodeCollectionMode buf m = Ok (buf @ mode_bytes m)"
  by (cases m) (simp_all add: encodeCollectionMode_def mode_bytes_def ber_consts wire_bytes)

section \<open>Decoders invert encoders\<close>

lemma decodeNodePointer_bytes [wire_decode]:
  "fits (pointer_bytes p) \<Longrightarrow> decodeNodePointer (pointer_bytes p) = Ok p"
  by (cases p)
     (simp_all add: pointer_bytes_def decodeNodePointer_def wire_decode ber_consts length_tlv_bytes)

lemma decodeU32_bytes [wire_decode]:
  "decodeU32 fld mk (minimalTwosComplement (uint (x :: u32))) = Ok (mk x)"
proof -
  have "decodeUint64 (minimalTwosComplement (uint x)) = Ok (ucast x)"
    using decodeUint64_minimal [of "ucast x"] by simp
  moreover have "\<not> 4294967295 < (ucast x :: u64)"
    using uint_lt2p [of x] by (simp add: word_less_def)
  ultimately show ?thesis by (simp add: decodeU32_def)
qed

lemma decodeInt32_bytes [wire_decode]:
  "decodeInt64 (minimalTwosComplement (sint (x :: i32))) = Ok (scast x)"
  using decodeInt64_minimal [of "scast x"] by simp

lemma decodeNodeValue_bytes [wire_decode]:
  "fits (value_bytes v) \<Longrightarrow> decodeNodeValue (value_bytes v) = Ok v"
proof (cases v)
  case (ValueInteger32 x)
  assume "fits (value_bytes v)"
  then show ?thesis using ValueInteger32 sint_ge [of x] sint_lt [of x]
    by (simp add: value_bytes_def decodeNodeValue_def wire_decode ber_consts length_tlv_bytes)
qed (simp_all add: value_bytes_def decodeNodeValue_def wire_decode ber_consts length_tlv_bytes)

lemma decodeNodeFields_bytes [wire_decode]:
  "fits (node_fields_bytes n) \<Longrightarrow> decodeNodeFields (node_fields_bytes n) = Ok n"
  by (cases n)
     (simp add: node_fields_bytes_def decodeNodeFields_def wire_decode length_tlv_bytes)

definition valid_agg :: "AggregationMethod \<Rightarrow> bool" where
  "valid_agg m = (case m of AggPercentile p \<Rightarrow> 0 \<le> sint p \<and> sint p \<le> 100 | _ \<Rightarrow> True)"

lemma decodeAggregationMethod_bytes [wire_decode]:
  "fits (agg_bytes m) \<Longrightarrow> valid_agg m \<Longrightarrow> decodeAggregationMethod (agg_bytes m) = Ok m"
  by (cases m)
     (simp_all add: agg_bytes_def valid_agg_def decodeAggregationMethod_def wire_decode ber_consts
       length_tlv_bytes)

lemma decodeCollectionMode_bytes [wire_decode]:
  "fits (mode_bytes m) \<Longrightarrow> decodeCollectionMode (mode_bytes m) = Ok m"
  by (cases m)
     (simp_all add: mode_bytes_def decodeCollectionMode_def wire_decode ber_consts length_tlv_bytes)

end
