(* ===== verification/Codec.thy ===== *)
theory Codec
  imports Codec_Node
begin

text \<open>
  The messages of \<open>internal/wire/codec.go\<close>: field encoders and decoders of every request and
  response, and the \<open>NodeTreeMessage\<close> envelope one datagram carries.
\<close>

section \<open>SEQUENCE OF: the element loops\<close>

text \<open>
  The loop \<open>for len(content) > 0 \{ et, content, err = readTLV(content); ...; append \}\<close> that
  \<open>decodeSetFields\<close>, \<open>decodeDeleteFields\<close>, \<open>decodeResponseFields\<close> and
  \<open>decodeSummaryAckFields\<close> share: \<open>check\<close> is the element's tag test, \<open>dec\<close> its decoder.
\<close>

function readSeq :: "string \<Rightarrow> (tlv \<Rightarrow> wire_error option) \<Rightarrow> (byte list \<Rightarrow> 'a wire_result) \<Rightarrow>
    byte list \<Rightarrow> 'a list wire_result" where
  "readSeq fld check dec content =
     (if length content > 0 then
        rbind (wrap_err (InField fld) (readTLV content)) (\<lambda>(t, content').
          case check t of
            Some e \<Rightarrow> Err e
          | None \<Rightarrow>
              rbind (wrap_err (InField fld) (dec (tlv_content t))) (\<lambda>x.
              rbind (readSeq fld check dec content') (\<lambda>xs. Ok (x # xs))))
      else Ok [])"
  by pat_completeness auto
termination
  by (relation "measure (\<lambda>(fld, check, dec, content). length content)")
     (auto dest: readTLV_shrinks)

declare readSeq.simps [simp del]

definition check_sequence :: "string \<Rightarrow> tlv \<Rightarrow> wire_error option" where
  "check_sequence fld t =
     (if tlv_class t \<noteq> classUniversal \<or> tlv_tag t \<noteq> tagSequence
      then Some (WrongElement fld (tlv_class t) (tlv_tag t)) else None)"

section \<open>Get\<close>

definition encodeGetFields :: "byte list \<Rightarrow> GetReq \<Rightarrow> byte list wire_result" where
  "encodeGetFields buf g =
     rbind (encodeInt64 buf classContext False 0 (get_SequenceNumber g)) (\<lambda>buf.
     rbind (encodeNodePointer [] (get_Target g)) (\<lambda>tbuf.
     rbind (writeTagLen buf classContext True 1 (length tbuf)) (\<lambda>buf.
     Ok (buf @ tbuf))))"

definition decodeGetFields :: "byte list \<Rightarrow> GetReq wire_result" where
  "decodeGetFields content =
     rbind (wrap_err (InField ''Get.sequenceNumber'') (readTLV content)) (\<lambda>(t, rest).
     rbind (wrap_err (InField ''Get.sequenceNumber'') (decodeInt64 (tlv_content t))) (\<lambda>sn.
     rbind (wrap_err (InField ''Get.target'') (readTLV rest)) (\<lambda>(t, rest).
     rbind (wrap_err (InField ''Get.target'') (decodeNodePointer (tlv_content t))) (\<lambda>p.
     if length rest \<noteq> 0 then Err (Trailing (length rest) ''Get'')
     else Ok \<lparr>get_SequenceNumber = sn, get_Target = p\<rparr>))))"

section \<open>Set\<close>

definition writeExplicitPointer :: "byte list \<Rightarrow> nat \<Rightarrow> NodePointer \<Rightarrow> byte list wire_result" where
  "writeExplicitPointer buf tag p =
     rbind (encodeNodePointer [] p) (\<lambda>inner.
     rbind (writeTagLen buf classContext True tag (length inner)) (\<lambda>buf. Ok (buf @ inner)))"

definition writeExplicitValue :: "byte list \<Rightarrow> nat \<Rightarrow> NodeValue \<Rightarrow> byte list wire_result" where
  "writeExplicitValue buf tag v =
     rbind (encodeNodeValue [] v) (\<lambda>inner.
     rbind (writeTagLen buf classContext True tag (length inner)) (\<lambda>buf. Ok (buf @ inner)))"

text \<open>\<open>if x != nil \{ write x \}\<close>\<close>

definition when_some :: "'a option \<Rightarrow> (byte list \<Rightarrow> 'a \<Rightarrow> byte list wire_result) \<Rightarrow>
    byte list \<Rightarrow> byte list wire_result" where
  "when_some x write buf = (case x of None \<Rightarrow> Ok buf | Some v \<Rightarrow> write buf v)"

definition encodeSetEditFields :: "byte list \<Rightarrow> SetEdit \<Rightarrow> byte list wire_result" where
  "encodeSetEditFields buf e =
     rbind (encodeString buf classContext False 0 (se_Target e)) (\<lambda>buf.
     rbind (when_some (se_NewValue e) (\<lambda>buf v. writeExplicitValue buf 1 v) buf) (\<lambda>buf.
     rbind (when_some (se_NewFirstChild e) (\<lambda>buf p. writeExplicitPointer buf 2 p) buf) (\<lambda>buf.
     rbind (when_some (se_NewNextSibling e) (\<lambda>buf p. writeExplicitPointer buf 3 p) buf) (\<lambda>buf.
     when_some (se_NewParent e) (\<lambda>buf s. encodeString buf classContext False 4 s) buf))))"

function decodeSetEditRest :: "SetEdit \<Rightarrow> byte list \<Rightarrow> SetEdit wire_result" where
  "decodeSetEditRest e rest =
     (if length rest > 0 then
        rbind (wrap_err (InField ''SetEdit'') (readTLV rest)) (\<lambda>(t, rest').
          if tlv_tag t = 1 then
            rbind (wrap_err (InField ''SetEdit.newValue'') (decodeNodeValue (tlv_content t)))
              (\<lambda>v. decodeSetEditRest (e\<lparr>se_NewValue := Some v\<rparr>) rest')
          else if tlv_tag t = 2 then
            rbind (wrap_err (InField ''SetEdit.newFirstChild'') (decodeNodePointer (tlv_content t)))
              (\<lambda>p. decodeSetEditRest (e\<lparr>se_NewFirstChild := Some p\<rparr>) rest')
          else if tlv_tag t = 3 then
            rbind (wrap_err (InField ''SetEdit.newNextSibling'') (decodeNodePointer (tlv_content t)))
              (\<lambda>p. decodeSetEditRest (e\<lparr>se_NewNextSibling := Some p\<rparr>) rest')
          else if tlv_tag t = 4 then
            decodeSetEditRest (e\<lparr>se_NewParent := Some (string_of (tlv_content t))\<rparr>) rest'
          else Err (UnknownTag ''SetEdit'' (tlv_tag t)))
      else Ok e)"
  by pat_completeness auto
termination
  by (relation "measure (\<lambda>(e, rest). length rest)") (auto dest: readTLV_shrinks)

declare decodeSetEditRest.simps [simp del]

definition decodeSetEditFields :: "byte list \<Rightarrow> SetEdit wire_result" where
  "decodeSetEditFields content =
     rbind (wrap_err (InField ''SetEdit.target'') (readTLV content)) (\<lambda>(t, rest).
     if tlv_tag t \<noteq> 0 then Err (UnknownTag ''SetEdit.target'' (tlv_tag t))
     else decodeSetEditRest
       \<lparr>se_Target = string_of (tlv_content t), se_NewValue = None, se_NewFirstChild = None,
        se_NewNextSibling = None, se_NewParent = None\<rparr> rest)"

text \<open>\<open>for _, e := range es \{ encodeElement(\&ebuf, e) \}\<close>\<close>

fun encodeAll :: "(byte list \<Rightarrow> 'a \<Rightarrow> byte list wire_result) \<Rightarrow> byte list \<Rightarrow> 'a list \<Rightarrow>
    byte list wire_result" where
  "encodeAll enc buf [] = Ok buf"
| "encodeAll enc buf (x # xs) = rbind (enc buf x) (\<lambda>buf. encodeAll enc buf xs)"

definition encodeSetEditWrapped :: "byte list \<Rightarrow> SetEdit \<Rightarrow> byte list wire_result" where
  "encodeSetEditWrapped buf e = wrapSequence buf (encodeSetEditFields [] e)"

definition encodeSetFields :: "byte list \<Rightarrow> SetReq \<Rightarrow> byte list wire_result" where
  "encodeSetFields buf s =
     rbind (encodeInt64 buf classContext False 0 (set_SequenceNumber s)) (\<lambda>buf.
     rbind (encodeAll encodeSetEditWrapped [] (set_Edits s)) (\<lambda>ebuf.
     rbind (writeTagLen buf classContext True 1 (length ebuf)) (\<lambda>buf. Ok (buf @ ebuf))))"

definition decodeSetFields :: "byte list \<Rightarrow> SetReq wire_result" where
  "decodeSetFields content =
     rbind (wrap_err (InField ''Set.sequenceNumber'') (readTLV content)) (\<lambda>(t, rest).
     rbind (wrap_err (InField ''Set.sequenceNumber'') (decodeInt64 (tlv_content t))) (\<lambda>sn.
     rbind (wrap_err (InField ''Set.edits'') (readTLV rest)) (\<lambda>(t, rest).
     if tlv_tag t \<noteq> 1 then Err (UnknownTag ''Set.edits'' (tlv_tag t))
     else rbind (readSeq ''Set.edits'' (check_sequence ''Set.edits'') decodeSetEditFields
                   (tlv_content t)) (\<lambda>edits.
     if length rest \<noteq> 0 then Err (Trailing (length rest) ''Set'')
     else Ok \<lparr>set_SequenceNumber = sn, set_Edits = edits\<rparr>))))"

section \<open>Delete\<close>

definition encodeDeleteFields :: "byte list \<Rightarrow> DeleteReq \<Rightarrow> byte list wire_result" where
  "encodeDeleteFields buf d =
     rbind (encodeInt64 buf classContext False 0 (del_SequenceNumber d)) (\<lambda>buf.
     rbind (encodeAll (\<lambda>b s. encodeString b classUniversal False tagUTF8String s) []
              (del_Targets d)) (\<lambda>tbuf.
     rbind (writeTagLen buf classContext True 1 (length tbuf)) (\<lambda>buf. Ok (buf @ tbuf))))"

definition check_utf8 :: "string \<Rightarrow> tlv \<Rightarrow> wire_error option" where
  "check_utf8 fld t =
     (if tlv_class t \<noteq> classUniversal \<or> tlv_tag t \<noteq> tagUTF8String
      then Some (WrongElement fld (tlv_class t) (tlv_tag t)) else None)"

definition decodeDeleteFields :: "byte list \<Rightarrow> DeleteReq wire_result" where
  "decodeDeleteFields content =
     rbind (wrap_err (InField ''Delete.sequenceNumber'') (readTLV content)) (\<lambda>(t, rest).
     rbind (wrap_err (InField ''Delete.sequenceNumber'') (decodeInt64 (tlv_content t))) (\<lambda>sn.
     rbind (wrap_err (InField ''Delete.targets'') (readTLV rest)) (\<lambda>(t, rest).
     if tlv_tag t \<noteq> 1 then Err (UnknownTag ''Delete.targets'' (tlv_tag t))
     else rbind (readSeq ''Delete.targets'' (check_utf8 ''Delete.targets'')
                   (\<lambda>c. Ok (string_of c)) (tlv_content t)) (\<lambda>targets.
     if length rest \<noteq> 0 then Err (Trailing (length rest) ''Delete'')
     else Ok \<lparr>del_SequenceNumber = sn, del_Targets = targets\<rparr>))))"

section \<open>Create\<close>

definition encodeCreateFields :: "byte list \<Rightarrow> CreateReq \<Rightarrow> byte list wire_result" where
  "encodeCreateFields buf c =
     rbind (encodeInt64 buf classContext False 0 (cr_SequenceNumber c)) (\<lambda>buf.
     rbind (encodeString buf classContext False 1 (cr_Key c)) (\<lambda>buf.
     rbind (when_some (cr_Value c) (\<lambda>buf v. writeExplicitValue buf 2 v) buf) (\<lambda>buf.
     when_some (cr_Parent c) (\<lambda>buf s. encodeString buf classContext False 3 s) buf)))"

function decodeCreateRest :: "CreateReq \<Rightarrow> byte list \<Rightarrow> CreateReq wire_result" where
  "decodeCreateRest c rest =
     (if length rest > 0 then
        rbind (wrap_err (InField ''Create'') (readTLV rest)) (\<lambda>(t, rest').
          if tlv_tag t = 2 then
            rbind (wrap_err (InField ''Create.value'') (decodeNodeValue (tlv_content t)))
              (\<lambda>v. decodeCreateRest (c\<lparr>cr_Value := Some v\<rparr>) rest')
          else if tlv_tag t = 3 then
            decodeCreateRest (c\<lparr>cr_Parent := Some (string_of (tlv_content t))\<rparr>) rest'
          else Err (UnknownTag ''Create'' (tlv_tag t)))
      else Ok c)"
  by pat_completeness auto
termination
  by (relation "measure (\<lambda>(c, rest). length rest)") (auto dest: readTLV_shrinks)

declare decodeCreateRest.simps [simp del]

definition decodeCreateFields :: "byte list \<Rightarrow> CreateReq wire_result" where
  "decodeCreateFields content =
     rbind (wrap_err (InField ''Create.sequenceNumber'') (readTLV content)) (\<lambda>(t, rest).
     rbind (wrap_err (InField ''Create.sequenceNumber'') (decodeInt64 (tlv_content t))) (\<lambda>sn.
     rbind (wrap_err (InField ''Create.key'') (readTLV rest)) (\<lambda>(t, rest).
     decodeCreateRest \<lparr>cr_SequenceNumber = sn, cr_Key = string_of (tlv_content t),
       cr_Value = None, cr_Parent = None\<rparr> rest)))"

section \<open>Query\<close>

definition encodeQueryFields :: "byte list \<Rightarrow> QueryReq \<Rightarrow> byte list wire_result" where
  "encodeQueryFields buf q =
     rbind (encodeInt64 buf classContext False 0 (q_SequenceNumber q)) (\<lambda>buf.
     rbind (encodeString buf classContext False 1 (q_NodeExpression q)) (\<lambda>buf.
     rbind (encodeCollectionMode [] (q_CollectionMode q)) (\<lambda>cbuf.
     rbind (writeTagLen buf classContext True 2 (length cbuf)) (\<lambda>buf.
     let buf = buf @ cbuf in
     rbind (when_some (q_AggregationInterval q)
              (\<lambda>buf v. encodeInt64 buf classContext False 3 v) buf) (\<lambda>buf.
     rbind (when_some (q_AggregationMethod q)
              (\<lambda>buf m. rbind (encodeAggregationMethod [] m) (\<lambda>mbuf.
                rbind (writeTagLen buf classContext True 4 (length mbuf)) (\<lambda>buf.
                Ok (buf @ mbuf)))) buf) (\<lambda>buf.
     encodeInt64 buf classContext False 5 (q_TransferInterval q)))))))"

function decodeQueryRest :: "QueryReq \<Rightarrow> byte list \<Rightarrow> QueryReq wire_result" where
  "decodeQueryRest q rest =
     (if length rest > 0 then
        rbind (wrap_err (InField ''Query'') (readTLV rest)) (\<lambda>(t, rest').
          if tlv_tag t = 3 then
            rbind (wrap_err (InField ''Query.aggregationInterval'') (decodeInt64 (tlv_content t)))
              (\<lambda>v. decodeQueryRest (q\<lparr>q_AggregationInterval := Some v\<rparr>) rest')
          else if tlv_tag t = 4 then
            rbind (wrap_err (InField ''Query.aggregationMethod'')
                     (decodeAggregationMethod (tlv_content t)))
              (\<lambda>m. decodeQueryRest (q\<lparr>q_AggregationMethod := Some m\<rparr>) rest')
          else if tlv_tag t = 5 then
            rbind (wrap_err (InField ''Query.transferInterval'') (decodeInt64 (tlv_content t)))
              (\<lambda>v. decodeQueryRest (q\<lparr>q_TransferInterval := v\<rparr>) rest')
          else Err (UnknownTag ''Query'' (tlv_tag t)))
      else Ok q)"
  by pat_completeness auto
termination
  by (relation "measure (\<lambda>(q, rest). length rest)") (auto dest: readTLV_shrinks)

declare decodeQueryRest.simps [simp del]

definition decodeQueryFields :: "byte list \<Rightarrow> QueryReq wire_result" where
  "decodeQueryFields content =
     rbind (wrap_err (InField ''Query.sequenceNumber'') (readTLV content)) (\<lambda>(t, rest).
     rbind (wrap_err (InField ''Query.sequenceNumber'') (decodeInt64 (tlv_content t))) (\<lambda>sn.
     rbind (wrap_err (InField ''Query.nodeExpression'') (readTLV rest)) (\<lambda>(t, rest).
     let expr = string_of (tlv_content t) in
     rbind (wrap_err (InField ''Query.collectionMode'') (readTLV rest)) (\<lambda>(t, rest).
     rbind (wrap_err (InField ''Query.collectionMode'') (decodeCollectionMode (tlv_content t)))
       (\<lambda>mode.
     decodeQueryRest \<lparr>q_SequenceNumber = sn, q_NodeExpression = expr, q_CollectionMode = mode,
       q_AggregationInterval = None, q_AggregationMethod = None, q_TransferInterval = 0\<rparr>
       rest)))))"

section \<open>Response\<close>

definition encodeNodeFieldsWrapped :: "byte list \<Rightarrow> Node \<Rightarrow> byte list wire_result" where
  "encodeNodeFieldsWrapped buf n = wrapSequence buf (encodeNodeFields [] n)"

definition encodeResponseFields :: "byte list \<Rightarrow> Response \<Rightarrow> byte list wire_result" where
  "encodeResponseFields buf r =
     rbind (encodeInt64 buf classContext False 0 (rs_SequenceNumber r)) (\<lambda>buf.
     rbind (encodeInt64 buf classContext False 1 (rs_InReplyTo r)) (\<lambda>buf.
     rbind (encodeBool buf classContext False 2 (rs_Error r)) (\<lambda>buf.
     rbind (when_some (rs_ErrorNode r) (\<lambda>buf p. writeExplicitPointer buf 3 p) buf) (\<lambda>buf.
     rbind (encodeAll encodeNodeFieldsWrapped [] (rs_Nodes r)) (\<lambda>nbuf.
     rbind (writeTagLen buf classContext True 4 (length nbuf)) (\<lambda>buf. Ok (buf @ nbuf)))))))"

text \<open>The part after the optional \<open>errorNode\<close>: the TLV just read must be \<open>nodes\<close>.\<close>

definition decodeResponseNodes :: "tlv \<Rightarrow> byte list \<Rightarrow> Node list wire_result" where
  "decodeResponseNodes t rest =
     (if tlv_tag t \<noteq> 4 then Err (UnknownTag ''Response.nodes'' (tlv_tag t))
      else rbind (readSeq ''Response.nodes'' (check_sequence ''Response.nodes'') decodeNodeFields
                    (tlv_content t)) (\<lambda>nodes.
      if length rest \<noteq> 0 then Err (Trailing (length rest) ''Response'')
      else Ok nodes))"

definition decodeResponseFields :: "byte list \<Rightarrow> Response wire_result" where
  "decodeResponseFields content =
     rbind (wrap_err (InField ''Response.sequenceNumber'') (readTLV content)) (\<lambda>(t, rest).
     rbind (wrap_err (InField ''Response.sequenceNumber'') (decodeInt64 (tlv_content t))) (\<lambda>sn.
     rbind (wrap_err (InField ''Response.inReplyTo'') (readTLV rest)) (\<lambda>(t, rest).
     rbind (wrap_err (InField ''Response.inReplyTo'') (decodeInt64 (tlv_content t))) (\<lambda>irt.
     rbind (wrap_err (InField ''Response.error'') (readTLV rest)) (\<lambda>(t, rest).
     rbind (wrap_err (InField ''Response.error'') (decodeBool (tlv_content t))) (\<lambda>err.
     rbind (wrap_err (InField ''Response.nodes'') (readTLV rest)) (\<lambda>(t, rest).
     if tlv_tag t = 3 then
       rbind (wrap_err (InField ''Response.errorNode'') (decodeNodePointer (tlv_content t))) (\<lambda>p.
       rbind (wrap_err (InField ''Response.nodes'') (readTLV rest)) (\<lambda>(t, rest).
       rbind (decodeResponseNodes t rest) (\<lambda>nodes.
       Ok \<lparr>rs_SequenceNumber = sn, rs_InReplyTo = irt, rs_Error = err, rs_ErrorNode = Some p,
           rs_Nodes = nodes\<rparr>)))
     else
       rbind (decodeResponseNodes t rest) (\<lambda>nodes.
       Ok \<lparr>rs_SequenceNumber = sn, rs_InReplyTo = irt, rs_Error = err, rs_ErrorNode = None,
           rs_Nodes = nodes\<rparr>))))))))"

section \<open>SummaryAck\<close>

definition encodeSequenceRangeFields :: "byte list \<Rightarrow> SequenceRange \<Rightarrow> byte list wire_result" where
  "encodeSequenceRangeFields buf r =
     rbind (encodeInt64 buf classContext False 0 (sr_First r)) (\<lambda>buf.
     encodeInt64 buf classContext False 1 (sr_Last r))"

definition encodeSequenceRangeWrapped :: "byte list \<Rightarrow> SequenceRange \<Rightarrow> byte list wire_result" where
  "encodeSequenceRangeWrapped buf r = wrapSequence buf (encodeSequenceRangeFields [] r)"

definition decodeSequenceRangeFields :: "byte list \<Rightarrow> SequenceRange wire_result" where
  "decodeSequenceRangeFields content =
     rbind (wrap_err (InField ''SequenceRange.first'') (readTLV content)) (\<lambda>(t, rest).
     rbind (wrap_err (InField ''SequenceRange.first'') (decodeInt64 (tlv_content t))) (\<lambda>a.
     rbind (wrap_err (InField ''SequenceRange.last'') (readTLV rest)) (\<lambda>(t, rest).
     rbind (wrap_err (InField ''SequenceRange.last'') (decodeInt64 (tlv_content t))) (\<lambda>b.
     if length rest \<noteq> 0 then Err (Trailing (length rest) ''SequenceRange'')
     else Ok \<lparr>sr_First = a, sr_Last = b\<rparr>))))"

definition encodeSummaryAckFields :: "byte list \<Rightarrow> SummaryAck \<Rightarrow> byte list wire_result" where
  "encodeSummaryAckFields buf a =
     rbind (encodeAll encodeSequenceRangeWrapped [] (sa_Received a)) (\<lambda>rbuf.
     rbind (writeTagLen buf classContext True 0 (length rbuf)) (\<lambda>buf. Ok (buf @ rbuf)))"

text \<open>The elements of \<open>received\<close> are decoded without a test of their tag.\<close>

definition decodeSummaryAckFields :: "byte list \<Rightarrow> SummaryAck wire_result" where
  "decodeSummaryAckFields content =
     rbind (wrap_err (InField ''SummaryAck.received'') (readTLV content)) (\<lambda>(t, rest).
     if tlv_tag t \<noteq> 0 then Err (UnknownTag ''SummaryAck'' (tlv_tag t))
     else rbind (readSeq ''SummaryAck.received'' (\<lambda>_. None) decodeSequenceRangeFields
                   (tlv_content t)) (\<lambda>ranges.
     if length rest \<noteq> 0 then Err (Trailing (length rest) ''SummaryAck'')
     else Ok \<lparr>sa_Received = ranges\<rparr>))"

section \<open>NodeTreeMessage\<close>

definition writeImplicitInto :: "byte list \<Rightarrow> nat \<Rightarrow> byte list wire_result \<Rightarrow> byte list wire_result" where
  "writeImplicitInto buf tag encoded_fields =
     rbind encoded_fields (\<lambda>fs.
     rbind (writeTagLen buf classContext True tag (length fs)) (\<lambda>buf. Ok (buf @ fs)))"

definition MarshalMessage :: "Message \<Rightarrow> byte list wire_result" where
  "MarshalMessage m =
     (case m of
        MsgGet g \<Rightarrow> writeImplicitInto [] 0 (encodeGetFields [] g)
      | MsgSet s \<Rightarrow> writeImplicitInto [] 1 (encodeSetFields [] s)
      | MsgCreate c \<Rightarrow> writeImplicitInto [] 2 (encodeCreateFields [] c)
      | MsgQuery q \<Rightarrow> writeImplicitInto [] 3 (encodeQueryFields [] q)
      | MsgResponse r \<Rightarrow> writeImplicitInto [] 4 (encodeResponseFields [] r)
      | MsgSummaryAck a \<Rightarrow> writeImplicitInto [] 5 (encodeSummaryAckFields [] a)
      | MsgDelete d \<Rightarrow> writeImplicitInto [] 6 (encodeDeleteFields [] d))"

definition UnmarshalMessage :: "byte list \<Rightarrow> Message wire_result" where
  "UnmarshalMessage data =
     rbind (readTLV data) (\<lambda>(t, rest).
     if length rest \<noteq> 0 then Err (Trailing (length rest) ''NodeTreeMessage'')
     else if tlv_class t \<noteq> classContext then Err (WrongClass ''NodeTreeMessage'' (tlv_class t))
     else if tlv_tag t = 0 then rbind (decodeGetFields (tlv_content t)) (\<lambda>g. Ok (MsgGet g))
     else if tlv_tag t = 1 then rbind (decodeSetFields (tlv_content t)) (\<lambda>s. Ok (MsgSet s))
     else if tlv_tag t = 2 then rbind (decodeCreateFields (tlv_content t)) (\<lambda>c. Ok (MsgCreate c))
     else if tlv_tag t = 3 then rbind (decodeQueryFields (tlv_content t)) (\<lambda>q. Ok (MsgQuery q))
     else if tlv_tag t = 4 then
       rbind (decodeResponseFields (tlv_content t)) (\<lambda>r. Ok (MsgResponse r))
     else if tlv_tag t = 5 then
       rbind (decodeSummaryAckFields (tlv_content t)) (\<lambda>a. Ok (MsgSummaryAck a))
     else if tlv_tag t = 6 then rbind (decodeDeleteFields (tlv_content t)) (\<lambda>d. Ok (MsgDelete d))
     else Err (UnknownTag ''NodeTreeMessage'' (tlv_tag t)))"

section \<open>Standalone encodings of each message type\<close>

definition MarshalGet :: "GetReq \<Rightarrow> byte list wire_result" where
  "MarshalGet m = wrapSequence [] (encodeGetFields [] m)"

definition UnmarshalGet :: "byte list \<Rightarrow> GetReq wire_result" where
  "UnmarshalGet data = rbind (unwrapSequence data ''Get'') decodeGetFields"

definition MarshalSet :: "SetReq \<Rightarrow> byte list wire_result" where
  "MarshalSet m = wrapSequence [] (encodeSetFields [] m)"

definition UnmarshalSet :: "byte list \<Rightarrow> SetReq wire_result" where
  "UnmarshalSet data = rbind (unwrapSequence data ''Set'') decodeSetFields"

definition MarshalDelete :: "DeleteReq \<Rightarrow> byte list wire_result" where
  "MarshalDelete m = wrapSequence [] (encodeDeleteFields [] m)"

definition UnmarshalDelete :: "byte list \<Rightarrow> DeleteReq wire_result" where
  "UnmarshalDelete data = rbind (unwrapSequence data ''Delete'') decodeDeleteFields"

definition MarshalCreate :: "CreateReq \<Rightarrow> byte list wire_result" where
  "MarshalCreate m = wrapSequence [] (encodeCreateFields [] m)"

definition UnmarshalCreate :: "byte list \<Rightarrow> CreateReq wire_result" where
  "UnmarshalCreate data = rbind (unwrapSequence data ''Create'') decodeCreateFields"

definition MarshalQuery :: "QueryReq \<Rightarrow> byte list wire_result" where
  "MarshalQuery m = wrapSequence [] (encodeQueryFields [] m)"

definition UnmarshalQuery :: "byte list \<Rightarrow> QueryReq wire_result" where
  "UnmarshalQuery data = rbind (unwrapSequence data ''Query'') decodeQueryFields"

definition MarshalResponse :: "Response \<Rightarrow> byte list wire_result" where
  "MarshalResponse m = wrapSequence [] (encodeResponseFields [] m)"

definition UnmarshalResponse :: "byte list \<Rightarrow> Response wire_result" where
  "UnmarshalResponse data = rbind (unwrapSequence data ''Response'') decodeResponseFields"

definition MarshalSummaryAck :: "SummaryAck \<Rightarrow> byte list wire_result" where
  "MarshalSummaryAck m = wrapSequence [] (encodeSummaryAckFields [] m)"

definition UnmarshalSummaryAck :: "byte list \<Rightarrow> SummaryAck wire_result" where
  "UnmarshalSummaryAck data = rbind (unwrapSequence data ''SummaryAck'') decodeSummaryAckFields"

end
