(* ===== verification/Codec_Props.thy ===== *)
theory Codec_Props
  imports Codec
begin

text \<open>
  What the codec promises: every encoder returns (never panics) and appends exactly the octets of
  the abstract encoding, and the decoder of a message inverts its encoder.
\<close>

section \<open>The octets of each message\<close>

definition opt_bytes :: "('a \<Rightarrow> byte list) \<Rightarrow> 'a option \<Rightarrow> byte list" where
  "opt_bytes f x = (case x of None \<Rightarrow> [] | Some v \<Rightarrow> f v)"

definition int_bytes :: "nat \<Rightarrow> i64 \<Rightarrow> byte list" where
  "int_bytes tag v = tlv_bytes 2 False tag (minimalTwosComplement (sint v))"

definition get_bytes :: "GetReq \<Rightarrow> byte list" where
  "get_bytes g = int_bytes 0 (get_SequenceNumber g) @ tlv_bytes 2 True 1 (pointer_bytes (get_Target g))"

definition edit_bytes :: "SetEdit \<Rightarrow> byte list" where
  "edit_bytes e =
     tlv_bytes 2 False 0 (bytes_of (se_Target e)) @
     opt_bytes (\<lambda>v. tlv_bytes 2 True 1 (value_bytes v)) (se_NewValue e) @
     opt_bytes (\<lambda>p. tlv_bytes 2 True 2 (pointer_bytes p)) (se_NewFirstChild e) @
     opt_bytes (\<lambda>p. tlv_bytes 2 True 3 (pointer_bytes p)) (se_NewNextSibling e) @
     opt_bytes (\<lambda>s. tlv_bytes 2 False 4 (bytes_of s)) (se_NewParent e)"

definition set_bytes :: "SetReq \<Rightarrow> byte list" where
  "set_bytes s = int_bytes 0 (set_SequenceNumber s) @
     tlv_bytes 2 True 1 (concat (map (\<lambda>e. seq_bytes (edit_bytes e)) (set_Edits s)))"

definition delete_bytes :: "DeleteReq \<Rightarrow> byte list" where
  "delete_bytes d = int_bytes 0 (del_SequenceNumber d) @
     tlv_bytes 2 True 1 (concat (map (\<lambda>s. tlv_bytes 0 False 12 (bytes_of s)) (del_Targets d)))"

definition create_bytes :: "CreateReq \<Rightarrow> byte list" where
  "create_bytes c = int_bytes 0 (cr_SequenceNumber c) @ tlv_bytes 2 False 1 (bytes_of (cr_Key c)) @
     opt_bytes (\<lambda>v. tlv_bytes 2 True 2 (value_bytes v)) (cr_Value c) @
     opt_bytes (\<lambda>s. tlv_bytes 2 False 3 (bytes_of s)) (cr_Parent c)"

definition query_bytes :: "QueryReq \<Rightarrow> byte list" where
  "query_bytes q = int_bytes 0 (q_SequenceNumber q) @
     tlv_bytes 2 False 1 (bytes_of (q_NodeExpression q)) @
     tlv_bytes 2 True 2 (mode_bytes (q_CollectionMode q)) @
     opt_bytes (int_bytes 3) (q_AggregationInterval q) @
     opt_bytes (\<lambda>m. tlv_bytes 2 True 4 (agg_bytes m)) (q_AggregationMethod q) @
     int_bytes 5 (q_TransferInterval q)"

definition response_bytes :: "Response \<Rightarrow> byte list" where
  "response_bytes r = int_bytes 0 (rs_SequenceNumber r) @ int_bytes 1 (rs_InReplyTo r) @
     tlv_bytes 2 False 2 [if rs_Error r then 0xff else 0] @
     opt_bytes (\<lambda>p. tlv_bytes 2 True 3 (pointer_bytes p)) (rs_ErrorNode r) @
     tlv_bytes 2 True 4 (concat (map (\<lambda>n. seq_bytes (node_fields_bytes n)) (rs_Nodes r)))"

definition range_bytes :: "SequenceRange \<Rightarrow> byte list" where
  "range_bytes r = int_bytes 0 (sr_First r) @ int_bytes 1 (sr_Last r)"

definition ack_bytes :: "SummaryAck \<Rightarrow> byte list" where
  "ack_bytes a = tlv_bytes 2 True 0 (concat (map (\<lambda>r. seq_bytes (range_bytes r)) (sa_Received a)))"

definition message_bytes :: "Message \<Rightarrow> byte list" where
  "message_bytes m =
     (case m of
        MsgGet g \<Rightarrow> tlv_bytes 2 True 0 (get_bytes g)
      | MsgSet s \<Rightarrow> tlv_bytes 2 True 1 (set_bytes s)
      | MsgCreate c \<Rightarrow> tlv_bytes 2 True 2 (create_bytes c)
      | MsgQuery q \<Rightarrow> tlv_bytes 2 True 3 (query_bytes q)
      | MsgResponse r \<Rightarrow> tlv_bytes 2 True 4 (response_bytes r)
      | MsgSummaryAck a \<Rightarrow> tlv_bytes 2 True 5 (ack_bytes a)
      | MsgDelete d \<Rightarrow> tlv_bytes 2 True 6 (delete_bytes d))"

section \<open>Encoders append these octets\<close>

lemma writeExplicitPointer_Ok [wire_bytes]:
  "tag < 31 \<Longrightarrow> writeExplicitPointer buf tag p = Ok (buf @ tlv_bytes 2 True tag (pointer_bytes p))"
  by (simp add: writeExplicitPointer_def ber_consts wire_bytes)

lemma writeExplicitValue_Ok [wire_bytes]:
  "tag < 31 \<Longrightarrow> writeExplicitValue buf tag v = Ok (buf @ tlv_bytes 2 True tag (value_bytes v))"
  by (simp add: writeExplicitValue_def ber_consts wire_bytes)

lemma when_some_Ok [wire_bytes]:
  "(\<And>buf v. write buf v = Ok (buf @ f v)) \<Longrightarrow> when_some x write buf = Ok (buf @ opt_bytes f x)"
  by (cases x) (simp_all add: when_some_def opt_bytes_def)

lemma encodeAll_Ok [wire_bytes]:
  assumes "\<And>buf x. enc buf x = Ok (buf @ f x)"
  shows "encodeAll enc buf xs = Ok (buf @ concat (map f xs))"
  by (induction xs arbitrary: buf) (simp_all add: assms)

lemma encodeInt64_ctx [wire_bytes]:
  "tag < 31 \<Longrightarrow> encodeInt64 buf 2 False tag v = Ok (buf @ int_bytes tag v)"
  by (simp add: wire_bytes int_bytes_def)

lemma encodeGetFields_Ok [wire_bytes]: "encodeGetFields buf g = Ok (buf @ get_bytes g)"
  by (simp add: encodeGetFields_def get_bytes_def int_bytes_def ber_consts wire_bytes)

lemma encodeSetEditWrapped_Ok [wire_bytes]:
  "encodeSetEditWrapped buf e = Ok (buf @ seq_bytes (edit_bytes e))"
  by (simp add: encodeSetEditWrapped_def encodeSetEditFields_def edit_bytes_def ber_consts wire_bytes
      when_some_Ok [OF writeExplicitValue_Ok] when_some_Ok [OF writeExplicitPointer_Ok]
      when_some_Ok [OF encodeString_Ok])

lemma encodeSetFields_Ok [wire_bytes]: "encodeSetFields buf s = Ok (buf @ set_bytes s)"
  by (simp add: encodeSetFields_def set_bytes_def int_bytes_def ber_consts wire_bytes
      encodeAll_Ok [OF encodeSetEditWrapped_Ok])

lemma encodeDeleteFields_Ok [wire_bytes]: "encodeDeleteFields buf d = Ok (buf @ delete_bytes d)"
  by (simp add: encodeDeleteFields_def delete_bytes_def int_bytes_def ber_consts wire_bytes
      encodeAll_Ok [OF encodeString_Ok])

lemma encodeCreateFields_Ok [wire_bytes]: "encodeCreateFields buf c = Ok (buf @ create_bytes c)"
  by (simp add: encodeCreateFields_def create_bytes_def int_bytes_def ber_consts wire_bytes
      when_some_Ok [OF writeExplicitValue_Ok] when_some_Ok [OF encodeString_Ok])

lemma encodeQueryFields_Ok [wire_bytes]: "encodeQueryFields buf q = Ok (buf @ query_bytes q)"
proof -
  have m: "rbind (encodeAggregationMethod [] m) (\<lambda>mbuf.
      rbind (writeTagLen buf 2 True 4 (length mbuf)) (\<lambda>buf. Ok (buf @ mbuf))) =
      Ok (buf @ tlv_bytes 2 True 4 (agg_bytes m))" for buf m
    by (simp add: wire_bytes)
  show ?thesis
    by (simp add: encodeQueryFields_def query_bytes_def ber_consts wire_bytes writeTagLen_Ok
        when_some_Ok [OF encodeInt64_ctx] when_some_Ok [OF m] Let_def)
       (simp add: tlv_bytes_def int_bytes_def [abs_def])
qed

lemma encodeNodeFieldsWrapped_Ok [wire_bytes]:
  "encodeNodeFieldsWrapped buf n = Ok (buf @ seq_bytes (node_fields_bytes n))"
  by (simp add: encodeNodeFieldsWrapped_def wire_bytes)

lemma encodeResponseFields_Ok [wire_bytes]: "encodeResponseFields buf r = Ok (buf @ response_bytes r)"
  by (simp add: encodeResponseFields_def response_bytes_def int_bytes_def ber_consts wire_bytes
      when_some_Ok [OF writeExplicitPointer_Ok] encodeAll_Ok [OF encodeNodeFieldsWrapped_Ok])

lemma encodeSequenceRangeWrapped_Ok [wire_bytes]:
  "encodeSequenceRangeWrapped buf r = Ok (buf @ seq_bytes (range_bytes r))"
  by (simp add: encodeSequenceRangeWrapped_def encodeSequenceRangeFields_def range_bytes_def
      int_bytes_def ber_consts wire_bytes)

lemma encodeSummaryAckFields_Ok [wire_bytes]: "encodeSummaryAckFields buf a = Ok (buf @ ack_bytes a)"
  by (simp add: encodeSummaryAckFields_def ack_bytes_def ber_consts wire_bytes
      encodeAll_Ok [OF encodeSequenceRangeWrapped_Ok])

lemma writeImplicitInto_Ok [wire_bytes]:
  "tag < 31 \<Longrightarrow> writeImplicitInto buf tag (Ok fs) = Ok (buf @ tlv_bytes 2 True tag fs)"
  by (simp add: writeImplicitInto_def ber_consts wire_bytes)

lemma MarshalMessage_bytes: "MarshalMessage m = Ok (message_bytes m)"
  by (cases m) (simp_all add: MarshalMessage_def message_bytes_def wire_bytes)

section \<open>Elements of a SEQUENCE OF\<close>

text \<open>
  What the element loop needs of an element codec: the element is one TLV whose tag passes the
  check, and the decoder inverts the element's content octets.
\<close>

locale element_codec =
  fixes cls :: nat and constructed :: bool and tag :: nat
    and check :: "tlv \<Rightarrow> wire_error option"
    and dec :: "byte list \<Rightarrow> 'a wire_result"
    and content :: "'a \<Rightarrow> byte list"
  assumes cls: "cls < 4" and tag: "tag < 31"
    and check: "check \<lparr>tlv_class = cls, tlv_constructed = constructed, tlv_tag = tag,
        tlv_content = c\<rparr> = None"
    and dec_content: "fits (content x) \<Longrightarrow> dec (content x) = Ok x"
begin

lemma readSeq_elements:
  "fits (concat (map (\<lambda>x. tlv_bytes cls constructed tag (content x)) xs)) \<Longrightarrow>
     readSeq fld check dec (concat (map (\<lambda>x. tlv_bytes cls constructed tag (content x)) xs)) = Ok xs"
proof (induction xs)
  case Nil
  show ?case by (simp add: readSeq.simps)
next
  case (Cons x xs)
  then have "fits (content x)" by (simp add: length_tlv_bytes)
  with Cons cls tag show ?case
    by (subst readSeq.simps) (simp add: readTLV_bytes check dec_content)
qed

end

interpretation node_elem: element_codec 0 True 16 "check_sequence fld" decodeNodeFields
  node_fields_bytes for fld
  by unfold_locales (simp_all add: check_sequence_def ber_consts wire_decode)

interpretation target_elem: element_codec 0 False 12 "check_utf8 fld" "\<lambda>c. Ok (string_of c)"
  bytes_of for fld
  by unfold_locales (simp_all add: check_utf8_def ber_consts)

lemma decodeInt64_ctx [wire_decode]:
  "fits (int_bytes tag v) \<Longrightarrow> tag < 31 \<Longrightarrow> readTLV (int_bytes tag v @ r) =
     Ok (\<lparr>tlv_class = 2, tlv_constructed = False, tlv_tag = tag,
         tlv_content = minimalTwosComplement (sint v)\<rparr>, r)"
  by (simp add: int_bytes_def wire_decode length_tlv_bytes)

lemma decodeInt64_ctx_end [wire_decode]:
  "fits (int_bytes tag v) \<Longrightarrow> tag < 31 \<Longrightarrow> readTLV (int_bytes tag v) =
     Ok (\<lparr>tlv_class = 2, tlv_constructed = False, tlv_tag = tag,
         tlv_content = minimalTwosComplement (sint v)\<rparr>, [])"
  using decodeInt64_ctx [of tag v "[]"] by simp

lemma decodeSequenceRangeFields_bytes [wire_decode]:
  "fits (range_bytes r) \<Longrightarrow> decodeSequenceRangeFields (range_bytes r) = Ok r"
  by (cases r) (simp add: decodeSequenceRangeFields_def range_bytes_def wire_decode)

interpretation range_elem: element_codec 0 True 16 "\<lambda>_. None" decodeSequenceRangeFields
  range_bytes
  by unfold_locales (simp_all add: wire_decode)

section \<open>Decoders invert encoders\<close>

lemma decodeGetFields_bytes [wire_decode]:
  "fits (get_bytes g) \<Longrightarrow> decodeGetFields (get_bytes g) = Ok g"
  by (cases g) (simp add: decodeGetFields_def get_bytes_def wire_decode length_tlv_bytes)

lemma decodeSetEditRest_Nil [wire_decode]: "decodeSetEditRest e [] = Ok e"
  by (simp add: decodeSetEditRest.simps)

lemma decodeSetEditRest_1 [wire_decode]:
  "fits (value_bytes v) \<Longrightarrow> decodeSetEditRest e (tlv_bytes 2 True 1 (value_bytes v) @ r) =
     decodeSetEditRest (e\<lparr>se_NewValue := Some v\<rparr>) r"
  by (subst decodeSetEditRest.simps) (simp add: wire_decode)

lemma decodeSetEditRest_2 [wire_decode]:
  "fits (pointer_bytes v) \<Longrightarrow> decodeSetEditRest e (tlv_bytes 2 True 2 (pointer_bytes v) @ r) =
     decodeSetEditRest (e\<lparr>se_NewFirstChild := Some v\<rparr>) r"
  by (subst decodeSetEditRest.simps) (simp add: wire_decode)

lemma decodeSetEditRest_3 [wire_decode]:
  "fits (pointer_bytes v) \<Longrightarrow> decodeSetEditRest e (tlv_bytes 2 True 3 (pointer_bytes v) @ r) =
     decodeSetEditRest (e\<lparr>se_NewNextSibling := Some v\<rparr>) r"
  by (subst decodeSetEditRest.simps) (simp add: wire_decode)

lemma decodeSetEditRest_4 [wire_decode]:
  "fits (bytes_of s) \<Longrightarrow> decodeSetEditRest e (tlv_bytes 2 False 4 (bytes_of s)) =
     Ok (e\<lparr>se_NewParent := Some s\<rparr>)"
  by (subst decodeSetEditRest.simps) (simp add: wire_decode)

lemmas decodeSetEditRest_end [wire_decode] =
  decodeSetEditRest_1 [where r = "[]", unfolded append_Nil2 decodeSetEditRest_Nil]
  decodeSetEditRest_2 [where r = "[]", unfolded append_Nil2 decodeSetEditRest_Nil]
  decodeSetEditRest_3 [where r = "[]", unfolded append_Nil2 decodeSetEditRest_Nil]

lemma decodeSetEditFields_bytes [wire_decode]:
  "fits (edit_bytes e) \<Longrightarrow> decodeSetEditFields (edit_bytes e) = Ok e"
  by (cases e)
     (auto simp add: decodeSetEditFields_def edit_bytes_def opt_bytes_def wire_decode
        length_tlv_bytes simp del: One_nat_def split: option.splits)

interpretation edit_elem: element_codec 0 True 16 "check_sequence fld" decodeSetEditFields
  edit_bytes for fld
  by unfold_locales (simp_all add: check_sequence_def ber_consts wire_decode)

lemma decodeSetFields_bytes [wire_decode]:
  "fits (set_bytes s) \<Longrightarrow> decodeSetFields (set_bytes s) = Ok s"
  using edit_elem.readSeq_elements [of "set_Edits s"]
  by (cases s)
     (simp add: decodeSetFields_def set_bytes_def seq_bytes_def wire_decode length_tlv_bytes)

lemma decodeDeleteFields_bytes [wire_decode]:
  "fits (delete_bytes d) \<Longrightarrow> decodeDeleteFields (delete_bytes d) = Ok d"
  using target_elem.readSeq_elements [of "del_Targets d"]
  by (cases d)
     (simp add: decodeDeleteFields_def delete_bytes_def wire_decode length_tlv_bytes)

lemma decodeCreateRest_simps [wire_decode]:
  "decodeCreateRest c [] = Ok c"
  "fits (value_bytes v) \<Longrightarrow> decodeCreateRest c (tlv_bytes 2 True 2 (value_bytes v) @ r) =
     decodeCreateRest (c\<lparr>cr_Value := Some v\<rparr>) r"
  "fits (bytes_of s) \<Longrightarrow> decodeCreateRest c (tlv_bytes 2 False 3 (bytes_of s)) =
     Ok (c\<lparr>cr_Parent := Some s\<rparr>)"
proof -
  show nil: "decodeCreateRest c [] = Ok c" for c by (simp add: decodeCreateRest.simps)
  show "fits (value_bytes v) \<Longrightarrow> decodeCreateRest c (tlv_bytes 2 True 2 (value_bytes v) @ r) =
     decodeCreateRest (c\<lparr>cr_Value := Some v\<rparr>) r"
    by (subst decodeCreateRest.simps) (simp add: wire_decode)
  show "fits (bytes_of s) \<Longrightarrow> decodeCreateRest c (tlv_bytes 2 False 3 (bytes_of s)) =
     Ok (c\<lparr>cr_Parent := Some s\<rparr>)"
    by (subst decodeCreateRest.simps) (simp add: wire_decode nil)
qed

lemmas decodeCreateRest_end [wire_decode] =
  decodeCreateRest_simps(2) [where r = "[]", unfolded append_Nil2 decodeCreateRest_simps(1)]

lemma decodeCreateFields_bytes [wire_decode]:
  "fits (create_bytes c) \<Longrightarrow> decodeCreateFields (create_bytes c) = Ok c"
  by (cases c)
     (auto simp add: decodeCreateFields_def create_bytes_def opt_bytes_def wire_decode
        length_tlv_bytes split: option.splits)

lemma decodeQueryRest_simps [wire_decode]:
  "fits (int_bytes 3 v) \<Longrightarrow> decodeQueryRest q (int_bytes 3 v @ r) =
     decodeQueryRest (q\<lparr>q_AggregationInterval := Some v\<rparr>) r"
  "fits (agg_bytes m) \<Longrightarrow> valid_agg m \<Longrightarrow>
     decodeQueryRest q (tlv_bytes 2 True 4 (agg_bytes m) @ r) =
     decodeQueryRest (q\<lparr>q_AggregationMethod := Some m\<rparr>) r"
  "fits (int_bytes 5 v) \<Longrightarrow> decodeQueryRest q (int_bytes 5 v) = Ok (q\<lparr>q_TransferInterval := v\<rparr>)"
proof -
  have nil: "decodeQueryRest q [] = Ok q" for q by (simp add: decodeQueryRest.simps)
  have nn: "int_bytes tag v \<noteq> []" for tag v by (simp add: int_bytes_def)
  show "fits (int_bytes 3 v) \<Longrightarrow> decodeQueryRest q (int_bytes 3 v @ r) =
     decodeQueryRest (q\<lparr>q_AggregationInterval := Some v\<rparr>) r"
    by (subst decodeQueryRest.simps) (simp add: wire_decode nn)
  show "fits (agg_bytes m) \<Longrightarrow> valid_agg m \<Longrightarrow>
     decodeQueryRest q (tlv_bytes 2 True 4 (agg_bytes m) @ r) =
     decodeQueryRest (q\<lparr>q_AggregationMethod := Some m\<rparr>) r"
    by (subst decodeQueryRest.simps) (simp add: wire_decode)
  show "fits (int_bytes 5 v) \<Longrightarrow>
      decodeQueryRest q (int_bytes 5 v) = Ok (q\<lparr>q_TransferInterval := v\<rparr>)"
    by (subst decodeQueryRest.simps) (simp add: wire_decode nil nn)
qed

definition valid_query :: "QueryReq \<Rightarrow> bool" where
  "valid_query q = (case q_AggregationMethod q of None \<Rightarrow> True | Some m \<Rightarrow> valid_agg m)"

lemma decodeQueryFields_bytes [wire_decode]:
  "fits (query_bytes q) \<Longrightarrow> valid_query q \<Longrightarrow> decodeQueryFields (query_bytes q) = Ok q"
  by (cases q)
     (auto simp add: decodeQueryFields_def query_bytes_def opt_bytes_def valid_query_def wire_decode
        length_tlv_bytes split: option.splits)

lemma decodeResponseFields_bytes [wire_decode]:
  "fits (response_bytes r) \<Longrightarrow> decodeResponseFields (response_bytes r) = Ok r"
  using node_elem.readSeq_elements [of "rs_Nodes r"]
  by (cases r)
     (auto simp add: decodeResponseFields_def decodeResponseNodes_def response_bytes_def seq_bytes_def
        opt_bytes_def wire_decode length_tlv_bytes split: option.splits)

lemma decodeSummaryAckFields_bytes [wire_decode]:
  "fits (ack_bytes a) \<Longrightarrow> decodeSummaryAckFields (ack_bytes a) = Ok a"
  using range_elem.readSeq_elements [of "sa_Received a"]
  by (cases a)
     (simp add: decodeSummaryAckFields_def ack_bytes_def seq_bytes_def wire_decode length_tlv_bytes)

text \<open>The only message the decoder refuses although the encoder accepts it: a percentile outside
  0..100.\<close>

definition valid_message :: "Message \<Rightarrow> bool" where
  "valid_message m = (case m of MsgQuery q \<Rightarrow> valid_query q | _ \<Rightarrow> True)"

lemma UnmarshalMessage_bytes:
  "fits (message_bytes m) \<Longrightarrow> valid_message m \<Longrightarrow> UnmarshalMessage (message_bytes m) = Ok m"
  by (cases m)
     (simp_all add: UnmarshalMessage_def message_bytes_def valid_message_def ber_consts wire_decode
        length_tlv_bytes)

end
