(* ===== verification/Codec_Safety.thy ===== *)
theory Codec_Safety
  imports Codec_Props
begin

text \<open>
  Where the decoders of \<open>codec.go\<close> cannot panic: every decoder returns on fewer than ten octets,
  because the only panic (the negative length of \<open>readTLV\<close>) needs eight length octets. Also the
  refusal of truncated elements, on which the framing of datagrams rests.
\<close>

section \<open>Short datagrams cannot panic the decoder\<close>

definition returns :: "('e, 'a) result \<Rightarrow> bool" where
  "returns r \<longleftrightarrow> r \<noteq> Panic"

named_theorems returns_intro \<open>why a decoder returns\<close>

lemma returns_simps [simp]: "returns (Ok x)" "returns (Err e)" "\<not> returns Panic"
  "returns (wrap_err w r) \<longleftrightarrow> returns r"
  by (simp_all add: returns_def)

lemma returns_bind [returns_intro]:
  "returns r \<Longrightarrow> (\<And>x. r = Ok x \<Longrightarrow> returns (f x)) \<Longrightarrow> returns (rbind r f)"
  by (cases r) auto

lemma returns_ints [simp]: "returns (decodeInt64 c)" "returns (decodeUint64 c)" "returns (decodeBool c)"
  by (auto simp: decodeInt64_def decodeUint64_def decodeBool_def decodeBigInt_def returns_def
      rbind_Panic_iff split: list.splits if_splits)

lemma returns_decodeU32 [simp]: "returns (decodeU32 fld mk c)"
  using returns_ints(2) [of c] by (auto simp: decodeU32_def returns_def split: result.splits)

lemma short_readTLV_bind [returns_intro]:
  assumes "length d < 10"
    and "\<And>t r. length (tlv_content t) < length d \<Longrightarrow> length r < length d \<Longrightarrow> returns (f (t, r))"
  shows "returns (rbind (readTLV d) f)"
    and "returns (rbind (wrap_err w (readTLV d)) f)"
proof -
  have "returns (readTLV d)"
    using short_data_no_panic [OF assms(1)] by (simp add: returns_def)
  moreover have "returns (f x)" if "readTLV d = Ok x" for x
    using that readTLV_shrinks [of d] readTLV_content_shrinks [of d] assms(2) by (cases x) auto
  ultimately show "returns (rbind (readTLV d) f)" "returns (rbind (wrap_err w (readTLV d)) f)"
    by (auto intro: returns_bind)
qed

lemma short_NodePointer: "length d < 10 \<Longrightarrow> returns (decodeNodePointer d)"
  unfolding decodeNodePointer_def by (auto intro!: returns_intro)

lemma short_NodeValue: "length d < 10 \<Longrightarrow> returns (decodeNodeValue d)"
  unfolding decodeNodeValue_def by (auto intro!: returns_intro)

lemma returns_case_result [returns_intro]:
  "returns r \<Longrightarrow> returns (case r of Ok v \<Rightarrow> if P v then Err e else Ok (g v) | Err _ \<Rightarrow> Err e' | Panic \<Rightarrow> Panic)"
  by (cases r) auto

lemma short_AggregationMethod: "length d < 10 \<Longrightarrow> returns (decodeAggregationMethod d)"
  unfolding decodeAggregationMethod_def
  by (auto intro!: returns_intro)

lemma short_CollectionMode: "length d < 10 \<Longrightarrow> returns (decodeCollectionMode d)"
  unfolding decodeCollectionMode_def by (auto intro!: returns_intro)

lemma short_NodeFields: "length d < 10 \<Longrightarrow> returns (decodeNodeFields d)"
  unfolding decodeNodeFields_def
  by (auto simp: Let_def intro!: returns_intro short_NodeValue short_NodePointer)

lemma short_SequenceRange: "length d < 10 \<Longrightarrow> returns (decodeSequenceRangeFields d)"
  unfolding decodeSequenceRangeFields_def by (auto intro!: returns_intro)

lemma short_readSeq:
  assumes "\<And>d. length d < 10 \<Longrightarrow> returns (dec d)"
  shows "length d < 10 \<Longrightarrow> returns (readSeq fld check dec d)"
proof (induction "length d" arbitrary: d rule: less_induct)
  case less
  then show ?case
    by (subst readSeq.simps) (auto intro!: returns_intro assms split: option.splits)
qed

lemma short_SetEditRest: "length d < 10 \<Longrightarrow> returns (decodeSetEditRest e d)"
proof (induction "length d" arbitrary: d e rule: less_induct)
  case less
  then show ?case
    by (subst decodeSetEditRest.simps)
       (auto intro!: returns_intro short_NodeValue short_NodePointer)
qed

lemma short_CreateRest: "length d < 10 \<Longrightarrow> returns (decodeCreateRest c d)"
proof (induction "length d" arbitrary: d c rule: less_induct)
  case less
  then show ?case
    by (subst decodeCreateRest.simps) (auto intro!: returns_intro short_NodeValue)
qed

lemma short_QueryRest: "length d < 10 \<Longrightarrow> returns (decodeQueryRest q d)"
proof (induction "length d" arbitrary: d q rule: less_induct)
  case less
  then show ?case
    by (subst decodeQueryRest.simps) (auto intro!: returns_intro short_AggregationMethod)
qed

lemma short_SetEditFields: "length d < 10 \<Longrightarrow> returns (decodeSetEditFields d)"
  unfolding decodeSetEditFields_def by (auto intro!: returns_intro short_SetEditRest)

lemma short_ResponseNodes: "length (tlv_content t) < 10 \<Longrightarrow> returns (decodeResponseNodes t d)"
  unfolding decodeResponseNodes_def by (auto intro!: returns_intro short_readSeq short_NodeFields)

lemmas short_parts = short_NodePointer short_CollectionMode short_readSeq short_SetEditFields
  short_SequenceRange short_CreateRest short_QueryRest short_ResponseNodes

lemma short_UnmarshalMessage: "length d < 10 \<Longrightarrow> returns (UnmarshalMessage d)"
  unfolding UnmarshalMessage_def decodeGetFields_def decodeSetFields_def decodeCreateFields_def
    decodeQueryFields_def decodeResponseFields_def decodeSummaryAckFields_def decodeDeleteFields_def
  by (auto simp: Let_def intro!: returns_intro short_parts)

section \<open>Framing\<close>

lemma length_bytes_not_Nil [simp]: "length_bytes n \<noteq> []"
  by (simp add: length_bytes_def)

lemma readTLV_truncated:
  assumes "cls < 4" "t < 31" "fits x" "n < length (tlv_bytes cls k t x)"
  shows "\<exists>e. readTLV (take n (tlv_bytes cls k t x)) = Err e"
proof -
  note ident = ident_octet_fields [of cls t k]
  let ?l = "length x"
  show ?thesis
  proof (cases "?l < 128")
    case True
    have u: "ucast (word_of_nat ?l :: byte) = (word_of_nat ?l :: i64)"
      using True by (simp add: unsigned_of_nat take_bit_nat_eq_self)
    have lt: "(word_of_nat ?l :: byte) < 0x80"
      using True by (simp add: word_less_nat_alt unat_of_nat)
    show ?thesis
      using assms True ident u lt
      by (cases n rule: nat.exhaust; cases "n - 1")
         (auto simp: tlv_bytes_def length_bytes_def readTLV.simps readContent_def
           sint_word_of_nat_small Let_def min_def)
  next
    case False
    note l = length_bytes_octet [of ?l]
    have "readContent c k t (word_of_nat ?l) (take m x) =
        Err (TruncatedContent (int ?l) (min ?l m))" if "m < ?l" for c m
      using that assms(3) by (simp add: readContent_def sint_word_of_nat_small min_def)
    then show ?thesis
      using assms False ident l
      by (cases n rule: nat.exhaust; cases "n - 1")
         (auto simp: tlv_bytes_def length_bytes_def readTLV.simps Let_def readLengthOctets_eq
           take_append min_def not_le)
  qed
qed

end
