(* ===== verification/Wire_Properties.thy ===== *)
theory Wire_Properties
  imports Codec_Safety
begin

text \<open>
  The properties of \<open>internal/wire\<close>: round trips, refinement of the abstract BER encoding,
  framing, and where decoding can panic.
\<close>

text \<open>A datagram used by the witnesses: the \<open>Get\<close> of \<open>/a\<close> with sequence number 7.\<close>

definition sample_get :: Message where
  "sample_get = MsgGet \<lparr>get_SequenceNumber = 7, get_Target = PointerAbsolute ''/a''\<rparr>"

definition sample_get_bytes :: "byte list" where
  "sample_get_bytes =
     [0xA0, 0x09, 0x80, 0x01, 0x07, 0xA1, 0x04, 0x80, 0x02, 0x2F, 0x61]"

lemma sample_get_bytes: "message_bytes sample_get = sample_get_bytes"
  by (simp add: sample_get_def sample_get_bytes_def message_bytes_def get_bytes_def int_bytes_def
      tlv_bytes_def ident_octet_def length_bytes_def minimalTwosComplement_def be_bytes.simps
      pointer_bytes_def bytes_of_def byte_of_char_def Let_def)

lemma unwrapSequence_seq_bytes:
  "fits c \<Longrightarrow> unwrapSequence (seq_bytes c) name = Ok c"
  by (simp add: unwrapSequence_def seq_bytes_def ber_consts wire_decode)

lemma fits_seq_bytes: "length (seq_bytes c) < 2 ^ 63 \<Longrightarrow> fits c"
  by (simp add: seq_bytes_def length_tlv_bytes)

text \<open>The standalone encoding of every message type round-trips through its own decoder.\<close>

lemma standalone_roundtrips:
  assumes "length bs < 2 ^ 63"
  shows "(MarshalGet g = Ok bs \<longrightarrow> UnmarshalGet bs = Ok g) \<and>
    (MarshalSet s = Ok bs \<longrightarrow> UnmarshalSet bs = Ok s) \<and>
    (MarshalDelete d = Ok bs \<longrightarrow> UnmarshalDelete bs = Ok d) \<and>
    (MarshalCreate c = Ok bs \<longrightarrow> UnmarshalCreate bs = Ok c) \<and>
    (MarshalQuery q = Ok bs \<and> valid_query q \<longrightarrow> UnmarshalQuery bs = Ok q) \<and>
    (MarshalResponse r = Ok bs \<longrightarrow> UnmarshalResponse bs = Ok r) \<and>
    (MarshalSummaryAck a = Ok bs \<longrightarrow> UnmarshalSummaryAck bs = Ok a) \<and>
    (MarshalNode n = Ok bs \<longrightarrow> UnmarshalNode bs = Ok n)"
  using assms
  by (auto simp: MarshalGet_def UnmarshalGet_def MarshalSet_def UnmarshalSet_def MarshalDelete_def
      UnmarshalDelete_def MarshalCreate_def UnmarshalCreate_def MarshalQuery_def UnmarshalQuery_def
      MarshalResponse_def UnmarshalResponse_def MarshalSummaryAck_def UnmarshalSummaryAck_def
      MarshalNode_def UnmarshalNode_def wire_bytes wire_decode unwrapSequence_seq_bytes
      dest!: fits_seq_bytes [simplified])

text \<open>Datagrams are self-delimiting: of an encoded message, every proper prefix is refused with an
  error (never accepted, never a panic), and so is the message followed by further octets.\<close>

lemma datagram_framing:
  assumes "length (message_bytes m) < 2 ^ 63"
  shows "(\<forall>n < length (message_bytes m). \<exists>e. UnmarshalMessage (take n (message_bytes m)) = Err e) \<and>
         (\<forall>x. x \<noteq> [] \<longrightarrow> UnmarshalMessage (message_bytes m @ x) =
           Err (Trailing (length x) ''NodeTreeMessage''))"
proof -
  obtain t c where m: "message_bytes m = tlv_bytes 2 True t c" "t < 31"
    by (cases m) (auto simp: message_bytes_def)
  then have c: "fits c" using assms by (simp add: length_tlv_bytes)
  have "\<exists>e. UnmarshalMessage (take n (message_bytes m)) = Err e"
    if "n < length (message_bytes m)" for n
  proof -
    have "\<exists>e. readTLV (take n (message_bytes m)) = Err e"
      using readTLV_truncated [of 2 t c n True] m c that by simp
    then show ?thesis by (auto simp: UnmarshalMessage_def)
  qed
  moreover have "UnmarshalMessage (message_bytes m @ x) =
      Err (Trailing (length x) ''NodeTreeMessage'')" if "x \<noteq> []" for x
    using m c that by (simp add: UnmarshalMessage_def readTLV_bytes)
  ultimately show ?thesis by blast
qed

text \<open>C1. A message survives the wire: whatever \<open>MarshalMessage\<close> produces for a message whose
  percentile (if any) is in range, \<open>UnmarshalMessage\<close> decodes back to exactly that message, while every
  proper prefix of it and everything longer is refused with an error; and the
  standalone encoding of every message type round-trips through its own decoder. The length
  bound is the range of Go's \<open>int\<close>, which no byte slice exceeds.\<close>

theorem message_roundtrip:
  assumes "length bs < 2 ^ 63"
  shows "(MarshalMessage m = Ok bs \<and> valid_message m \<longrightarrow> UnmarshalMessage bs = Ok m) \<and>
    (MarshalMessage m = Ok bs \<longrightarrow> (\<forall>n < length bs. \<exists>e. UnmarshalMessage (take n bs) = Err e) \<and>
       (\<forall>x. x \<noteq> [] \<longrightarrow> UnmarshalMessage (bs @ x) = Err (Trailing (length x) ''NodeTreeMessage''))) \<and>
    (MarshalGet g = Ok bs \<longrightarrow> UnmarshalGet bs = Ok g) \<and>
    (MarshalSet s = Ok bs \<longrightarrow> UnmarshalSet bs = Ok s) \<and>
    (MarshalDelete d = Ok bs \<longrightarrow> UnmarshalDelete bs = Ok d) \<and>
    (MarshalCreate c = Ok bs \<longrightarrow> UnmarshalCreate bs = Ok c) \<and>
    (MarshalQuery q = Ok bs \<and> valid_query q \<longrightarrow> UnmarshalQuery bs = Ok q) \<and>
    (MarshalResponse r = Ok bs \<longrightarrow> UnmarshalResponse bs = Ok r) \<and>
    (MarshalSummaryAck a = Ok bs \<longrightarrow> UnmarshalSummaryAck bs = Ok a) \<and>
    (MarshalNode n = Ok bs \<longrightarrow> UnmarshalNode bs = Ok n)"
proof -
  have "(MarshalMessage m = Ok bs \<and> valid_message m \<longrightarrow> UnmarshalMessage bs = Ok m) \<and>
    (MarshalMessage m = Ok bs \<longrightarrow> (\<forall>n < length bs. \<exists>e. UnmarshalMessage (take n bs) = Err e) \<and>
       (\<forall>x. x \<noteq> [] \<longrightarrow> UnmarshalMessage (bs @ x) = Err (Trailing (length x) ''NodeTreeMessage'')))"
    using assms UnmarshalMessage_bytes [of m] datagram_framing [of m] by (auto simp: MarshalMessage_bytes)
  then show ?thesis using assms by (intro conjI impI standalone_roundtrips) simp_all
qed

theorem message_roundtrip_witness:
  "UnmarshalMessage sample_get_bytes = Ok sample_get \<and> (\<exists>e. UnmarshalMessage (take 3 sample_get_bytes) = Err e) \<and>
   UnmarshalMessage (sample_get_bytes @ [0]) = Err (Trailing 1 ''NodeTreeMessage'')"
proof -
  have m: "MarshalMessage sample_get = Ok sample_get_bytes" "valid_message sample_get"
    by (simp_all add: MarshalMessage_bytes sample_get_bytes) (simp add: sample_get_def valid_message_def)
  have len: "length sample_get_bytes < 2 ^ 63" "3 < length sample_get_bytes" by (simp_all add: sample_get_bytes_def)
  from message_roundtrip [OF len(1), of sample_get] m
  have "UnmarshalMessage sample_get_bytes = Ok sample_get"
    "\<forall>n < length sample_get_bytes. \<exists>e. UnmarshalMessage (take n sample_get_bytes) = Err e"
    "\<forall>x. x \<noteq> [] \<longrightarrow> UnmarshalMessage (sample_get_bytes @ x) = Err (Trailing (length x) ''NodeTreeMessage'')" by blast+
  then show ?thesis using len(2) by (auto dest: spec [of _ "[0]"])
qed

lemma decoded_agg: "decodeAggregationMethod data = Ok m \<Longrightarrow> valid_agg m"
  by (cases m) (auto simp: valid_agg_def decodeAggregationMethod_def rbind_Ok_iff split: if_splits result.splits)

lemma valid_query_updates:
  "valid_query (q\<lparr>q_AggregationInterval := i\<rparr>) = valid_query q"
  "valid_query (q\<lparr>q_TransferInterval := n\<rparr>) = valid_query q"
  "valid_query (q\<lparr>q_AggregationMethod := Some m\<rparr>) = valid_agg m"
  by (simp_all add: valid_query_def)

lemma decodeQueryRest_step:
  assumes "decodeQueryRest q bs = Ok q'" "valid_query q" "bs \<noteq> []"
  obtains q1 rest where "decodeQueryRest q1 rest = Ok q'" "valid_query q1" "length rest < length bs"
proof -
  obtain t rest where t: "readTLV bs = Ok (t, rest)"
    and "(\<exists>v. decodeQueryRest (q\<lparr>q_AggregationInterval := Some v\<rparr>) rest = Ok q') \<or>
      (\<exists>m. decodeAggregationMethod (tlv_content t) = Ok m \<and>
         decodeQueryRest (q\<lparr>q_AggregationMethod := Some m\<rparr>) rest = Ok q') \<or>
      (\<exists>v. decodeQueryRest (q\<lparr>q_TransferInterval := v\<rparr>) rest = Ok q')"
    using assms(1) [unfolded decodeQueryRest.simps [of q bs]] assms(3)
    by (auto simp: rbind_Ok_iff simp del: decodeQueryRest.simps split: if_splits)
  then obtain q1 where "decodeQueryRest q1 rest = Ok q'" "valid_query q1"
    using decoded_agg assms(2) valid_query_updates by metis
  with readTLV_shrinks [OF t] that show thesis by blast
qed

lemma decodeQueryRest_valid: "decodeQueryRest q bs = Ok q' \<Longrightarrow> valid_query q \<Longrightarrow> valid_query q'"
proof (induction "length bs" arbitrary: q bs rule: less_induct)
  case less
  show ?case
  proof (cases "bs = []")
    case True
    with less.prems show ?thesis by (simp add: decodeQueryRest.simps)
  next
    case False
    with less decodeQueryRest_step [OF less.prems False] show ?thesis by metis
  qed
qed

lemma decoded_valid:
  assumes "UnmarshalMessage data = Ok m"
  shows "valid_message m"
proof -
  have "valid_query q" if "decodeQueryFields c = Ok q" for c q
    using that by (auto simp: decodeQueryFields_def rbind_Ok_iff valid_query_def Let_def dest!: decodeQueryRest_valid
        split: option.splits)
  then show ?thesis
    using assms by (auto simp: UnmarshalMessage_def rbind_Ok_iff valid_message_def split: if_splits)
qed

text \<open>C17. Every message that \<open>UnmarshalMessage\<close> accepts, whatever the datagram, is well-formed: the percentile of a
  query lies between 0 and 100. So it survives being encoded and decoded again, however unusual its
  first encoding was.\<close>

theorem decoded_messages_valid:
  assumes "UnmarshalMessage data = Ok m"
  shows "valid_message m \<and> (\<forall>q p. m = MsgQuery q \<and> q_AggregationMethod q = Some (AggPercentile p) \<longrightarrow>
      0 \<le> sint p \<and> sint p \<le> 100) \<and>
    (\<forall>bs. MarshalMessage m = Ok bs \<and> length bs < 2 ^ 63 \<longrightarrow> UnmarshalMessage bs = Ok m)"
proof -
  note v = decoded_valid [OF assms]
  moreover have "UnmarshalMessage bs = Ok m" if "MarshalMessage m = Ok bs" "length bs < 2 ^ 63" for bs
    using that UnmarshalMessage_bytes [OF _ v] by (simp add: MarshalMessage_bytes)
  ultimately show ?thesis by (auto simp: valid_message_def valid_query_def valid_agg_def)
qed

text \<open>A get of \<open>/\<close> whose number is encoded in two octets instead of one.\<close>

theorem decoded_messages_valid_witness:
  "UnmarshalMessage [0xa0, 9, 0x80, 2, 0, 7, 0xa1, 3, 0x80, 1, 0x2f] =
     Ok (MsgGet \<lparr>get_SequenceNumber = 7, get_Target = PointerAbsolute ''/''\<rparr>) \<and>
   valid_message (MsgGet \<lparr>get_SequenceNumber = 7, get_Target = PointerAbsolute ''/''\<rparr>)"
proof -
  have "UnmarshalMessage [0xa0, 9, 0x80, 2, 0, 7, 0xa1, 3, 0x80, 1, 0x2f] =
      Ok (MsgGet \<lparr>get_SequenceNumber = 7, get_Target = PointerAbsolute ''/''\<rparr>)" by code_simp
  with decoded_messages_valid [OF this] show ?thesis by simp
qed

text \<open>C16. \<open>MarshalMessage\<close> always returns (the high-tag \<open>panic\<close> of \<open>writeTagLen\<close> is unreachable),
  and what it returns is the abstract BER encoding of the message.\<close>

theorem marshal_refines_ber: "MarshalMessage m = Ok (message_bytes m)"
  by (rule MarshalMessage_bytes)

text \<open>C18. A malformed datagram can crash the process that decodes it: the ten octets below (eight
  length octets whose value is negative as an \<open>int\<close>) make \<open>UnmarshalMessage\<close> panic instead of
  returning an error, and no datagram shorter than ten octets does.\<close>

theorem shortest_panicking_datagram:
  "UnmarshalMessage [0xA0, 0x88, 0xFF, 0xFF, 0xFF, 0xFF, 0xFF, 0xFF, 0xFF, 0xFF] = Panic \<and>
   (\<forall>d. UnmarshalMessage d = Panic \<longrightarrow> 10 \<le> length d)"
proof
  have "readTLV [0xA0, 0x88, 0xFF, 0xFF, 0xFF, 0xFF, 0xFF, 0xFF, 0xFF, 0xFF] = Panic"
    unfolding readTLV_Panic_iff by (simp add: be_nat_def)
  then show "UnmarshalMessage [0xA0, 0x88, 0xFF, 0xFF, 0xFF, 0xFF, 0xFF, 0xFF, 0xFF, 0xFF] = Panic"
    by (simp add: UnmarshalMessage_def)
  show "\<forall>d. UnmarshalMessage d = Panic \<longrightarrow> 10 \<le> length d"
    using short_UnmarshalMessage by (auto simp: returns_def not_le [symmetric])
qed

theorem shortest_panicking_datagram_witness:
  "10 \<le> length [0xA0, 0x88, 0xFF, 0xFF, 0xFF, 0xFF, 0xFF, 0xFF, 0xFF, 0xFF :: byte]"
  using shortest_panicking_datagram by blast

text \<open>Decoding a machine integer never wraps: \<open>decodeInt64\<close> and \<open>decodeUint64\<close> accept exactly the
  contents whose unbounded value is in range, and return that value; any other content is an error.\<close>

lemma fixed_width:
  "(decodeInt64 c = Ok w \<longleftrightarrow> decodeBigInt c = Ok (sint w)) \<and>
   (decodeUint64 c = Ok u \<longleftrightarrow> decodeBigInt c = Ok (uint u)) \<and>
   returns (decodeInt64 c) \<and> returns (decodeUint64 c)"
proof (intro conjI returns_ints)
  note s = sint_of_int_i64
  have u: "uint (word_of_int x :: u64) = x" if "0 \<le> x" "x < 2 ^ 64" for x
    using that by (simp add: unsigned_of_int take_bit_int_eq_self)
  note sw = sint_range [of w]
  have uw: "0 \<le> uint u" "uint u < 2 ^ 64"
    using unsigned_less [of u, where ?'a = int] by simp_all
  show "decodeInt64 c = Ok w \<longleftrightarrow> decodeBigInt c = Ok (sint w)"
    unfolding decodeInt64_def rbind_Ok_iff
    by (rule iffI) (use s in \<open>force split: if_splits\<close>, use sw in simp)
  show "decodeUint64 c = Ok u \<longleftrightarrow> decodeBigInt c = Ok (uint u)"
    unfolding decodeUint64_def rbind_Ok_iff
    by (rule iffI) (use u in \<open>force split: if_splits\<close>, use uw in simp)
qed

text \<open>C19. Integers are exact: the octets of \<open>minimalTwosComplement\<close> decode back to the integer, for
  every integer, and they are the shortest ones DER asks for except at \<open>- 2 ^ (8 * k + 7)\<close> (-128,
  -32768, ...), where the code spends one octet more. Decoding a machine integer never wraps:
  \<open>decodeInt64\<close> and \<open>decodeUint64\<close> accept exactly the contents whose unbounded value is in range, and
  return that value; any other content is an error.\<close>

theorem integer_octets:
  "decodeBigInt (minimalTwosComplement v) = Ok v \<and>
   (minimal_octets (minimalTwosComplement v) \<longleftrightarrow> (\<forall>k. v \<noteq> - (2 ^ (8 * k + 7)))) \<and>
   (decodeInt64 c = Ok w \<longleftrightarrow> decodeBigInt c = Ok (sint w)) \<and>
   (decodeUint64 c = Ok u \<longleftrightarrow> decodeBigInt c = Ok (uint u)) \<and>
   returns (decodeInt64 c) \<and> returns (decodeUint64 c)"
  using fixed_width [of c w u]
  by (intro conjI decodeBigInt_minimalTwosComplement minimalTwosComplement_minimal) blast+

text \<open>\<open>NodeValue.Equal\<close> is symmetric and, except on a NaN, reflexive: a value compared with an
  unchanged copy of itself reads as equal unless it is a NaN.\<close>

theorem value_equality:
  "(NodeValue_Equal v w \<longleftrightarrow> NodeValue_Equal w v) \<and> (NodeValue_Equal v v \<longleftrightarrow> \<not> value_is_nan v)"
  by (intro conjI NodeValue_Equal_sym NodeValue_Equal_refl_iff)

end
