(* ===== verification/Receiver.thy ===== *)
theory Receiver
  imports Wire_Types
begin

text \<open>
  The receiving half of \<open>internal/reliability/reliability.go\<close>: which sequence numbers have
  arrived, duplicate detection, and the summary acknowledgement. The map \<open>above\<close> (its values
  are always true) is the list of its keys in iteration order, so that every result below holds
  for any order; \<open>int64\<close> comparisons are signed (\<open>sint\<close>) and \<open>+ 1\<close> wraps.
\<close>

section \<open>State and operations\<close>

definition maxOutOfOrder :: nat where "maxOutOfOrder = 1024"
definition maxAckRanges :: nat where "maxAckRanges = 64"

record Receiver =
  contiguous :: i64
  above :: "i64 list"

definition NewReceiver :: Receiver where
  "NewReceiver = \<lparr>contiguous = 0, above = []\<rparr>"

text \<open>\<open>advance\<close>: the loop ends because each round deletes a key of \<open>above\<close>.\<close>

function advance :: "Receiver \<Rightarrow> Receiver" where
  "advance r =
     (if contiguous r + 1 \<in> set (above r)
      then advance \<lparr>contiguous = contiguous r + 1, above = removeAll (contiguous r + 1) (above r)\<rparr>
      else r)"
  by pat_completeness auto
termination
  by (relation "measure (length \<circ> above)") (auto intro: length_removeAll_less)

declare advance.simps [simp del]

fun lowestLoop :: "bool \<Rightarrow> i64 \<Rightarrow> i64 list \<Rightarrow> i64" where
  "lowestLoop first low [] = low"
| "lowestLoop first low (s # ss) =
     (if first \<or> sint s < sint low then lowestLoop False s ss else lowestLoop first low ss)"

definition lowestAbove :: "Receiver \<Rightarrow> i64" where
  "lowestAbove r = lowestLoop True 0 (above r)"

text \<open>The loop of \<open>MarkReceived\<close> that gives up on the oldest gap.\<close>

lemma lowestLoop_cases:
  "lowestLoop first low ss \<in> insert low (set ss) \<and>
   (\<forall>s \<in> set ss. sint (lowestLoop first low ss) \<le> sint s) \<and>
   (\<not> first \<longrightarrow> sint (lowestLoop first low ss) \<le> sint low) \<and>
   (first \<longrightarrow> ss \<noteq> [] \<longrightarrow> lowestLoop first low ss \<in> set ss)"
  by (induction first low ss rule: lowestLoop.induct) force+

lemma lowestAbove_in: "above r \<noteq> [] \<Longrightarrow> lowestAbove r \<in> set (above r)"
  using lowestLoop_cases [of True 0 "above r"] by (simp add: lowestAbove_def)

lemma lowestAbove_le: "s \<in> set (above r) \<Longrightarrow> sint (lowestAbove r) \<le> sint s"
  using lowestLoop_cases [of True 0 "above r"] by (simp add: lowestAbove_def)

lemma length_advance_le: "length (above (advance r)) \<le> length (above r)"
proof (induction r rule: advance.induct)
  case (1 r)
  then show ?case
    by (subst advance.simps) (auto intro: le_trans [OF _ length_removeAll_less_eq])
qed

lemma length_advance_less:
  assumes "contiguous r + 1 \<in> set (above r)"
  shows "length (above (advance r)) < length (above r)"
proof -
  let ?r = "\<lparr>contiguous = contiguous r + 1, above = removeAll (contiguous r + 1) (above r)\<rparr>"
  have "length (above (advance r)) \<le> length (above ?r)"
    using assms length_advance_le [of ?r] by (subst advance.simps) simp
  also have "\<dots> < length (above r)"
    using assms by (simp add: length_removeAll_less)
  finally show ?thesis .
qed

function giveUp :: "Receiver \<Rightarrow> Receiver" where
  "giveUp r =
     (if length (above r) > maxOutOfOrder
      then giveUp (advance (r\<lparr>contiguous := lowestAbove r - 1\<rparr>)) else r)"
  by pat_completeness auto
termination
proof (relation "measure (length \<circ> above)", simp)
  fix r :: Receiver
  assume "length (above r) > maxOutOfOrder"
  then have "lowestAbove r \<in> set (above r)" by (intro lowestAbove_in) auto
  then show "(advance (r\<lparr>contiguous := lowestAbove r - 1\<rparr>), r) \<in> measure (length \<circ> above)"
    using length_advance_less [of "r\<lparr>contiguous := lowestAbove r - 1\<rparr>"] by simp
qed

declare giveUp.simps [simp del]

definition MarkReceived :: "Receiver \<Rightarrow> i64 \<Rightarrow> Receiver \<times> bool" where
  "MarkReceived r s =
     (if sint s \<le> sint (contiguous r) \<or> s \<in> set (above r) then (r, False)
      else (giveUp (advance (r\<lparr>above := above r @ [s]\<rparr>)), True))"

text \<open>The loop of \<open>BuildAck\<close> that joins consecutive numbers into ranges.\<close>

fun joinRanges :: "i64 \<Rightarrow> i64 \<Rightarrow> i64 list \<Rightarrow> SequenceRange list" where
  "joinRanges start stop [] = [\<lparr>sr_First = start, sr_Last = stop\<rparr>]"
| "joinRanges start stop (s # ss) =
     (if s = stop + 1 then joinRanges start s ss
      else \<lparr>sr_First = start, sr_Last = stop\<rparr> # joinRanges s s ss)"

definition ackRanges :: "Receiver \<Rightarrow> SequenceRange list" where
  "ackRanges r =
     (if 0 < sint (contiguous r) then [\<lparr>sr_First = 1, sr_Last = contiguous r\<rparr>] else []) @
     (case sort_key sint (above r) of [] \<Rightarrow> [] | s # ss \<Rightarrow> joinRanges s s ss)"

definition BuildAck :: "Receiver \<Rightarrow> SummaryAck" where
  "BuildAck r = \<lparr>sa_Received = take maxAckRanges (ackRanges r)\<rparr>"

section \<open>Invariant\<close>

definition receiver_ok :: "Receiver \<Rightarrow> bool" where
  "receiver_ok r \<longleftrightarrow> 0 \<le> sint (contiguous r) \<and> distinct (above r) \<and>
     (\<forall>s \<in> set (above r). sint (contiguous r) + 1 < sint s)"

definition bounded :: "Receiver \<Rightarrow> bool" where
  "bounded r \<longleftrightarrow> length (above r) \<le> maxOutOfOrder"

text \<open>What the receiver treats as received.\<close>

definition seen :: "Receiver \<Rightarrow> i64 \<Rightarrow> bool" where
  "seen r s \<longleftrightarrow> sint s \<le> sint (contiguous r) \<or> s \<in> set (above r)"

text \<open>The state in the middle of \<open>MarkReceived\<close>: the next number may be among those held.\<close>

definition almost_ok :: "Receiver \<Rightarrow> bool" where
  "almost_ok r \<longleftrightarrow> 0 \<le> sint (contiguous r) \<and> distinct (above r) \<and>
     (\<forall>s \<in> set (above r). sint (contiguous r) < sint s)"

lemma ok_almost: "receiver_ok r \<Longrightarrow> almost_ok r"
  by (auto simp: receiver_ok_def almost_ok_def)

lemma NewReceiver_ok: "receiver_ok NewReceiver" "bounded NewReceiver"
  by (simp_all add: receiver_ok_def bounded_def NewReceiver_def)

lemma advance_step:
  assumes "almost_ok r" "contiguous r + 1 \<in> set (above r)"
  shows "almost_ok \<lparr>contiguous = contiguous r + 1, above = removeAll (contiguous r + 1) (above r)\<rparr>"
    and "seen \<lparr>contiguous = contiguous r + 1, above = removeAll (contiguous r + 1) (above r)\<rparr> s = seen r s"
proof -
  have "sint (contiguous r) < sint (contiguous r + 1)"
    using assms by (auto simp: almost_ok_def)
  then have c: "sint (contiguous r + 1) = sint (contiguous r) + 1" by (rule sint_plus_1)
  have ne: "sint x \<noteq> sint (contiguous r) + 1" if "x \<noteq> contiguous r + 1" for x
    using that c sint_eq_iff by metis
  show "almost_ok \<lparr>contiguous = contiguous r + 1, above = removeAll (contiguous r + 1) (above r)\<rparr>"
    using assms c ne by (fastforce simp: almost_ok_def distinct_removeAll)
  show "seen \<lparr>contiguous = contiguous r + 1, above = removeAll (contiguous r + 1) (above r)\<rparr> s = seen r s"
  proof -
    have "sint s \<le> sint (contiguous r) + 1 \<longleftrightarrow> sint s \<le> sint (contiguous r) \<or> s = contiguous r + 1"
      unfolding sint_eq_iff [symmetric] c by linarith
    then show ?thesis using assms(2) c by (auto simp: seen_def)
  qed
qed

lemma advance_facts:
  "almost_ok r \<Longrightarrow> receiver_ok (advance r) \<and> seen (advance r) = seen r"
proof (induction r rule: advance.induct)
  case (1 r)
  show ?case
  proof (cases "contiguous r + 1 \<in> set (above r)")
    case True
    have "seen \<lparr>contiguous = contiguous r + 1, above = removeAll (contiguous r + 1) (above r)\<rparr> = seen r"
      using advance_step(2) [OF "1.prems" True] by blast
    with "1.IH" [OF True advance_step(1) [OF "1.prems" True]] True show ?thesis
      by (simp add: advance.simps [of r])
  next
    case False
    have "sint (contiguous r) + 1 < sint s" if "s \<in> set (above r)" for s
    proof -
      have l: "sint (contiguous r) < sint s" using that "1.prems" by (auto simp: almost_ok_def)
      then have "sint (contiguous r + 1) = sint (contiguous r) + 1" by (rule sint_plus_1)
      with l that False show ?thesis by (metis sint_eq_iff zless_imp_add1_zle order_le_less)
    qed
    with False "1.prems" show ?thesis
      by (auto simp: advance.simps [of r] almost_ok_def receiver_ok_def)
  qed
qed

lemma giveUp_step:
  assumes "receiver_ok r" "above r \<noteq> []"
  shows "almost_ok (r\<lparr>contiguous := lowestAbove r - 1\<rparr>)"
    and "seen r s \<Longrightarrow> seen (r\<lparr>contiguous := lowestAbove r - 1\<rparr>) s"
proof -
  have low: "sint (contiguous r) + 1 < sint (lowestAbove r)"
    using lowestAbove_in [OF assms(2)] assms(1) by (auto simp: receiver_ok_def)
  then have m: "sint (lowestAbove r - 1) = sint (lowestAbove r) - 1"
    by (intro sint_minus_1 [of "contiguous r"]) simp
  show "almost_ok (r\<lparr>contiguous := lowestAbove r - 1\<rparr>)"
    using assms low m lowestAbove_le [of _ r] by (fastforce simp: receiver_ok_def almost_ok_def)
  show "seen r s \<Longrightarrow> seen (r\<lparr>contiguous := lowestAbove r - 1\<rparr>) s"
    using low m by (auto simp: seen_def)
qed

lemma giveUp_facts:
  "receiver_ok r \<Longrightarrow> receiver_ok (giveUp r) \<and> bounded (giveUp r) \<and> (\<forall>s. seen r s \<longrightarrow> seen (giveUp r) s)"
proof (induction r rule: giveUp.induct)
  case (1 r)
  show ?case
  proof (cases "length (above r) > maxOutOfOrder")
    case True
    then have ne: "above r \<noteq> []" by auto
    note step = giveUp_step [OF "1.prems" ne]
    from "1.IH" [OF True] advance_facts [OF step(1)] step(2) True show ?thesis
      by (simp add: giveUp.simps [of r])
  next
    case False
    with "1.prems" show ?thesis by (simp add: giveUp.simps [of r] bounded_def)
  qed
qed

lemma giveUp_idle: "bounded r \<Longrightarrow> giveUp r = r"
  by (simp add: giveUp.simps bounded_def)

lemma insert_almost:
  assumes "receiver_ok r" "\<not> seen r s"
  shows "almost_ok (r\<lparr>above := above r @ [s]\<rparr>)"
    and "seen (r\<lparr>above := above r @ [s]\<rparr>) t \<longleftrightarrow> t = s \<or> seen r t"
  using assms by (auto simp: receiver_ok_def almost_ok_def seen_def)

lemma MarkReceived_new: "snd (MarkReceived r s) \<longleftrightarrow> \<not> seen r s"
  by (simp add: MarkReceived_def seen_def)

lemma MarkReceived_facts:
  assumes "receiver_ok r" "bounded r"
  shows "receiver_ok (fst (MarkReceived r s))" "bounded (fst (MarkReceived r s))"
    and "seen r t \<or> t = s \<Longrightarrow> seen (fst (MarkReceived r s)) t"
proof -
  have "receiver_ok (fst (MarkReceived r s)) \<and> bounded (fst (MarkReceived r s)) \<and>
    (\<forall>t. seen r t \<or> t = s \<longrightarrow> seen (fst (MarkReceived r s)) t)"
  proof (cases "seen r s")
    case True
    with assms show ?thesis by (auto simp: MarkReceived_def seen_def)
  next
    case False
    note ins = insert_almost [OF assms(1) False]
    from False giveUp_facts [of "advance (r\<lparr>above := above r @ [s]\<rparr>)"] advance_facts [OF ins(1)] ins(2)
    show ?thesis by (auto simp: MarkReceived_def seen_def)
  qed
  then show "receiver_ok (fst (MarkReceived r s))" "bounded (fst (MarkReceived r s))"
    "seen r t \<or> t = s \<Longrightarrow> seen (fst (MarkReceived r s)) t" by blast+
qed

text \<open>Below the bound nothing is given up: exactly the new number is added.\<close>

lemma MarkReceived_exact:
  assumes "receiver_ok r" "length (above r) < maxOutOfOrder"
  shows "seen (fst (MarkReceived r s)) t \<longleftrightarrow> t = s \<or> seen r t"
    and "length (above (fst (MarkReceived r s))) \<le> Suc (length (above r))"
proof -
  have "(seen (fst (MarkReceived r s)) t \<longleftrightarrow> t = s \<or> seen r t) \<and>
    length (above (fst (MarkReceived r s))) \<le> Suc (length (above r))"
  proof (cases "seen r s")
    case True
    then show ?thesis by (auto simp: MarkReceived_def seen_def)
  next
    case False
    let ?r = "advance (r\<lparr>above := above r @ [s]\<rparr>)"
    note ins = insert_almost [OF assms(1) False]
    have l: "length (above ?r) \<le> Suc (length (above r))"
      using length_advance_le [of "r\<lparr>above := above r @ [s]\<rparr>"] by simp
    then have "giveUp ?r = ?r" using assms(2) by (intro giveUp_idle) (simp add: bounded_def)
    with False advance_facts [OF ins(1)] ins(2) l show ?thesis
      by (auto simp: MarkReceived_def seen_def)
  qed
  then show "seen (fst (MarkReceived r s)) t \<longleftrightarrow> t = s \<or> seen r t"
    "length (above (fst (MarkReceived r s))) \<le> Suc (length (above r))" by blast+
qed

section \<open>Acknowledgements\<close>

definition in_range :: "i64 \<Rightarrow> SequenceRange \<Rightarrow> bool" where
  "in_range s g \<longleftrightarrow> sint (sr_First g) \<le> sint s \<and> sint s \<le> sint (sr_Last g)"

definition covers :: "SequenceRange list \<Rightarrow> i64 \<Rightarrow> bool" where
  "covers gs s \<longleftrightarrow> (\<exists>g \<in> set gs. in_range s g)"

lemma covers_simps [simp]: "covers [] s = False" "covers (g # gs) s = (in_range s g \<or> covers gs s)"
  "covers (gs @ hs) s = (covers gs s \<or> covers hs s)"
  by (auto simp: covers_def)

text \<open>Lowest first, each range non-empty, and a gap between one range and the next.\<close>

fun separated :: "int \<Rightarrow> SequenceRange list \<Rightarrow> bool" where
  "separated b [] = True"
| "separated b (g # gs) = (b + 1 < sint (sr_First g) \<and> sint (sr_First g) \<le> sint (sr_Last g) \<and>
     separated (sint (sr_Last g)) gs)"

lemma separated_mono: "separated b gs \<Longrightarrow> a \<le> b \<Longrightarrow> separated a gs"
  by (cases gs) auto

lemma separated_above: "separated b gs \<Longrightarrow> covers gs s \<Longrightarrow> b + 1 < sint s"
  by (induction b gs rule: separated.induct) (auto simp: in_range_def)

lemma separated_take: "separated b gs \<Longrightarrow> separated b (take n gs)"
  by (induction b gs arbitrary: n rule: separated.induct) (auto simp: take_Cons')

lemma covers_take:
  assumes "separated b gs"
  shows "covers (take (Suc n) gs) s \<longleftrightarrow>
    covers gs s \<and> (length gs \<le> Suc n \<or> sint s \<le> sint (sr_Last (gs ! n)))"
  using assms
proof (induction n arbitrary: b gs)
  case 0
  then show ?case
    by (cases gs) (auto simp: in_range_def dest: separated_above)
next
  case (Suc n)
  show ?case
  proof (cases gs)
    case Nil
    then show ?thesis by simp
  next
    case (Cons g hs)
    have up: "sint (sr_Last g) \<le> sint (sr_Last (hs ! n))" if "n < length hs"
    proof -
      have "separated (sint (sr_Last g)) hs" using Suc.prems Cons by simp
      moreover have "covers hs (sr_Last (hs ! n))"
        using that calculation
      proof (induction n arbitrary: hs g)
        case 0
        then show ?case by (cases hs) (auto simp: in_range_def)
      next
        case (Suc n)
        from Suc.prems show ?case
          by (cases hs) (auto intro: Suc.IH)
      qed
      ultimately show ?thesis using separated_above by fastforce
    qed
    show ?thesis
      using Suc.IH [of "sint (sr_Last g)" hs] Suc.prems Cons up by (force simp: in_range_def)
  qed
qed

lemma joinRanges_facts:
  assumes "sint start \<le> sint stop" "sorted_wrt (\<lambda>a b. sint a < sint b) (stop # ss)" "b + 1 < sint start"
  shows "separated b (joinRanges start stop ss)"
    and "covers (joinRanges start stop ss) t \<longleftrightarrow>
           sint start \<le> sint t \<and> sint t \<le> sint stop \<or> t \<in> set ss"
proof -
  have "separated b (joinRanges start stop ss) \<and> (covers (joinRanges start stop ss) t \<longleftrightarrow>
           sint start \<le> sint t \<and> sint t \<le> sint stop \<or> t \<in> set ss)"
    using assms
  proof (induction ss arbitrary: start stop b)
    case Nil
    then show ?case by (simp add: in_range_def)
  next
    case (Cons s ss)
    have lt: "sint stop < sint s" using Cons.prems by simp
    note plus = sint_plus_1 [OF lt]
    show ?case
    proof (cases "s = stop + 1")
      case True
      have eq: "sint t \<le> sint s \<longleftrightarrow> sint t \<le> sint stop \<or> t = s"
        unfolding sint_eq_iff [symmetric] True plus by linarith
      have "sint start \<le> sint s" using Cons.prems(1) lt by simp
      note IH = Cons.IH [of start s b, OF this _ Cons.prems(3)]
      have "sorted_wrt (\<lambda>a b. sint a < sint b) (s # ss)" using Cons.prems(2) by simp
      note IH = IH [OF this]
      show ?thesis
      proof (intro conjI)
        show "separated b (joinRanges start stop (s # ss))" using IH True by simp
        have "sint start \<le> sint t" if "t = s" using that \<open>sint start \<le> sint s\<close> by simp
        then show "covers (joinRanges start stop (s # ss)) t \<longleftrightarrow>
            sint start \<le> sint t \<and> sint t \<le> sint stop \<or> t \<in> set (s # ss)"
          using IH True eq by auto
      qed
    next
      case False
      then have gap: "sint stop + 1 < sint s"
        using lt unfolding sint_eq_iff [symmetric] plus by linarith
      have "sint s \<le> sint t \<and> sint t \<le> sint s \<longleftrightarrow> t = s"
        unfolding sint_eq_iff [symmetric] by linarith
      moreover have "sorted_wrt (\<lambda>a b. sint a < sint b) (s # ss)" using Cons.prems(2) by simp
      ultimately show ?thesis
        using Cons.IH [of s s "sint stop"] gap Cons.prems(1,3) False by (simp add: in_range_def)
    qed
  qed
  then show "separated b (joinRanges start stop ss)"
    "covers (joinRanges start stop ss) t \<longleftrightarrow>
           sint start \<le> sint t \<and> sint t \<le> sint stop \<or> t \<in> set ss" by blast+
qed

lemma sort_key_strict:
  assumes "distinct xs"
  shows "sorted_wrt (\<lambda>a b. sint (a :: i64) < sint b) (sort_key sint xs)"
proof -
  have "sorted (map sint (sort_key sint xs))" "distinct (map sint (sort_key sint xs))"
    using assms by (simp_all add: distinct_map inj_on_def)
  then have "sorted_wrt (<) (map sint (sort_key sint xs))"
    by (simp only: strict_sorted_iff simp_thms)
  then show ?thesis by (simp only: sorted_wrt_map)
qed

lemma ackRanges_facts:
  assumes "receiver_ok r"
  shows "separated (-1) (ackRanges r)" and "covers (ackRanges r) t \<longleftrightarrow> 0 < sint t \<and> seen r t"
proof -
  let ?c = "sint (contiguous r)" and ?xs = "sort_key sint (above r)"
  have c: "0 \<le> ?c" and gt: "?c + 1 < sint s" if "s \<in> set (above r)" for s
    using assms that by (auto simp: receiver_ok_def)
  have pos: "0 \<le> ?c" using assms by (simp add: receiver_ok_def)
  have set: "set ?xs = set (above r)" by simp
  have strict: "sorted_wrt (\<lambda>a b. sint a < sint b) ?xs"
    using assms by (intro sort_key_strict) (simp add: receiver_ok_def)
  let ?tail = "case ?xs of [] \<Rightarrow> [] | s # ss \<Rightarrow> joinRanges s s ss"
  have tail: "separated ?c ?tail \<and> (covers ?tail t \<longleftrightarrow> t \<in> set (above r))"
  proof (cases ?xs)
    case Nil
    then have "set (above r) = {}" using set by simp
    then show ?thesis by (simp add: Nil)
  next
    case (Cons s ss)
    then have "s \<in> set (above r)" using set by auto
    note gt [OF this]
    with strict have "separated ?c (joinRanges s s ss) \<and>
        (covers (joinRanges s s ss) t \<longleftrightarrow> sint s \<le> sint t \<and> sint t \<le> sint s \<or> t \<in> set ss)"
      using joinRanges_facts [of s s ss ?c] by (simp add: Cons)
    moreover have "sint s \<le> sint t \<and> sint t \<le> sint s \<longleftrightarrow> t = s"
      unfolding sint_eq_iff [symmetric] by linarith
    moreover have "t \<in> set (above r) \<longleftrightarrow> t = s \<or> t \<in> set ss" using set Cons by auto
    ultimately show ?thesis by (simp add: Cons)
  qed
  have one: "sint (1 :: i64) = 1" by simp
  show "separated (-1) (ackRanges r)"
    using tail pos separated_mono [of ?c _ "-1"] by (auto simp: ackRanges_def Let_def)
  have "covers (if 0 < ?c then [\<lparr>sr_First = 1, sr_Last = contiguous r\<rparr>] else []) t \<longleftrightarrow>
      0 < sint t \<and> sint t \<le> ?c"
    by (auto simp: in_range_def)
  moreover have "0 < sint t" if "t \<in> set (above r)" using gt [OF that] pos by simp
  ultimately show "covers (ackRanges r) t \<longleftrightarrow> 0 < sint t \<and> seen r t"
    using tail by (auto simp: ackRanges_def seen_def)
qed

lemma BuildAck_covers:
  assumes "receiver_ok r"
  shows "covers (sa_Received (BuildAck r)) t \<longleftrightarrow> 0 < sint t \<and> seen r t \<and>
    (length (ackRanges r) \<le> maxAckRanges \<or> sint t \<le> sint (sr_Last (ackRanges r ! 63)))"
  using covers_take [OF ackRanges_facts(1) [OF assms], of 63 t] ackRanges_facts(2) [OF assms]
  by (simp add: BuildAck_def maxAckRanges_def)

lemma BuildAck_sound:
  "receiver_ok r \<Longrightarrow> covers (sa_Received (BuildAck r)) t \<Longrightarrow> 0 < sint t \<and> seen r t"
  by (simp add: BuildAck_covers)

lemma BuildAck_first:
  assumes "receiver_ok r" "seen r 1"
  shows "covers (sa_Received (BuildAck r)) 1"
proof -
  have "0 < sint (contiguous r)" using assms by (auto simp: receiver_ok_def seen_def)
  then show ?thesis
    by (simp add: BuildAck_def ackRanges_def maxAckRanges_def in_range_def)
qed

section \<open>Duplicate detection as an interface\<close>

text \<open>
  What a session needs of a receiver (\<open>internal/server\<close> and the client process a message only
  when it is new): an operation that reports whether a number is new, where \<open>known\<close> is what the
  receiver holds as received. \<open>marks\<close> is the state after a sequence of arrivals, \<open>news\<close> the
  arrivals it reported as new.
\<close>

primrec marks :: "('s \<Rightarrow> i64 \<Rightarrow> 's \<times> bool) \<Rightarrow> 's \<Rightarrow> i64 list \<Rightarrow> 's" where
  "marks mark r [] = r"
| "marks mark r (s # ss) = marks mark (fst (mark r s)) ss"

primrec news :: "('s \<Rightarrow> i64 \<Rightarrow> 's \<times> bool) \<Rightarrow> 's \<Rightarrow> i64 list \<Rightarrow> i64 list" where
  "news mark r [] = []"
| "news mark r (s # ss) = (if snd (mark r s) then [s] else []) @ news mark (fst (mark r s)) ss"

lemma marks_snoc [simp]: "marks mark r (ss @ [s]) = fst (mark (marks mark r ss) s)"
  by (induction ss arbitrary: r) auto

lemma news_snoc [simp]:
  "news mark r (ss @ [s]) = news mark r ss @ (if snd (mark (marks mark r ss) s) then [s] else [])"
  by (induction ss arbitrary: r) auto

locale dedup =
  fixes mark :: "'s \<Rightarrow> i64 \<Rightarrow> 's \<times> bool" and known :: "'s \<Rightarrow> i64 \<Rightarrow> bool" and inv :: "'s \<Rightarrow> bool"
  assumes new_iff: "snd (mark r s) \<longleftrightarrow> \<not> known r s"
    and mark_inv: "inv r \<Longrightarrow> inv (fst (mark r s))"
    and mark_known: "inv r \<Longrightarrow> known r t \<or> t = s \<Longrightarrow> known (fst (mark r s)) t"
begin

lemma after_inv: "inv r \<Longrightarrow> inv (marks mark r ss)"
  by (induction ss arbitrary: r) (auto intro: mark_inv)

lemma after_known: "inv r \<Longrightarrow> known r t \<or> t \<in> set ss \<Longrightarrow> known (marks mark r ss) t"
  by (induction ss arbitrary: r) (auto intro: mark_inv mark_known)

lemma fresh_unknown: "inv r \<Longrightarrow> t \<in> set (news mark r ss) \<Longrightarrow> \<not> known r t \<and> t \<in> set ss"
proof (induction ss arbitrary: r)
  case (Cons s ss)
  then show ?case
    using mark_inv [of r s] mark_known [of r t s] new_iff [of r s] by (force split: if_splits)
qed simp

lemma fresh_distinct: "inv r \<Longrightarrow> distinct (news mark r ss)"
proof (induction ss arbitrary: r)
  case (Cons s ss)
  then show ?case
    using mark_inv [of r s] mark_known [of r s s] fresh_unknown [of "fst (mark r s)" s ss] by auto
qed simp

end

interpretation rcv: dedup MarkReceived seen "\<lambda>r. receiver_ok r \<and> bounded r"
  by unfold_locales (auto simp: MarkReceived_new intro: MarkReceived_facts)

text \<open>Few enough distinct arrivals are recorded exactly.\<close>

lemma after_exact:
  assumes "card (set ss) \<le> maxOutOfOrder"
  shows "seen (marks MarkReceived NewReceiver ss) t \<longleftrightarrow> sint t \<le> 0 \<or> t \<in> set ss"
    and "length (above (marks MarkReceived NewReceiver ss)) \<le> card (set ss)"
proof -
  have "(\<forall>t. seen (marks MarkReceived NewReceiver ss) t \<longleftrightarrow> sint t \<le> 0 \<or> t \<in> set ss) \<and>
    length (above (marks MarkReceived NewReceiver ss)) \<le> card (set ss)"
    using assms
  proof (induction ss rule: rev_induct)
    case Nil
    then show ?case by (simp add: seen_def NewReceiver_def)
  next
    case (snoc s ss)
    let ?r = "marks MarkReceived NewReceiver ss"
    have ok: "receiver_ok ?r \<and> bounded ?r" by (intro rcv.after_inv conjI NewReceiver_ok)
    have le: "card (set ss) \<le> card (set (ss @ [s]))" by (intro card_mono) auto
    with snoc have IH: "\<forall>t. seen ?r t \<longleftrightarrow> sint t \<le> 0 \<or> t \<in> set ss" "length (above ?r) \<le> card (set ss)"
      by auto
    show ?case
    proof (cases "seen ?r s")
      case True
      then have "fst (MarkReceived ?r s) = ?r" by (simp add: MarkReceived_def seen_def)
      with True IH le show ?thesis by auto
    next
      case False
      then have "s \<notin> set ss" using IH by auto
      then have "card (set (ss @ [s])) = Suc (card (set ss))" by simp
      with snoc.prems IH have "length (above ?r) < maxOutOfOrder" by simp
      from MarkReceived_exact [OF conjunct1 [OF ok] this] IH \<open>card (set (ss @ [s])) = _\<close>
      show ?thesis by (auto intro: order_trans)
    qed
  qed
  then show "seen (marks MarkReceived NewReceiver ss) t \<longleftrightarrow> sint t \<le> 0 \<or> t \<in> set ss"
    "length (above (marks MarkReceived NewReceiver ss)) \<le> card (set ss)" by blast+
qed

end
