(* ===== verification/Sender.thy ===== *)
theory Sender
  imports Receiver
begin

text \<open>
  The sending half of \<open>internal/reliability/reliability.go\<close>: messages not yet acknowledged, their
  retransmission, and giving up. The \<open>pending\<close> map is an association list in iteration order;
  times are nanoseconds on one clock (\<open>time.Now\<close> is an argument); what \<open>sendFunc\<close> and
  \<open>onGiveUp\<close> are called with is returned.
\<close>

section \<open>State and operations\<close>

record pending =
  payload :: "byte list"
  lastSent :: int
  attempts :: int

record Sender =
  pending_map :: "(i64 \<times> pending) list"
  retransmitInterval :: int
  maxAttempts :: int

definition NewSender :: "int \<Rightarrow> int \<Rightarrow> Sender" where
  "NewSender interval maxA =
     \<lparr>pending_map = [], retransmitInterval = interval, maxAttempts = maxA\<rparr>"

text \<open>\<open>m[k] = v\<close> and \<open>delete(m, k)\<close> on the association list.\<close>

definition al_delete :: "'k \<Rightarrow> ('k \<times> 'v) list \<Rightarrow> ('k \<times> 'v) list" where
  "al_delete k m = filter (\<lambda>(k', _). k' \<noteq> k) m"

definition al_put :: "'k \<Rightarrow> 'v \<Rightarrow> ('k \<times> 'v) list \<Rightarrow> ('k \<times> 'v) list" where
  "al_put k v m =
     (if k \<in> fst ` set m then map (\<lambda>(k', v'). (k', if k' = k then v else v')) m else m @ [(k, v)])"

text \<open>\<open>Send\<close> also hands \<open>payload\<close> to \<open>sendFunc\<close>, whose error it returns.\<close>

definition Send :: "int \<Rightarrow> i64 \<Rightarrow> byte list \<Rightarrow> Sender \<Rightarrow> Sender \<times> byte list" where
  "Send now seq p s =
     (s\<lparr>pending_map := al_put seq \<lparr>payload = p, lastSent = now, attempts = 1\<rparr> (pending_map s)\<rparr>, p)"

definition Cancel :: "i64 \<Rightarrow> Sender \<Rightarrow> Sender" where
  "Cancel seq s = s\<lparr>pending_map := al_delete seq (pending_map s)\<rparr>"

text \<open>The inner loop of \<open>HandleAck\<close>.\<close>

fun acked :: "i64 \<Rightarrow> SequenceRange list \<Rightarrow> bool" where
  "acked seq [] = False"
| "acked seq (r # rs) = (if sint (sr_First r) \<le> sint seq \<and> sint seq \<le> sint (sr_Last r) then True
                         else acked seq rs)"

definition HandleAck :: "SummaryAck \<Rightarrow> Sender \<Rightarrow> Sender" where
  "HandleAck ack s =
     s\<lparr>pending_map := filter (\<lambda>(seq, _). \<not> acked seq (sa_Received ack)) (pending_map s)\<rparr>"

definition Pending :: "Sender \<Rightarrow> nat" where
  "Pending s = length (pending_map s)"

text \<open>The loop of \<open>retransmitDue\<close> under the lock: the new map, the payloads to resend and the
  numbers given up.\<close>

fun dueLoop :: "int \<Rightarrow> int \<Rightarrow> int \<Rightarrow> (i64 \<times> pending) list \<Rightarrow>
    (i64 \<times> pending) list \<times> byte list list \<times> i64 list" where
  "dueLoop now interval maxA [] = ([], [], [])"
| "dueLoop now interval maxA ((seq, p) # rest) =
     (let (m, toResend, toGiveUp) = dueLoop now interval maxA rest in
      if now - lastSent p < interval then ((seq, p) # m, toResend, toGiveUp)
      else if maxA \<le> attempts p then (m, toResend, seq # toGiveUp)
      else ((seq, p\<lparr>attempts := attempts p + 1, lastSent := now\<rparr>) # m,
            payload p # toResend, toGiveUp))"

definition retransmitDue :: "int \<Rightarrow> Sender \<Rightarrow> Sender \<times> byte list list \<times> i64 list" where
  "retransmitDue now s =
     (let (m, toResend, toGiveUp) =
        dueLoop now (retransmitInterval s) (maxAttempts s) (pending_map s)
      in (s\<lparr>pending_map := m\<rparr>, toResend, toGiveUp))"

lemma count_list_distinct_in: "x \<in> set xs \<Longrightarrow> distinct xs \<Longrightarrow> count_list xs x = 1"
  by (induction xs) (auto simp: count_list_0_iff)

section \<open>Invariant and behaviour of each operation\<close>

definition lookup :: "Sender \<Rightarrow> i64 \<Rightarrow> pending option" where
  "lookup s = map_of (pending_map s)"

definition sender_ok :: "Sender \<Rightarrow> bool" where
  "sender_ok s \<longleftrightarrow> distinct (map fst (pending_map s)) \<and>
     (\<forall>p \<in> snd ` set (pending_map s). 1 \<le> attempts p \<and> attempts p \<le> max 1 (maxAttempts s))"

lemma map_of_replace:
  "map_of (map (\<lambda>(k', v'). (k', if k' = k then v else v')) m) x =
    (if x = k then map_option (\<lambda>_. v) (map_of m k) else map_of m x)"
  by (cases "x = k"; induction m) (simp_all add: split_beta)

lemma keys_replace: "map fst (map (\<lambda>(k', v'). (k', if k' = k then v else v')) m) = map fst m"
  by (induction m) (simp_all add: split_beta)

lemma al_put_keys: "map fst (al_put k v m) = (if k \<in> fst ` set m then map fst m else map fst m @ [k])"
  by (simp only: al_put_def keys_replace map_append list.map fst_conv if_distrib [of "map fst"])

lemma map_of_al_put [simp]: "map_of (al_put k v m) = (map_of m)(k \<mapsto> v)"
proof
  fix x
  show "map_of (al_put k v m) x = ((map_of m)(k \<mapsto> v)) x"
  proof (cases "k \<in> fst ` set m")
    case True
    then have "map_of m k \<noteq> None" by (simp add: map_of_eq_None_iff)
    with True show ?thesis by (cases "x = k") (auto simp: al_put_def map_of_replace)
  next
    case False
    then have "map_of m k = None" by (simp add: map_of_eq_None_iff)
    with False show ?thesis by (auto simp: al_put_def map_add_def split: option.splits)
  qed
qed

lemma map_of_al_delete [simp]: "map_of (al_delete k m) = (map_of m)(k := None)"
  by (induction m) (auto simp: al_delete_def)

lemma map_of_filter_key: "map_of (filter (\<lambda>(k, _). P k) m) k = (if P k then map_of m k else None)"
  by (induction m) auto

lemma acked_covers: "acked seq rs \<longleftrightarrow> covers rs seq"
  by (induction rs) (auto simp: in_range_def)

lemma lookup_Send: "lookup (fst (Send now seq p s)) =
    (lookup s)(seq \<mapsto> \<lparr>payload = p, lastSent = now, attempts = 1\<rparr>)"
  by (simp add: lookup_def Send_def)

lemma lookup_Cancel: "lookup (Cancel seq s) = (lookup s)(seq := None)"
  by (simp add: lookup_def Cancel_def)

lemma lookup_HandleAck: "lookup (HandleAck ack s) seq =
    (if covers (sa_Received ack) seq then None else lookup s seq)"
  using map_of_filter_key [of "\<lambda>k. \<not> acked k (sa_Received ack)" "pending_map s" seq]
  by (simp add: lookup_def HandleAck_def acked_covers)

lemma dueLoop_Cons [simp]:
  "fst (dueLoop now i a ((q, p) # m)) =
     (if now - lastSent p < i then [(q, p)]
      else if a \<le> attempts p then []
      else [(q, p\<lparr>attempts := attempts p + 1, lastSent := now\<rparr>)]) @ fst (dueLoop now i a m)"
  "fst (snd (dueLoop now i a ((q, p) # m))) =
     (if i \<le> now - lastSent p \<and> attempts p < a then [payload p] else []) @
     fst (snd (dueLoop now i a m))"
  "snd (snd (dueLoop now i a ((q, p) # m))) =
     (if i \<le> now - lastSent p \<and> a \<le> attempts p then [q] else []) @ snd (snd (dueLoop now i a m))"
  by (auto simp: Let_def split: prod.splits)

declare dueLoop.simps(2) [simp del]

lemma dueLoop_keys: "q \<in> fst ` set (fst (dueLoop now i a m)) \<Longrightarrow> q \<in> fst ` set m"
  "q \<in> set (snd (snd (dueLoop now i a m))) \<Longrightarrow> q \<in> fst ` set m"
  by (induction m) (force split: if_splits)+

lemma dueLoop_distinct:
  "distinct (map fst m) \<Longrightarrow> distinct (map fst (fst (dueLoop now i a m)))"
  by (induction m) (auto dest: dueLoop_keys(1) [OF image_eqI, OF refl, unfolded fst_conv])

lemma dueLoop_given_up_distinct:
  "distinct (map fst m) \<Longrightarrow> distinct (snd (snd (dueLoop now i a m)))"
  by (induction m) (auto dest: dueLoop_keys(2))

lemma dueLoop_lookup:
  assumes "distinct (map fst m)"
  shows "map_of (fst (dueLoop now i a m)) seq =
    (case map_of m seq of None \<Rightarrow> None
     | Some p \<Rightarrow> if now - lastSent p < i then Some p
                 else if a \<le> attempts p then None
                 else Some (p\<lparr>attempts := attempts p + 1, lastSent := now\<rparr>))"
    and "seq \<in> set (snd (snd (dueLoop now i a m))) \<longleftrightarrow>
      (\<exists>p. map_of m seq = Some p \<and> i \<le> now - lastSent p \<and> a \<le> attempts p)"
proof -
  have none: "map_of (fst (dueLoop now i a m)) q = None" "q \<notin> set (snd (snd (dueLoop now i a m)))"
    if "q \<notin> fst ` set m" for q m
    using that dueLoop_keys [of q now i a m] by (auto simp: map_of_eq_None_iff)
  show "map_of (fst (dueLoop now i a m)) seq =
    (case map_of m seq of None \<Rightarrow> None
     | Some p \<Rightarrow> if now - lastSent p < i then Some p
                 else if a \<le> attempts p then None
                 else Some (p\<lparr>attempts := attempts p + 1, lastSent := now\<rparr>))"
    using assms by (induction m) (auto simp: none)
  show "seq \<in> set (snd (snd (dueLoop now i a m))) \<longleftrightarrow>
      (\<exists>p. map_of m seq = Some p \<and> i \<le> now - lastSent p \<and> a \<le> attempts p)"
    using assms by (induction m) (auto simp: none)
qed

lemma lookup_retransmitDue:
  assumes "sender_ok s"
  shows "lookup (fst (retransmitDue now s)) q =
    (case lookup s q of None \<Rightarrow> None
     | Some p \<Rightarrow> if now - lastSent p < retransmitInterval s then Some p
                 else if maxAttempts s \<le> attempts p then None
                 else Some (p\<lparr>attempts := attempts p + 1, lastSent := now\<rparr>))"
    and "q \<in> set (snd (snd (retransmitDue now s))) \<longleftrightarrow>
      (\<exists>p. lookup s q = Some p \<and> retransmitInterval s \<le> now - lastSent p \<and>
           maxAttempts s \<le> attempts p)"
proof -
  have eq: "pending_map (fst (retransmitDue now s)) =
      fst (dueLoop now (retransmitInterval s) (maxAttempts s) (pending_map s))"
    "snd (snd (retransmitDue now s)) =
      snd (snd (dueLoop now (retransmitInterval s) (maxAttempts s) (pending_map s)))"
    by (simp_all add: retransmitDue_def split_beta)
  have d: "distinct (map fst (pending_map s))" using assms by (simp add: sender_ok_def)
  show "lookup (fst (retransmitDue now s)) q =
    (case lookup s q of None \<Rightarrow> None
     | Some p \<Rightarrow> if now - lastSent p < retransmitInterval s then Some p
                 else if maxAttempts s \<le> attempts p then None
                 else Some (p\<lparr>attempts := attempts p + 1, lastSent := now\<rparr>))"
    unfolding lookup_def eq by (rule dueLoop_lookup(1) [OF d])
  show "q \<in> set (snd (snd (retransmitDue now s))) \<longleftrightarrow>
      (\<exists>p. lookup s q = Some p \<and> retransmitInterval s \<le> now - lastSent p \<and>
           maxAttempts s \<le> attempts p)"
    unfolding lookup_def eq by (rule dueLoop_lookup(2) [OF d])
qed

lemma sender_okI:
  assumes "distinct (map fst (pending_map s))"
    and "\<And>q p. lookup s q = Some p \<Longrightarrow> 1 \<le> attempts p \<and> attempts p \<le> max 1 (maxAttempts s)"
  shows "sender_ok s"
  using assms by (force simp: sender_ok_def lookup_def)

lemma sender_okD:
  assumes "sender_ok s"
  shows "distinct (map fst (pending_map s))"
    and "lookup s q = Some p \<Longrightarrow> 1 \<le> attempts p \<and> attempts p \<le> max 1 (maxAttempts s)"
  using assms by (auto simp: sender_ok_def lookup_def dest!: map_of_SomeD)

lemma retransmitDue_frame [simp]:
  "retransmitInterval (fst (retransmitDue now s)) = retransmitInterval s"
  "maxAttempts (fst (retransmitDue now s)) = maxAttempts s"
  by (simp_all add: retransmitDue_def split: prod.splits)

lemma Send_ok: "sender_ok s \<Longrightarrow> sender_ok (fst (Send now seq p s))"
  by (rule sender_okI)
     (auto simp: Send_def al_put_keys lookup_Send [unfolded Send_def fst_conv] dest: sender_okD
        split: if_splits)

lemma Cancel_ok: "sender_ok s \<Longrightarrow> sender_ok (Cancel seq s)"
  by (auto simp: sender_ok_def Cancel_def al_delete_def distinct_map_filter)

lemma HandleAck_ok: "sender_ok s \<Longrightarrow> sender_ok (HandleAck ack s)"
  by (auto simp: sender_ok_def HandleAck_def distinct_map_filter)

lemma retransmitDue_ok:
  assumes "sender_ok s"
  shows "sender_ok (fst (retransmitDue now s))"
proof (rule sender_okI)
  show "distinct (map fst (pending_map (fst (retransmitDue now s))))"
    using dueLoop_distinct [OF sender_okD(1) [OF assms]]
    by (simp add: retransmitDue_def split: prod.splits) (metis fst_conv)
  show "1 \<le> attempts p \<and> attempts p \<le> max 1 (maxAttempts (fst (retransmitDue now s)))"
    if "lookup (fst (retransmitDue now s)) q = Some p" for q p
    using that sender_okD(2) [OF assms, of q]
    by (auto simp: lookup_retransmitDue [OF assms] split: option.splits if_splits)
qed

end
