(* ===== verification/Reliability_Properties.thy ===== *)
theory Reliability_Properties
  imports Sender
begin

text \<open>
  The properties of \<open>internal/reliability\<close>: duplicate suppression, bounded memory, what an
  acknowledgement covers, that acknowledgements lose nothing, and retransmission.
\<close>

lemma reachable_ok: "receiver_ok (marks MarkReceived NewReceiver ss)"
  "bounded (marks MarkReceived NewReceiver ss)"
  using rcv.after_inv [of NewReceiver ss] NewReceiver_ok by auto

lemma news_exact:
  assumes "card (set ss) \<le> maxOutOfOrder"
  shows "set (news MarkReceived NewReceiver ss) = {s \<in> set ss. 0 < sint s}"
  using assms
proof (induction ss rule: rev_induct)
  case (snoc s ss)
  have "card (set ss) \<le> card (set (ss @ [s]))" by (intro card_mono) auto
  with snoc.prems have le: "card (set ss) \<le> maxOutOfOrder" by simp
  have "snd (MarkReceived (marks MarkReceived NewReceiver ss) s) \<longleftrightarrow> 0 < sint s \<and> s \<notin> set ss"
    using after_exact(1) [OF le, of s] by (auto simp: MarkReceived_new)
  then show ?case using snoc.IH [OF le] by auto
qed simp

text \<open>C8. A message is processed at most once, and only if it arrived: whatever the order and the
  repetitions in which sequence numbers arrive, \<open>MarkReceived\<close> reports each number as new at most
  once. While at most \<open>maxOutOfOrder\<close> distinct numbers have arrived, it reports exactly the
  positive ones that arrived.\<close>

theorem processed_once:
  "distinct (news MarkReceived NewReceiver ss) \<and>
   set (news MarkReceived NewReceiver ss) \<subseteq> {s \<in> set ss. 0 < sint s} \<and>
   (card (set ss) \<le> maxOutOfOrder \<longrightarrow>
      set (news MarkReceived NewReceiver ss) = {s \<in> set ss. 0 < sint s})"
proof (intro conjI impI news_exact)
  show "distinct (news MarkReceived NewReceiver ss)"
    by (intro rcv.fresh_distinct conjI NewReceiver_ok)
  show "set (news MarkReceived NewReceiver ss) \<subseteq> {s \<in> set ss. 0 < sint s}"
  proof
    fix s
    assume "s \<in> set (news MarkReceived NewReceiver ss)"
    from rcv.fresh_unknown [OF _ this] NewReceiver_ok
    show "s \<in> {s \<in> set ss. 0 < sint s}" by (auto simp: seen_def NewReceiver_def)
  qed
qed

theorem processed_once_witness: "set (news MarkReceived NewReceiver [3, 1, 3, 0, 2, 1]) = {1, 2, 3}"
proof -
  have "card (set [3, 1, 3, 0, 2, 1 :: i64]) \<le> length [3, 1, 3, 0, 2, 1 :: i64]"
    by (rule card_length)
  then have "card (set [3, 1, 3, 0, 2, 1 :: i64]) \<le> maxOutOfOrder"
    unfolding maxOutOfOrder_def by (rule order_trans) simp
  note processed_once [THEN conjunct2, THEN conjunct2, rule_format, OF this]
  also have "{s \<in> set [3, 1, 3, 0, 2, 1 :: i64]. 0 < sint s} = {1, 2, 3}"
    unfolding list.set by force
  finally show ?thesis .
qed

text \<open>The receiver's memory and its acknowledgements stay bounded: after any arrivals the held
  numbers are distinct, above the mark with a gap, and at most 1024; an acknowledgement has at most 64
  ranges, lowest first, non-empty and separated by gaps.\<close>

lemma receiver_bounded:
  "receiver_ok (marks MarkReceived NewReceiver ss) \<and>
   length (above (marks MarkReceived NewReceiver ss)) \<le> 1024 \<and>
   length (sa_Received (BuildAck (marks MarkReceived NewReceiver ss))) \<le> 64 \<and>
   separated (-1) (sa_Received (BuildAck (marks MarkReceived NewReceiver ss)))"
  using reachable_ok [of ss] separated_take [OF ackRanges_facts(1)]
  by (simp add: bounded_def BuildAck_def maxOutOfOrder_def maxAckRanges_def)



definition arrivals_from_2 :: "nat \<Rightarrow> i64 list" where
  "arrivals_from_2 n = map (\<lambda>i. word_of_nat (i + 2)) [0..<n]"

lemma sint_small: "n < 4000 \<Longrightarrow> sint (word_of_nat n :: i64) = int n"
  using sint_of_int_i64 [of "int n"] by simp

lemma sint_small2: "n < 2000 \<Longrightarrow> sint (2 + word_of_nat n :: i64) = int n + 2"
  using sint_small [of "n + 2"] by simp

lemma arrivals_sint:
  "n < 2000 \<Longrightarrow> x \<in> set (arrivals_from_2 n) \<Longrightarrow> 2 \<le> sint x \<and> sint x < int n + 2"
  using sint_small2 by (auto simp: arrivals_from_2_def)

lemma arrivals_distinct: "n < 2000 \<Longrightarrow> card (set (arrivals_from_2 n)) = n"
proof -
  assume n: "n < 2000"
  have "distinct (arrivals_from_2 n)"
  proof -
    have "inj_on (\<lambda>i. word_of_nat (i + 2) :: i64) {0..<n}"
    proof (rule inj_onI)
      fix x y
      assume "x \<in> {0..<n}" "y \<in> {0..<n}" "(word_of_nat (x + 2) :: i64) = word_of_nat (y + 2)"
      then show "x = y" using n sint_small [of "x + 2"] sint_small [of "y + 2"] by simp
    qed
    then show ?thesis by (simp add: arrivals_from_2_def distinct_map)
  qed
  from distinct_card [OF this] show ?thesis by (simp add: arrivals_from_2_def)
qed

lemma gap_overflow:
  assumes n: "n = maxOutOfOrder"
  shows "seen (marks MarkReceived NewReceiver (arrivals_from_2 (Suc n))) 1"
proof -
  let ?ss = "arrivals_from_2 n" and ?s = "word_of_nat (n + 2) :: i64"
  let ?r = "marks MarkReceived NewReceiver ?ss"
  have small: "n < 2000" by (simp add: n maxOutOfOrder_def)
  have card: "card (set ?ss) = n" by (rule arrivals_distinct [OF small])
  note ex = after_exact(1) [OF card [unfolded n, THEN eq_refl], folded n]
  have ok: "receiver_ok ?r" by (rule reachable_ok)
  have unseen: "\<not> seen ?r 1" using ex [of 1] arrivals_sint [OF small, of 1] by auto
  then have c0: "sint (contiguous ?r) = 0" using ok by (auto simp: seen_def receiver_ok_def)
  have "set ?ss \<subseteq> set (above ?r)"
    using ex arrivals_sint [OF small] c0 by (force simp: seen_def)
  from card_mono [OF _ this] card card_length [of "above ?r"]
  have len: "n \<le> length (above ?r)" by simp
  have s: "sint ?s = int n + 2" using sint_small [of "n + 2"] small by simp
  have new: "\<not> seen ?r ?s" using ex [of ?s] arrivals_sint [OF small, of ?s] s by auto
  let ?r1 = "?r\<lparr>above := above ?r @ [?s]\<rparr>"
  have one: "contiguous ?r + 1 = 1" using c0 by (metis add_0 sint_eq_iff signed_0)
  have "sint ?s \<noteq> sint (1 :: i64)" using s by (simp only:) simp
  then have "?s \<noteq> 1" by (simp only: sint_eq_iff) simp
  then have "1 \<notin> set (above ?r1)" using unseen by (auto simp: seen_def)
  then have adv: "advance ?r1 = ?r1" using one by (simp add: advance.simps)
  have ok1: "receiver_ok ?r1" using advance_facts [OF insert_almost(1) [OF ok new]] adv by simp
  have ne: "above ?r1 \<noteq> []" by simp
  let ?r2 = "?r1\<lparr>contiguous := lowestAbove ?r1 - 1\<rparr>"
  have "sint (lowestAbove ?r1) > 1"
    using ok1 c0 lowestAbove_in [OF ne] by (auto simp: receiver_ok_def)
  then have "seen ?r2 1"
    using sint_minus_1 [of 1 "lowestAbove ?r1"] by (simp add: seen_def)
  moreover have "giveUp ?r1 = giveUp (advance ?r2)"
    using len n by (subst giveUp.simps) simp
  ultimately have "seen (giveUp ?r1) 1"
    using giveUp_facts [of "advance ?r2"] advance_facts [OF giveUp_step(1) [OF ok1 ne]] by simp
  moreover have "arrivals_from_2 (Suc n) = ?ss @ [?s]" by (simp add: arrivals_from_2_def)
  ultimately show ?thesis using new adv by (simp add: MarkReceived_def seen_def)
qed

lemma abandoned_is_acknowledged:
  "1 \<notin> set (arrivals_from_2 1025) \<and>
   covers (sa_Received (BuildAck (marks MarkReceived NewReceiver (arrivals_from_2 1025)))) 1"
proof
  show "1 \<notin> set (arrivals_from_2 1025)" using arrivals_sint [of 1025 1] by auto
  have "Suc maxOutOfOrder = 1025" by (simp add: maxOutOfOrder_def)
  then have "seen (marks MarkReceived NewReceiver (arrivals_from_2 1025)) 1"
    using gap_overflow [OF refl] by metis
  then show "covers (sa_Received (BuildAck (marks MarkReceived NewReceiver (arrivals_from_2 1025)))) 1"
    by (rule BuildAck_first [OF reachable_ok(1)])
qed

text \<open>C20. An acknowledgement says exactly what the receiver holds as received: a number is covered
  iff it is positive and at or below the mark or held above it, except those beyond the 64th range. What the
  receiver holds stays bounded: at most 1024 distinct numbers above the mark, and at most 64 ranges in an
  acknowledgement, lowest first, non-empty and separated by gaps.
  A receiver that has given up on a gap so acknowledges numbers that never arrived: when 2, 3, ...,
  1026 arrive and 1 never does, the next acknowledgement covers 1, and its sender stops
  retransmitting it.\<close>

theorem ack_exact:
  "receiver_ok (marks MarkReceived NewReceiver ss) \<and>
   length (above (marks MarkReceived NewReceiver ss)) \<le> 1024 \<and>
   length (sa_Received (BuildAck (marks MarkReceived NewReceiver ss))) \<le> 64 \<and>
   separated (-1) (sa_Received (BuildAck (marks MarkReceived NewReceiver ss))) \<and>
   (covers (sa_Received (BuildAck (marks MarkReceived NewReceiver ss))) s \<longleftrightarrow>
     0 < sint s \<and> seen (marks MarkReceived NewReceiver ss) s \<and>
     (length (ackRanges (marks MarkReceived NewReceiver ss)) \<le> maxAckRanges \<or>
      sint s \<le> sint (sr_Last (ackRanges (marks MarkReceived NewReceiver ss) ! 63)))) \<and>
   1 \<notin> set (arrivals_from_2 1025) \<and>
   covers (sa_Received (BuildAck (marks MarkReceived NewReceiver (arrivals_from_2 1025)))) 1"
  using BuildAck_covers [OF reachable_ok(1), of ss s] abandoned_is_acknowledged receiver_bounded [of ss] by blast

text \<open>A sender left alone: \<open>retransmitDue\<close> at each of the given times, with the numbers given up.\<close>

primrec retransmits :: "int list \<Rightarrow> Sender \<Rightarrow> Sender \<times> i64 list" where
  "retransmits [] s = (s, [])"
| "retransmits (t # ts) s =
     (let (s1, _, g) = retransmitDue t s; (s2, g2) = retransmits ts s1 in (s2, g @ g2))"

text \<open>Times at least one interval apart.\<close>

fun spaced :: "int \<Rightarrow> int \<Rightarrow> int list \<Rightarrow> bool" where
  "spaced i t [] = True"
| "spaced i t (t' # ts) = (i \<le> t' - t \<and> spaced i t' ts)"

lemma retransmits_Cons:
  "fst (retransmits (t # ts) s) = fst (retransmits ts (fst (retransmitDue t s)))"
  "snd (retransmits (t # ts) s) =
     snd (snd (retransmitDue t s)) @ snd (retransmits ts (fst (retransmitDue t s)))"
  by (simp_all add: split_beta Let_def)

lemma retransmits_gone:
  assumes "sender_ok s" "lookup s q = None"
  shows "lookup (fst (retransmits ts s)) q = None" "q \<notin> set (snd (retransmits ts s))"
proof -
  have "lookup (fst (retransmits ts s)) q = None \<and> q \<notin> set (snd (retransmits ts s))"
    using assms
  proof (induction ts arbitrary: s)
    case (Cons t ts)
    then show ?case
      using retransmitDue_ok [of s t] lookup_retransmitDue [where s = s and now = t and q = q]
      by (simp add: retransmits_Cons del: retransmits.simps)
  qed simp
  then show "lookup (fst (retransmits ts s)) q = None" "q \<notin> set (snd (retransmits ts s))" by blast+
qed



text \<open>Each operation of the sender changes exactly its own entries: \<open>Send\<close> records a first
  attempt, \<open>Cancel\<close> forgets one number, \<open>HandleAck\<close> forgets the covered ones, and all of them keep
  every entry's attempts between 1 and the maximum.\<close>

theorem sender_operations:
  "lookup (fst (Send now q b s)) = (lookup s)(q \<mapsto> \<lparr>payload = b, lastSent = now, attempts = 1\<rparr>) \<and>
   lookup (Cancel q s) = (lookup s)(q := None) \<and>
   lookup (HandleAck a s) = (\<lambda>q. if covers (sa_Received a) q then None else lookup s q) \<and>
   (sender_ok s \<longrightarrow> sender_ok (fst (Send now q b s)) \<and> sender_ok (Cancel q s) \<and>
      sender_ok (HandleAck a s) \<and> sender_ok (fst (retransmitDue now s)))"
  by (auto simp: lookup_Send lookup_Cancel lookup_HandleAck Send_ok Cancel_ok HandleAck_ok
      retransmitDue_ok)

theorem sender_operations_witness:
  "sender_ok (fst (retransmitDue 30 (NewSender 10 3))) \<and> sender_ok (fst (Send 0 1 [] (NewSender 10 3)))"
proof -
  have "sender_ok (NewSender 10 3)" by (simp add: sender_ok_def NewSender_def)
  then show ?thesis using sender_operations by blast
qed

end
