(* ===== verification/Authz.thy ===== *)
theory Authz
  imports Prelude
begin

text \<open>
  \<open>internal/authz/authz.go\<close>: which operations an identity may perform on which node paths. A
  compiled \<open>*regexp.Regexp\<close> is the predicate of the strings its \<open>MatchString\<close> accepts; the regexp
  compiler and the JSON decoder are arguments of \<open>Parse\<close>.
\<close>

section \<open>Operations and policies\<close>

datatype Op = OpRead | OpWrite | OpDelete

fun Op_String :: "Op \<Rightarrow> string" where
  "Op_String OpRead = ''read''"
| "Op_String OpWrite = ''write''"
| "Op_String OpDelete = ''delete''"

type_synonym regexp = "string \<Rightarrow> bool"

record ruleSet =
  rs_read :: "regexp list"
  rs_write :: "regexp list"
  rs_del :: "regexp list"

record Policy =
  readOnly :: "regexp list"
  identities :: "(string \<times> ruleSet) list"

record identityRules =
  ir_Read :: "string list"
  ir_Write :: "string list"
  ir_Delete :: "string list"

record fileFormat =
  ff_ReadOnly :: "string list"
  ff_Identities :: "(string \<times> identityRules) list"

datatype policy_error =
    BadJson string
  | BadReadOnly string
  | BadIdentity string Op string

section \<open>Loading a policy\<close>

type_synonym compiler = "string \<Rightarrow> regexp option"

text \<open>\<open>compileAll\<close>: the error carries the pattern that does not compile.\<close>

fun compileAll :: "compiler \<Rightarrow> string list \<Rightarrow> (string, regexp list) result" where
  "compileAll compile [] = Ok []"
| "compileAll compile (p # ps) =
     (case compile p of
        None \<Rightarrow> Err p
      | Some re \<Rightarrow> rbind (compileAll compile ps) (\<lambda>out. Ok (re # out)))"

definition parseIdentity :: "compiler \<Rightarrow> string \<Rightarrow> identityRules \<Rightarrow> (policy_error, ruleSet) result" where
  "parseIdentity compile ident r =
     rbind (wrap_err (BadIdentity ident OpRead) (compileAll compile (ir_Read r))) (\<lambda>rd.
     rbind (wrap_err (BadIdentity ident OpWrite) (compileAll compile (ir_Write r))) (\<lambda>wr.
     rbind (wrap_err (BadIdentity ident OpDelete) (compileAll compile (ir_Delete r))) (\<lambda>dl.
     Ok \<lparr>rs_read = rd, rs_write = wr, rs_del = dl\<rparr>)))"

text \<open>The loop over the identities (a map: its keys are distinct).\<close>

fun parseIdentities :: "compiler \<Rightarrow> (string \<times> identityRules) list \<Rightarrow>
    (policy_error, (string \<times> ruleSet) list) result" where
  "parseIdentities compile [] = Ok []"
| "parseIdentities compile ((ident, r) # rest) =
     rbind (parseIdentity compile ident r) (\<lambda>rs.
     rbind (parseIdentities compile rest) (\<lambda>ids. Ok ((ident, rs) # ids)))"

definition ParsePolicy :: "compiler \<Rightarrow> (byte list \<Rightarrow> (string, fileFormat) result) \<Rightarrow> byte list \<Rightarrow>
    (policy_error, Policy) result" where
  "ParsePolicy compile unmarshal data =
     rbind (wrap_err BadJson (unmarshal data)) (\<lambda>f.
     rbind (wrap_err BadReadOnly (compileAll compile (ff_ReadOnly f))) (\<lambda>ro.
     rbind (parseIdentities compile (ff_Identities f)) (\<lambda>ids.
     Ok \<lparr>readOnly = ro, identities = ids\<rparr>)))"

fun anyMatch :: "regexp list \<Rightarrow> string \<Rightarrow> bool" where
  "anyMatch [] path = False"
| "anyMatch (re # res) path = (if re path then True else anyMatch res path)"

section \<open>Checkers\<close>

record checker =
  ck_policy :: "Policy option"
  ck_identity :: string
  ck_ownSession :: string

definition NewChecker :: "Policy option \<Rightarrow> string \<Rightarrow> string \<Rightarrow> checker" where
  "NewChecker p ident sessionID =
     \<lparr>ck_policy = p, ck_identity = ident, ck_ownSession = ''Connection-ID='' @ sessionID\<rparr>"

definition NewOpenChecker :: "string \<Rightarrow> checker" where
  "NewOpenChecker sessionID = NewChecker None ''anonymous'' sessionID"

definition sessionsPrefix :: string where
  "sessionsPrefix = ''/Sessions''"

text \<open>\<open>strings.SplitN(s, "/", n)\<close> for \<open>n >= 1\<close>.\<close>

fun SplitN :: "nat \<Rightarrow> string \<Rightarrow> string list" where
  "SplitN (Suc (Suc n)) s =
     (if CHR ''/'' \<in> set s
      then takeWhile (\<lambda>c. c \<noteq> CHR ''/'') s #
           SplitN (Suc n) (tl (dropWhile (\<lambda>c. c \<noteq> CHR ''/'') s))
      else [s])"
| "SplitN _ s = [s]"

definition HasPrefix :: "string \<Rightarrow> string \<Rightarrow> bool" where
  "HasPrefix s p \<longleftrightarrow> take (length p) s = p"

text \<open>\<open>sessionRule\<close>: \<open>None\<close> when it does not decide, otherwise whether it allows.\<close>

definition sessionRule :: "checker \<Rightarrow> Op \<Rightarrow> string \<Rightarrow> bool option" where
  "sessionRule c op path =
     (if path \<noteq> sessionsPrefix \<and> \<not> HasPrefix path (sessionsPrefix @ ''/'') then None
      else if path = sessionsPrefix then Some (op = OpRead)
      else
        let rest = drop (length sessionsPrefix + 1) path;
            parts = SplitN 3 rest
        in if parts ! 0 \<noteq> ck_ownSession c then Some False
           else if length parts = 1 then Some (op = OpRead)
           else
             let container = parts ! 1; deeper = (length parts = 3)
             in if container = ''NewNodes'' then Some (deeper \<or> op = OpRead)
                else if container = ''Errors'' \<or> container = ''QueryResults''
                  then (if \<not> deeper then Some (op = OpRead) else Some (op = OpRead \<or> op = OpDelete))
                else Some (op = OpRead))"

text \<open>The body of the loop of \<open>Allowed\<close> over the identity and \<open>"*"\<close>: whether one rule set allows.\<close>

fun ruleSetAllows :: "ruleSet \<Rightarrow> Op \<Rightarrow> string \<Rightarrow> bool" where
  "ruleSetAllows rs OpRead path =
     (anyMatch (rs_read rs) path \<or> anyMatch (rs_write rs) path \<or> anyMatch (rs_del rs) path)"
| "ruleSetAllows rs OpWrite path = anyMatch (rs_write rs) path"
| "ruleSetAllows rs OpDelete path = anyMatch (rs_del rs) path"

fun identityLoop :: "Policy \<Rightarrow> string list \<Rightarrow> Op \<Rightarrow> string \<Rightarrow> bool" where
  "identityLoop p [] op path = False"
| "identityLoop p (ident # ids) op path =
     (case map_of (identities p) ident of
        None \<Rightarrow> identityLoop p ids op path
      | Some rs \<Rightarrow> if ruleSetAllows rs op path then True else identityLoop p ids op path)"

definition Allowed :: "checker \<Rightarrow> Op \<Rightarrow> string \<Rightarrow> bool" where
  "Allowed c op path =
     (case sessionRule c op path of
        Some ok \<Rightarrow> ok
      | None \<Rightarrow>
          (case ck_policy c of
             None \<Rightarrow> True
           | Some p \<Rightarrow>
               if op \<noteq> OpRead \<and> anyMatch (readOnly p) path then False
               else identityLoop p [ck_identity c, ''*''] op path))"

section \<open>The interface the tree relies on\<close>

text \<open>
  \<open>authz.Checker\<close>, as \<open>internal/tree\<close> uses it: targets are resolved through what may be read, so
  an operation that is allowed on a node must imply that the node can be seen.
\<close>

locale access =
  fixes allowed :: "Op \<Rightarrow> string \<Rightarrow> bool"
  assumes allowed_readable: "allowed op path \<Longrightarrow> allowed OpRead path"
begin

lemma unreadable_denied: "\<not> allowed OpRead path \<Longrightarrow> \<not> allowed op path"
  using allowed_readable by blast

end

text \<open>A nil \<open>Checker\<close> allows everything.\<close>

definition checker_allowed :: "checker option \<Rightarrow> Op \<Rightarrow> string \<Rightarrow> bool" where
  "checker_allowed c op path = (case c of None \<Rightarrow> True | Some ck \<Rightarrow> Allowed ck op path)"

lemma anyMatch_iff: "anyMatch res path \<longleftrightarrow> (\<exists>re \<in> set res. re path)"
  by (induction res) auto

lemma ruleSetAllows_read: "ruleSetAllows rs op path \<Longrightarrow> ruleSetAllows rs OpRead path"
  by (cases op) auto

lemma identityLoop_iff: "identityLoop p ids op path \<longleftrightarrow>
    (\<exists>i \<in> set ids. \<exists>rs. map_of (identities p) i = Some rs \<and> ruleSetAllows rs op path)"
  by (induction ids) (auto split: option.splits)

lemma sessionRule_policy: "sessionRule c op path = Some b \<Longrightarrow> Allowed c op path = b"
  by (simp add: Allowed_def)

lemma sessionRule_decides: "sessionRule c op path = None \<longleftrightarrow>
    path \<noteq> sessionsPrefix \<and> \<not> HasPrefix path (sessionsPrefix @ ''/'')"
  by (auto simp: sessionRule_def Let_def)

lemma sessionRule_read: "sessionRule c op path = Some True \<Longrightarrow> sessionRule c OpRead path = Some True"
  by (auto simp: sessionRule_def Let_def split: if_splits)

lemma Allowed_readable: "Allowed c op path \<Longrightarrow> Allowed c OpRead path"
  using sessionRule_read [of c op path] sessionRule_decides [of c op path]
    sessionRule_decides [of c OpRead path] ruleSetAllows_read
  by (auto simp: Allowed_def identityLoop_iff split: option.splits if_splits)

interpretation acc: access "checker_allowed c" for c
  by unfold_locales (auto simp: checker_allowed_def split: option.splits intro: Allowed_readable)

section \<open>Paths below \<open>/Sessions\<close>\<close>

lemma takeWhile_no_slash [simp]:
  "CHR ''/'' \<notin> set a \<Longrightarrow> takeWhile (\<lambda>c. c \<noteq> CHR ''/'') (a @ CHR ''/'' # b) = a"
  "CHR ''/'' \<notin> set a \<Longrightarrow> dropWhile (\<lambda>c. c \<noteq> CHR ''/'') (a @ CHR ''/'' # b) = CHR ''/'' # b"
  by (induction a) auto

lemma SplitN_steps:
  "CHR ''/'' \<notin> set a \<Longrightarrow> SplitN (Suc n) a = [a]"
  "CHR ''/'' \<notin> set a \<Longrightarrow> SplitN (Suc (Suc n)) (a @ CHR ''/'' # b) = a # SplitN (Suc n) b"
  by (cases n) auto

lemma sessionRule_below:
  "sessionRule c op (sessionsPrefix @ ''/'' @ rest) =
     (let parts = SplitN 3 rest
      in if parts ! 0 \<noteq> ck_ownSession c then Some False
         else if length parts = 1 then Some (op = OpRead)
         else if parts ! 1 = ''NewNodes'' then Some (length parts = 3 \<or> op = OpRead)
         else if parts ! 1 = ''Errors'' \<or> parts ! 1 = ''QueryResults''
           then Some (op = OpRead \<or> length parts = 3 \<and> op = OpDelete)
         else Some (op = OpRead))"
  by (simp add: sessionRule_def HasPrefix_def sessionsPrefix_def Let_def)

lemma first_component:
  "SplitN (Suc (Suc n)) rest ! 0 = takeWhile (\<lambda>c. c \<noteq> CHR ''/'') rest"
proof (cases "CHR ''/'' \<in> set rest")
  case False
  then have "takeWhile (\<lambda>c. c \<noteq> CHR ''/'') rest = rest"
    unfolding takeWhile_eq_all_conv by blast
  with False show ?thesis by (simp only: SplitN.simps if_False nth_Cons_0)
qed simp

text \<open>A session has rights below \<open>/Sessions\<close> in its own subtree only.\<close>

lemma allowed_own_session:
  assumes "Allowed (NewChecker p ident sid) op (''/Sessions/'' @ rest)"
  shows "takeWhile (\<lambda>c. c \<noteq> CHR ''/'') rest = ''Connection-ID='' @ sid"
  using assms sessionRule_below [of "NewChecker p ident sid" op rest] first_component [of 1 rest]
  by (auto simp: Allowed_def sessionsPrefix_def NewChecker_def Let_def numeral_3_eq_3 split: if_splits)

end
