(* ===== verification/Authz_Properties.thy ===== *)
theory Authz_Properties
  imports Authz
begin

text \<open>
  The properties of \<open>internal/authz\<close>: session isolation, the session's own subtree, agreement of a
  loaded policy with its file, and that what may be changed may be seen.
\<close>

section \<open>What a policy file says\<close>

definition pattern_matches :: "compiler \<Rightarrow> string \<Rightarrow> string \<Rightarrow> bool" where
  "pattern_matches compile pat path = (case compile pat of None \<Rightarrow> False | Some re \<Rightarrow> re path)"

fun rules_for :: "Op \<Rightarrow> identityRules \<Rightarrow> string list" where
  "rules_for OpRead r = ir_Read r @ ir_Write r @ ir_Delete r"
| "rules_for OpWrite r = ir_Write r"
| "rules_for OpDelete r = ir_Delete r"

text \<open>Reading needs a rule of the identity or of \<open>"*"\<close>; writing and deleting also that no read-only
  pattern matches.\<close>

definition file_allows :: "compiler \<Rightarrow> fileFormat \<Rightarrow> string \<Rightarrow> Op \<Rightarrow> string \<Rightarrow> bool" where
  "file_allows compile f ident op path \<longleftrightarrow>
     (op \<noteq> OpRead \<longrightarrow> (\<forall>pat \<in> set (ff_ReadOnly f). \<not> pattern_matches compile pat path)) \<and>
     (\<exists>i \<in> {ident, ''*''}. \<exists>r. map_of (ff_Identities f) i = Some r \<and>
        (\<exists>pat \<in> set (rules_for op r). pattern_matches compile pat path))"

definition file_patterns :: "fileFormat \<Rightarrow> string set" where
  "file_patterns f = set (ff_ReadOnly f) \<union>
     (\<Union>x \<in> set (ff_Identities f). set (rules_for OpRead (snd x)))"

lemma compileAll_Ok_iff: "compileAll compile ps = Ok res \<longleftrightarrow> map compile ps = map Some res"
  by (induction ps arbitrary: res) (auto simp: rbind_Ok_iff split: option.splits)

lemma compileAll_total: "(\<exists>res. compileAll compile ps = Ok res) \<longleftrightarrow> (\<forall>p \<in> set ps. compile p \<noteq> None)"
  by (induction ps) (auto simp: rbind_Ok_iff split: option.splits)

lemma compileAll_returns: "compileAll compile ps \<noteq> Panic"
  by (induction ps) (auto simp: rbind_Panic_iff split: option.splits)

lemma anyMatch_compiled:
  "compileAll compile ps = Ok res \<Longrightarrow> anyMatch res path \<longleftrightarrow> (\<exists>p \<in> set ps. pattern_matches compile p path)"
proof (induction ps arbitrary: res)
  case (Cons p ps)
  then obtain re out where "compile p = Some re" "compileAll compile ps = Ok out" "res = re # out"
    by (auto simp: rbind_Ok_iff split: option.splits)
  with Cons.IH [of out] show ?case by (simp add: pattern_matches_def)
qed simp

lemma parseIdentity_allows:
  "parseIdentity compile ident r = Ok rs \<Longrightarrow>
   ruleSetAllows rs op path \<longleftrightarrow> (\<exists>pat \<in> set (rules_for op r). pattern_matches compile pat path)"
  by (cases op) (auto simp: parseIdentity_def rbind_Ok_iff anyMatch_compiled)

lemma parseIdentities_lookup:
  "parseIdentities compile l = Ok ids \<Longrightarrow>
   (case map_of l i of None \<Rightarrow> map_of ids i = None
    | Some r \<Rightarrow> \<exists>rs. map_of ids i = Some rs \<and> parseIdentity compile i r = Ok rs)"
  by (induction compile l arbitrary: ids rule: parseIdentities.induct)
     (auto simp: rbind_Ok_iff split: option.splits)

lemma parseIdentity_total: "(\<exists>rs. parseIdentity compile ident r = Ok rs) \<longleftrightarrow>
    (\<forall>p \<in> set (rules_for OpRead r). compile p \<noteq> None)"
proof -
  have "(\<exists>rs. parseIdentity compile ident r = Ok rs) \<longleftrightarrow>
     (\<exists>a. compileAll compile (ir_Read r) = Ok a) \<and> (\<exists>a. compileAll compile (ir_Write r) = Ok a) \<and>
     (\<exists>a. compileAll compile (ir_Delete r) = Ok a)"
    by (auto simp: parseIdentity_def rbind_Ok_iff)
  then show ?thesis by (auto simp: compileAll_total)
qed

lemma parseIdentities_total: "(\<exists>ids. parseIdentities compile l = Ok ids) \<longleftrightarrow>
    (\<forall>x \<in> set l. \<forall>p \<in> set (rules_for OpRead (snd x)). compile p \<noteq> None)"
proof (induction compile l rule: parseIdentities.induct)
  case (2 compile ident r rest)
  have "(\<exists>ids. parseIdentities compile ((ident, r) # rest) = Ok ids) \<longleftrightarrow>
      (\<exists>rs. parseIdentity compile ident r = Ok rs) \<and> (\<exists>ids. parseIdentities compile rest = Ok ids)"
    by (auto simp: rbind_Ok_iff)
  moreover have "(\<exists>rs. parseIdentity compile ident r = Ok rs) \<Longrightarrow>
      (\<exists>ids. parseIdentities compile rest = Ok ids) \<longleftrightarrow>
      (\<forall>x \<in> set rest. \<forall>p \<in> set (rules_for OpRead (snd x)). compile p \<noteq> None)"
    using 2 by blast
  ultimately show ?case
    unfolding parseIdentity_total by (simp only: list.set ball_simps snd_conv cong: conj_cong)
qed simp

lemma file_patterns_ball: "(\<forall>pat \<in> file_patterns f. P pat) \<longleftrightarrow> (\<forall>pat \<in> set (ff_ReadOnly f). P pat) \<and>
    (\<forall>x \<in> set (ff_Identities f). \<forall>pat \<in> set (rules_for OpRead (snd x)). P pat)"
  unfolding file_patterns_def by blast

section \<open>Properties\<close>

text \<open>C14. Sessions are isolated from each other whatever the policy says: of two sessions with
  different identifiers, at most one may do anything at all to a node below \<open>/Sessions\<close>.\<close>

theorem sessions_isolated:
  assumes "sid \<noteq> sid'"
  shows "\<not> (Allowed (NewChecker p ident sid) op (''/Sessions/'' @ rest) \<and>
            Allowed (NewChecker p' ident' sid') op' (''/Sessions/'' @ rest))"
  using assms allowed_own_session [of p ident sid op rest] allowed_own_session [of p' ident' sid' op' rest] by auto

theorem sessions_isolated_witness:
  "\<not> Allowed (NewChecker None ''admin'' ''2'') OpRead ''/Sessions/Connection-ID=1/NewNodes/a''"
proof -
  have "Allowed (NewChecker None ''admin'' ''1'') OpRead
      (''/Sessions/'' @ ''Connection-ID=1/NewNodes/a'')"
    by (simp add: Allowed_def sessionRule_def NewChecker_def HasPrefix_def sessionsPrefix_def
        Let_def numeral_3_eq_3)
  then show ?thesis
    using sessions_isolated [of "''1''" "''2''" None "''admin''" OpRead "''Connection-ID=1/NewNodes/a''"
        None "''admin''" OpRead] by simp
qed

text \<open>C22. Within its own subtree a session has exactly these rights, whatever the policy: its root and
  its containers are read-only, everything below \<open>NewNodes\<close> is open, everything below \<open>Errors\<close> and
  \<open>QueryResults\<close> may be read and deleted but not written, and nothing else may be changed.\<close>

theorem own_session_rights:
  assumes "CHR ''/'' \<notin> set sid" "CHR ''/'' \<notin> set k"
  shows "Allowed (NewChecker p ident sid) op (''/Sessions/Connection-ID='' @ sid) = (op = OpRead) \<and>
    Allowed (NewChecker p ident sid) op (''/Sessions/Connection-ID='' @ sid @ ''/'' @ k) =
      (op = OpRead) \<and>
    Allowed (NewChecker p ident sid) op (''/Sessions/Connection-ID='' @ sid @ ''/'' @ k @ ''/'' @ x) =
      (op = OpRead \<or> k = ''NewNodes'' \<or> (k = ''Errors'' \<or> k = ''QueryResults'') \<and> op = OpDelete)"
proof -
  let ?c = "NewChecker p ident sid" and ?own = "''Connection-ID='' @ sid"
  have own: "CHR ''/'' \<notin> set ?own" using assms by simp
  have below: "Allowed ?c op (''/Sessions/'' @ rest) = b"
    if "sessionRule ?c op (sessionsPrefix @ ''/'' @ rest) = Some b" for rest b
    using sessionRule_policy [OF that] by (simp add: sessionsPrefix_def)
  have parts: "SplitN 3 ?own = [?own]" "SplitN 3 (?own @ ''/'' @ k) = [?own, k]"
    "SplitN 3 (?own @ ''/'' @ k @ ''/'' @ x) = [?own, k, x]"
    using SplitN_steps(1) [OF own, of 2] SplitN_steps(2) [OF own, of 1]
      SplitN_steps(1) [OF assms(2), of 1] SplitN_steps(2) [OF assms(2), of 0]
    by (simp_all add: numeral_3_eq_3 numeral_2_eq_2)
  have c: "ck_ownSession ?c = ?own" by (simp add: NewChecker_def)
  show ?thesis
    using below [of ?own "op = OpRead"] below [of "?own @ ''/'' @ k" "op = OpRead"]
      below [of "?own @ ''/'' @ k @ ''/'' @ x"
        "op = OpRead \<or> k = ''NewNodes'' \<or> (k = ''Errors'' \<or> k = ''QueryResults'') \<and> op = OpDelete"]
    unfolding sessionRule_below parts c Let_def by auto
qed

theorem own_session_rights_witness:
  "Allowed (NewChecker None ''u'' ''7'') OpDelete ''/Sessions/Connection-ID=7/QueryResults/q1'' \<and>
   \<not> Allowed (NewChecker None ''u'' ''7'') OpDelete ''/Sessions/Connection-ID=7/QueryResults''"
  using own_session_rights [of "''7''" "''QueryResults''" None "''u''" OpDelete "''q1''"] by simp

text \<open>C23. Outside \<open>/Sessions\<close> a loaded policy decides as its file says: deny unless a rule of the
  identity or of \<open>"*"\<close> matches, and never change what is read-only.\<close>

theorem policy_decides_as_file:
  assumes "unmarshal data = Ok f" "ParsePolicy compile unmarshal data = Ok p"
    and "path \<noteq> ''/Sessions''" "\<not> HasPrefix path ''/Sessions/''"
  shows "Allowed (NewChecker (Some p) ident sid) op path \<longleftrightarrow> file_allows compile f ident op path"
proof -
  have dec: "sessionRule (NewChecker (Some p) ident sid) op path = None"
    using assms(3,4) by (simp add: sessionRule_decides sessionsPrefix_def)
  have ro: "compileAll compile (ff_ReadOnly f) = Ok (readOnly p)"
    and ids: "parseIdentities compile (ff_Identities f) = Ok (identities p)"
    using assms(1,2) by (auto simp: ParsePolicy_def rbind_Ok_iff)
  have one: "(\<exists>rs. map_of (identities p) i = Some rs \<and> ruleSetAllows rs op path) \<longleftrightarrow>
      (\<exists>r. map_of (ff_Identities f) i = Some r \<and>
        (\<exists>pat \<in> set (rules_for op r). pattern_matches compile pat path))" for i
    using parseIdentities_lookup [OF ids, of i] parseIdentity_allows [of compile i _ _ op path]
    by (auto split: option.splits)
  show ?thesis
    using dec by (auto simp: Allowed_def NewChecker_def file_allows_def identityLoop_iff one
        anyMatch_compiled [OF ro])
qed

theorem policy_decides_as_file_witness:
  "\<exists>p. ParsePolicy (\<lambda>pat. Some (\<lambda>s. s = pat))
      (\<lambda>_. Ok \<lparr>ff_ReadOnly = [''/a''], ff_Identities =
         [(''bob'', \<lparr>ir_Read = [], ir_Write = [''/a'', ''/b''], ir_Delete = []\<rparr>)]\<rparr>) [] = Ok p \<and>
    Allowed (NewChecker (Some p) ''bob'' ''1'') OpWrite ''/b'' \<and>
    \<not> Allowed (NewChecker (Some p) ''bob'' ''1'') OpWrite ''/a''"
proof -
  let ?f = "\<lparr>ff_ReadOnly = [''/a''], ff_Identities =
      [(''bob'', \<lparr>ir_Read = [], ir_Write = [''/a'', ''/b''], ir_Delete = []\<rparr>)]\<rparr>"
  let ?c = "\<lambda>pat. Some (\<lambda>s :: string. s = pat)"
  obtain p where p: "ParsePolicy ?c (\<lambda>_. Ok ?f) [] = Ok p"
    by (simp add: ParsePolicy_def parseIdentity_def)
  note decide = policy_decides_as_file [OF refl p, of _ "''bob''" "''1''" OpWrite]
  have "Allowed (NewChecker (Some p) ''bob'' ''1'') OpWrite ''/b''"
    "\<not> Allowed (NewChecker (Some p) ''bob'' ''1'') OpWrite ''/a''"
    using decide [of "''/b''"] decide [of "''/a''"]
    by (simp_all add: HasPrefix_def file_allows_def pattern_matches_def)
  with p show ?thesis by blast
qed

text \<open>A policy file is accepted exactly when it is well-formed JSON and each of its patterns
  compiles; otherwise loading it is an error, never a panic.\<close>

theorem policy_loads_iff:
  assumes "unmarshal data \<noteq> Panic"
  shows "((\<exists>p. ParsePolicy compile unmarshal data = Ok p) \<longleftrightarrow>
      (\<exists>f. unmarshal data = Ok f \<and> (\<forall>pat \<in> file_patterns f. compile pat \<noteq> None))) \<and>
    ParsePolicy compile unmarshal data \<noteq> Panic"
proof -
  have ids: "parseIdentities compile l \<noteq> Panic" for l
    by (induction compile l rule: parseIdentities.induct)
       (auto simp: rbind_Panic_iff parseIdentity_def compileAll_returns)
  have "(\<exists>p. ParsePolicy compile unmarshal data = Ok p) \<longleftrightarrow>
      (\<exists>f. unmarshal data = Ok f \<and> (\<exists>ro. compileAll compile (ff_ReadOnly f) = Ok ro) \<and>
         (\<exists>i. parseIdentities compile (ff_Identities f) = Ok i))"
    by (auto simp: ParsePolicy_def rbind_Ok_iff)
  moreover have "ParsePolicy compile unmarshal data \<noteq> Panic"
    using assms by (auto simp: ParsePolicy_def rbind_Panic_iff compileAll_returns ids)
  ultimately show ?thesis
    unfolding compileAll_total parseIdentities_total file_patterns_ball by blast
qed

theorem policy_loads_iff_witness:
  "\<not> (\<exists>p. ParsePolicy (\<lambda>pat. None) (\<lambda>_. Ok \<lparr>ff_ReadOnly = [''(''], ff_Identities = []\<rparr>) [] = Ok p)"
  using policy_loads_iff [of "\<lambda>_. Ok \<lparr>ff_ReadOnly = [''(''], ff_Identities = []\<rparr>" "[]" "\<lambda>pat. None"]
  by (simp add: file_patterns_def)

text \<open>What a session may write or delete it may also read, for every checker including the nil
  one: a target that may be changed can always be seen.\<close>

theorem changeable_is_readable:
  "checker_allowed c op path \<longrightarrow> checker_allowed c OpRead path"
  using acc.allowed_readable by blast

theorem changeable_is_readable_witness:
  "checker_allowed (Some (NewChecker None ''u'' ''7'')) OpRead ''/Sessions/Connection-ID=7/Errors/e''"
proof -
  have "checker_allowed (Some (NewChecker None ''u'' ''7'')) OpDelete
      ''/Sessions/Connection-ID=7/Errors/e''"
    by (simp add: checker_allowed_def Allowed_def sessionRule_def NewChecker_def HasPrefix_def
        sessionsPrefix_def Let_def numeral_3_eq_3)
  then show ?thesis using changeable_is_readable by blast
qed

end
