(* ===== verification/Match_Expr.thy ===== *)
theory Match_Expr
  imports Authz
begin

text \<open>
  The match-expression parser of \<open>internal/tree/tree.go\<close>: escaping, segments, and the
  \<open>@index\<close> suffix of a continuation. The regexp compiler is an argument (\<open>compiler\<close>); a Go string
  is a byte sequence, so \<open>s[i]\<close> is one character here.
\<close>

section \<open>Splitting at unescaped delimiters\<close>

text \<open>\<open>splitUnescaped\<close>: \<open>buf\<close> is the string builder, the result the parts from here on.\<close>

fun splitLoop :: "char \<Rightarrow> string \<Rightarrow> string \<Rightarrow> string list" where
  "splitLoop delim buf [] = [buf]"
| "splitLoop delim buf [c] = (if c = delim then [buf, []] else [buf @ [c]])"
| "splitLoop delim buf (c # d # s) =
     (if c = CHR 0x5C \<and> (d = delim \<or> d = CHR 0x5C) then splitLoop delim (buf @ [d]) s
      else if c = delim then buf # splitLoop delim [] (d # s)
      else splitLoop delim (buf @ [c]) (d # s))"

definition splitUnescaped :: "string \<Rightarrow> char \<Rightarrow> string list" where
  "splitUnescaped s delim = splitLoop delim [] s"

fun splitFirstLoop :: "char \<Rightarrow> string \<Rightarrow> string \<Rightarrow> string \<times> bool \<times> string" where
  "splitFirstLoop delim buf [] = (buf, False, [])"
| "splitFirstLoop delim buf [c] = (if c = delim then (buf, True, []) else (buf @ [c], False, []))"
| "splitFirstLoop delim buf (c # d # s) =
     (if c = CHR 0x5C \<and> (d = delim \<or> d = CHR 0x5C) then splitFirstLoop delim (buf @ [d]) s
      else if c = delim then (buf, True, d # s)
      else splitFirstLoop delim (buf @ [c]) (d # s))"

definition splitFirstUnescaped :: "string \<Rightarrow> char \<Rightarrow> string \<times> bool \<times> string" where
  "splitFirstUnescaped s delim = splitFirstLoop delim [] s"

section \<open>Segments\<close>

record Segment =
  KeyRe :: regexp
  ValueRe :: "regexp option"

datatype expr_error = BadKeyRegexp string | BadValueRegexp string | EmptyExpression

definition anchored :: "string \<Rightarrow> string" where
  "anchored re = ''^(?:'' @ re @ '')$''"

text \<open>The body of the loop of \<open>ParseExpression\<close> for a non-empty part.\<close>

definition parsePart :: "compiler \<Rightarrow> string \<Rightarrow> (expr_error, Segment) result" where
  "parsePart compile part =
     (let (keyRaw, hasValue, valueRaw) = splitFirstUnescaped part CHR ''='' in
      case compile (anchored keyRaw) of
        None \<Rightarrow> Err (BadKeyRegexp keyRaw)
      | Some keyRe \<Rightarrow>
          if hasValue then
            (case compile (anchored valueRaw) of
               None \<Rightarrow> Err (BadValueRegexp valueRaw)
             | Some valueRe \<Rightarrow> Ok \<lparr>KeyRe = keyRe, ValueRe = Some valueRe\<rparr>)
          else Ok \<lparr>KeyRe = keyRe, ValueRe = None\<rparr>)"

fun parseParts :: "compiler \<Rightarrow> string list \<Rightarrow> (expr_error, Segment list) result" where
  "parseParts compile [] = Ok []"
| "parseParts compile (part # parts) =
     (if part = [] then parseParts compile parts
      else rbind (parsePart compile part) (\<lambda>seg.
           rbind (parseParts compile parts) (\<lambda>segs. Ok (seg # segs))))"

definition ParseExpression :: "compiler \<Rightarrow> string \<Rightarrow> (expr_error, Segment list) result" where
  "ParseExpression compile expression =
     rbind (parseParts compile (splitUnescaped expression CHR ''/'')) (\<lambda>segments.
       if length segments = 0 then Err EmptyExpression else Ok segments)"

section \<open>Decimal numbers\<close>

definition digit :: "nat \<Rightarrow> char" where
  "digit d = char_of (48 + d)"

definition is_digit :: "char \<Rightarrow> bool" where
  "is_digit c \<longleftrightarrow> 48 \<le> (of_char c :: nat) \<and> (of_char c :: nat) \<le> 57"

fun show_nat :: "nat \<Rightarrow> string" where
  "show_nat n = (if n < 10 then [digit n] else show_nat (n div 10) @ [digit (n mod 10)])"

declare show_nat.simps [simp del]

definition show_int :: "int \<Rightarrow> string" where
  "show_int i = (if i < 0 then CHR ''-'' # show_nat (nat (- i)) else show_nat (nat i))"

definition digits_value :: "string \<Rightarrow> nat" where
  "digits_value s = foldl (\<lambda>n c. 10 * n + (of_char c - 48)) 0 s"

text \<open>\<open>strconv.Atoi\<close>: an optional sign and at least one decimal digit, in the range of \<open>int\<close>.\<close>

definition atoi :: "string \<Rightarrow> int option" where
  "atoi s =
     (let (neg, ds) = (case s of c # cs \<Rightarrow> if c = CHR ''-'' then (True, cs)
                                       else if c = CHR ''+'' then (False, cs) else (False, s)
                       | [] \<Rightarrow> (False, s));
          v = (if neg then - int (digits_value ds) else int (digits_value ds))
      in if ds = [] \<or> \<not> list_all is_digit ds \<or> v < - (2 ^ 63) \<or> 2 ^ 63 \<le> v then None else Some v)"

definition SplitResumeSuffix :: "string \<Rightarrow> string \<times> int" where
  "SplitResumeSuffix raw =
     (let (before, found, after) = splitFirstUnescaped raw CHR ''@'' in
      if found then (case atoi after of Some n \<Rightarrow> (before, n) | None \<Rightarrow> (raw, 0)) else (raw, 0))"

section \<open>Escaping\<close>

text \<open>How a client writes a literal string where \<open>delim\<close> separates.\<close>

fun escape :: "char \<Rightarrow> string \<Rightarrow> string" where
  "escape delim [] = []"
| "escape delim (c # s) =
     (if c = delim \<or> c = CHR 0x5C then [CHR 0x5C, c] else [c]) @ escape delim s"

fun join :: "char \<Rightarrow> string list \<Rightarrow> string" where
  "join delim [] = []"
| "join delim [s] = s"
| "join delim (s # ss) = s @ delim # join delim ss"

lemma escape_append [simp]: "escape d (s @ t) = escape d s @ escape d t"
  by (induction s) auto

lemma splitLoop_cons:
  "c \<noteq> CHR 0x5C \<Longrightarrow> c \<noteq> delim \<Longrightarrow> splitLoop delim buf (c # s) = splitLoop delim (buf @ [c]) s"
  by (cases s) auto

lemma splitLoop_delim:
  "delim \<noteq> CHR 0x5C \<Longrightarrow> splitLoop delim buf (delim # s) = buf # splitLoop delim [] s"
  by (cases s) auto

lemma splitFirstLoop_cons:
  "c \<noteq> CHR 0x5C \<Longrightarrow> c \<noteq> delim \<Longrightarrow>
   splitFirstLoop delim buf (c # s) = splitFirstLoop delim (buf @ [c]) s"
  by (cases s) auto

lemma splitFirstLoop_delim:
  "delim \<noteq> CHR 0x5C \<Longrightarrow> splitFirstLoop delim buf (delim # s) = (buf, True, s)"
  by (cases s) auto

lemma splitLoop_escape:
  "delim \<noteq> CHR 0x5C \<Longrightarrow> splitLoop delim buf (escape delim s @ r) = splitLoop delim (buf @ s) r"
  by (induction s arbitrary: buf) (auto simp: splitLoop_cons)

lemma splitFirstLoop_escape:
  "delim \<noteq> CHR 0x5C \<Longrightarrow>
   splitFirstLoop delim buf (escape delim s @ r) = splitFirstLoop delim (buf @ s) r"
  by (induction s arbitrary: buf) (auto simp: splitFirstLoop_cons)

lemma splitUnescaped_join:
  assumes "delim \<noteq> CHR 0x5C" "parts \<noteq> []"
  shows "splitUnescaped (join delim (map (escape delim) parts)) delim = parts"
proof -
  have "splitLoop delim buf (join delim (map (escape delim) (p # ps))) = (buf @ p) # ps" for buf p ps
  proof (induction ps arbitrary: buf p)
    case Nil
    show ?case using splitLoop_escape [OF assms(1), of buf p "[]"] by simp
  next
    case (Cons q qs)
    then show ?case
      using assms(1) by (simp add: splitLoop_escape splitLoop_delim)
  qed
  with assms(2) show ?thesis by (cases parts) (auto simp: splitUnescaped_def)
qed

lemma splitFirstUnescaped_escape:
  assumes "delim \<noteq> CHR 0x5C"
  shows "splitFirstUnescaped (escape delim s) delim = (s, False, [])"
    and "splitFirstUnescaped (escape delim s @ delim # r) delim = (s, True, r)"
  using splitFirstLoop_escape [OF assms, of "[]" s "[]"]
    splitFirstLoop_escape [OF assms, of "[]" s "delim # r"]
  by (simp_all add: splitFirstUnescaped_def splitFirstLoop_delim [OF assms])

section \<open>Round trips of numbers\<close>

lemma of_char_digit: "d < 10 \<Longrightarrow> (of_char (digit d) :: nat) = 48 + d"
  by (simp add: digit_def of_char_of)

lemma is_digit_digit: "d < 10 \<Longrightarrow> is_digit (digit d)"
  by (simp add: is_digit_def of_char_digit)

lemma show_nat_digits: "list_all is_digit (show_nat n) \<and> show_nat n \<noteq> []"
proof (induction n rule: show_nat.induct)
  case (1 n)
  then show ?case
    by (subst (1 2) show_nat.simps) (simp add: is_digit_digit)
qed

lemma digits_value_show_nat: "digits_value (show_nat n) = n"
proof (induction n rule: show_nat.induct)
  case (1 n)
  show ?case
  proof (cases "n < 10")
    case True
    then show ?thesis by (subst show_nat.simps) (simp add: digits_value_def of_char_digit)
  next
    case False
    with 1 show ?thesis
      by (subst show_nat.simps) (simp add: digits_value_def of_char_digit)
  qed
qed

lemma atoi_show_nat:
  assumes "int n < 2 ^ 63"
  shows "atoi (show_nat n) = Some (int n)"
proof -
  obtain c cs where s: "show_nat n = c # cs" using show_nat_digits [of n] by (cases "show_nat n") auto
  then have "is_digit c" using show_nat_digits [of n] by simp
  then have "c \<noteq> CHR ''-''" "c \<noteq> CHR ''+''" by (auto simp: is_digit_def)
  with s assms show_nat_digits [of n] digits_value_show_nat [of n] show ?thesis
    by (simp add: atoi_def)
qed

lemma plain_escape: "delim \<notin> set s \<Longrightarrow> CHR 0x5C \<notin> set s \<Longrightarrow> escape delim s = s"
  by (induction s) auto

section \<open>Printing and parsing expressions\<close>

text \<open>A segment as written: a key pattern and possibly a value pattern.\<close>

type_synonym segment_text = "string \<times> string option"

definition segment_string :: "segment_text \<Rightarrow> string" where
  "segment_string kv = escape CHR ''='' (fst kv) @
     (case snd kv of None \<Rightarrow> [] | Some v \<Rightarrow> CHR ''='' # v)"

definition expression_string :: "segment_text list \<Rightarrow> string" where
  "expression_string kvs = join CHR ''/'' (map (escape CHR ''/'') (map segment_string kvs))"

text \<open>What such an expression means: each pattern compiled, anchored, the first failure reported.\<close>

definition compile_segment :: "compiler \<Rightarrow> segment_text \<Rightarrow> (expr_error, Segment) result" where
  "compile_segment compile kv =
     (case compile (anchored (fst kv)) of
        None \<Rightarrow> Err (BadKeyRegexp (fst kv))
      | Some k \<Rightarrow>
          (case snd kv of
             None \<Rightarrow> Ok \<lparr>KeyRe = k, ValueRe = None\<rparr>
           | Some v \<Rightarrow>
               (case compile (anchored v) of
                  None \<Rightarrow> Err (BadValueRegexp v)
                | Some w \<Rightarrow> Ok \<lparr>KeyRe = k, ValueRe = Some w\<rparr>)))"

primrec compile_segments :: "compiler \<Rightarrow> segment_text list \<Rightarrow> (expr_error, Segment list) result" where
  "compile_segments compile [] = Ok []"
| "compile_segments compile (kv # kvs) =
     rbind (compile_segment compile kv) (\<lambda>s.
     rbind (compile_segments compile kvs) (\<lambda>ss. Ok (s # ss)))"

lemma parsePart_string: "parsePart compile (segment_string kv) = compile_segment compile kv"
  using splitFirstUnescaped_escape [of "CHR ''=''" "fst kv"]
  by (cases "snd kv")
     (auto simp: parsePart_def compile_segment_def segment_string_def split: option.splits)

lemma escape_eq_Nil [simp]: "escape d s = [] \<longleftrightarrow> s = []"
  by (cases s) auto

lemma parseParts_strings:
  "\<forall>kv \<in> set kvs. kv \<noteq> ([], None) \<Longrightarrow>
   parseParts compile (map segment_string kvs) = compile_segments compile kvs"
proof (induction kvs)
  case (Cons kv kvs)
  have "segment_string kv \<noteq> []"
    using Cons.prems by (cases kv) (auto simp: segment_string_def split: option.splits)
  with Cons show ?case by (simp add: parsePart_string)
qed simp

lemma compile_segments_length: "compile_segments compile kvs = Ok ss \<Longrightarrow> length ss = length kvs"
  by (induction kvs arbitrary: ss) (auto simp: rbind_Ok_iff)

lemma ParseExpression_string:
  assumes "kvs \<noteq> []" "\<forall>kv \<in> set kvs. kv \<noteq> ([], None)"
  shows "ParseExpression compile (expression_string kvs) = compile_segments compile kvs"
proof -
  have "splitUnescaped (expression_string kvs) CHR ''/'' = map segment_string kvs"
    unfolding expression_string_def by (rule splitUnescaped_join) (use assms in auto)
  then show ?thesis
    using assms compile_segments_length [of compile kvs]
    by (cases "compile_segments compile kvs") (auto simp: ParseExpression_def parseParts_strings)
qed

lemma ParseExpression_nonempty: "ParseExpression compile e = Ok segs \<Longrightarrow> segs \<noteq> []"
  by (auto simp: ParseExpression_def rbind_Ok_iff split: if_splits)

section \<open>Continuations\<close>

text \<open>What \<open>fixupWindow\<close> writes: the base expression, \<open>@\<close> and the index.\<close>

definition continuation :: "string \<Rightarrow> nat \<Rightarrow> string" where
  "continuation base n = base @ ''@'' @ show_nat n"

lemma SplitResumeSuffix_escaped:
  "int n < 2 ^ 63 \<Longrightarrow>
   SplitResumeSuffix (continuation (escape CHR ''@'' base) n) = (base, int n)"
  using splitFirstUnescaped_escape(2) [of "CHR ''@''" base "show_nat n"]
  by (simp add: SplitResumeSuffix_def continuation_def atoi_show_nat)

text \<open>The expressions whose resume suffix splits off without changing them: no \<open>@\<close>, and no
  backslash before another or at the end.\<close>

fun resume_plain :: "string \<Rightarrow> bool" where
  "resume_plain [] = True"
| "resume_plain [c] = (c \<noteq> CHR ''@'' \<and> c \<noteq> CHR 0x5C)"
| "resume_plain (c # d # s) = (c \<noteq> CHR ''@'' \<and> \<not> (c = CHR 0x5C \<and> d = CHR 0x5C) \<and> resume_plain (d # s))"

lemma resume_plainI: "CHR ''@'' \<notin> set s \<Longrightarrow> CHR 0x5C \<notin> set s \<Longrightarrow> resume_plain s"
  by (induction s rule: resume_plain.induct) auto

lemma splitFirstLoop_plain:
  "resume_plain s \<Longrightarrow> splitFirstLoop (CHR ''@'') buf s = (buf @ s, False, [])"
  "resume_plain s \<Longrightarrow> splitFirstLoop (CHR ''@'') buf (s @ CHR ''@'' # r) = (buf @ s, True, r)"
proof (induction s arbitrary: buf rule: resume_plain.induct)
  case (2 c)
  {
    case 1
    with 2 show ?case by simp
  next
    case 2
    then show ?case by (cases r) auto
  }
next
  case (3 c d s)
  {
    case 1
    with 3 show ?case by (cases s) auto
  next
    case 2
    have at: "splitFirstLoop (CHR ''@'') buf (CHR ''@'' # r) = (buf, True, r)" for buf by (cases r) auto
    from 2 3 show ?case by (cases s) (auto simp: at)
  }
qed (cases r; simp)+

lemma SplitResumeSuffix_plain:
  assumes "resume_plain base"
  shows "SplitResumeSuffix base = (base, 0)"
    and "int n < 2 ^ 63 \<Longrightarrow> SplitResumeSuffix (continuation base n) = (base, int n)"
  using splitFirstLoop_plain(1) [OF assms, of "[]"] splitFirstLoop_plain(2) [OF assms, of "[]" "show_nat n"]
  by (simp_all add: SplitResumeSuffix_def splitFirstUnescaped_def continuation_def atoi_show_nat)

end
