(* ===== verification/Node_Store.thy ===== *)
theory Node_Store
  imports Match_Expr Wire_Types
begin

text \<open>
  The shared node graph of \<open>internal/tree/tree.go\<close>: a store from addresses to nodes, with child and
  parent pointers as the code has them, the primitive mutations, and the change broadcast. An
  operation runs under the tree's lock, so it is one function of the state.
\<close>

section \<open>State\<close>

record tnode =
  tn_Key :: string
  tn_Value :: NodeValue
  tn_Children :: "nat list"
  tn_Parent :: "nat option"
  tn_id :: u64

text \<open>\<open>fresh\<close> is the first unused address; \<open>changeCh\<close> numbers the current broadcast channel, those
  below it are closed.\<close>

record Tree =
  nodes :: "nat \<Rightarrow> tnode"
  fresh :: nat
  Root :: nat
  nextNodeID :: u64
  changeGen :: u64
  changeCh :: nat

abbreviation Key :: "Tree \<Rightarrow> nat \<Rightarrow> string" where "Key t n \<equiv> tn_Key (nodes t n)"
abbreviation Value :: "Tree \<Rightarrow> nat \<Rightarrow> NodeValue" where "Value t n \<equiv> tn_Value (nodes t n)"
abbreviation Children :: "Tree \<Rightarrow> nat \<Rightarrow> nat list" where "Children t n \<equiv> tn_Children (nodes t n)"
abbreviation Parent :: "Tree \<Rightarrow> nat \<Rightarrow> nat option" where "Parent t n \<equiv> tn_Parent (nodes t n)"

definition NewTree :: Tree where
  "NewTree = \<lparr>nodes = (\<lambda>_. \<lparr>tn_Key = ''/'', tn_Value = ValueNoValue, tn_Children = [],
                tn_Parent = None, tn_id = 0\<rparr>),
     fresh = 1, Root = 0, nextNodeID = 0, changeGen = 0, changeCh = 0\<rparr>"

section \<open>Primitive mutations\<close>

definition update :: "nat \<Rightarrow> (tnode \<Rightarrow> tnode) \<Rightarrow> Tree \<Rightarrow> Tree" where
  "update n f t = t\<lparr>nodes := (nodes t)(n := f (nodes t n))\<rparr>"

definition setChildren :: "nat \<Rightarrow> nat list \<Rightarrow> Tree \<Rightarrow> Tree" where
  "setChildren n cs = update n (\<lambda>x. x\<lparr>tn_Children := cs\<rparr>)"

definition setParent :: "nat \<Rightarrow> nat option \<Rightarrow> Tree \<Rightarrow> Tree" where
  "setParent n p = update n (\<lambda>x. x\<lparr>tn_Parent := p\<rparr>)"

definition setValue :: "nat \<Rightarrow> NodeValue \<Rightarrow> Tree \<Rightarrow> Tree" where
  "setValue n v = update n (\<lambda>x. x\<lparr>tn_Value := v\<rparr>)"

text \<open>\<open>\&Node\{Key: key, Value: value\}\<close>\<close>

definition allocNode :: "string \<Rightarrow> NodeValue \<Rightarrow> Tree \<Rightarrow> nat \<times> Tree" where
  "allocNode key value t =
     (fresh t, t\<lparr>nodes := (nodes t)(fresh t := \<lparr>tn_Key = key, tn_Value = value, tn_Children = [],
                                              tn_Parent = None, tn_id = 0\<rparr>),
                fresh := fresh t + 1\<rparr>)"

definition AppendChild :: "nat \<Rightarrow> nat \<Rightarrow> Tree \<Rightarrow> Tree" where
  "AppendChild parent child t =
     (let t = t\<lparr>nextNodeID := nextNodeID t + 1\<rparr>;
          t = update child (\<lambda>x. x\<lparr>tn_id := nextNodeID t\<rparr>) t;
          t = setParent child (Some parent) t
      in setChildren parent (Children t parent @ [child]) t)"

fun indexLoop :: "nat \<Rightarrow> nat \<Rightarrow> nat list \<Rightarrow> int" where
  "indexLoop i child [] = -1"
| "indexLoop i child (c # cs) = (if c = child then int i else indexLoop (i + 1) child cs)"

definition indexOfChild :: "Tree \<Rightarrow> nat \<Rightarrow> nat \<Rightarrow> int" where
  "indexOfChild t parent child = indexLoop 0 child (Children t parent)"

text \<open>\<open>removeChild\<close>; a child that is not there makes the slice expression panic.\<close>

definition removeChild :: "nat \<Rightarrow> nat \<Rightarrow> Tree \<Rightarrow> ('e, Tree) result" where
  "removeChild parent child t =
     (let idx = indexOfChild t parent child; cs = Children t parent in
      if idx < 0 then Panic
      else Ok (setChildren parent (take (nat idx) cs @ drop (nat idx + 1) cs) t))"

section \<open>The change broadcast\<close>

definition notifyChanged :: "Tree \<Rightarrow> Tree" where
  "notifyChanged t = t\<lparr>changeCh := changeCh t + 1, changeGen := changeGen t + 1\<rparr>"

datatype channel = Already | Chan nat

text \<open>Whether a receive on the channel returns at once.\<close>

fun ready :: "Tree \<Rightarrow> channel \<Rightarrow> bool" where
  "ready t Already = True"
| "ready t (Chan k) = (k < changeCh t)"

definition ChangedSince :: "Tree \<Rightarrow> u64 \<Rightarrow> channel \<times> u64" where
  "ChangedSince t since =
     (if since \<noteq> changeGen t then (Already, changeGen t) else (Chan (changeCh t), changeGen t))"

section \<open>Parent chains\<close>

text \<open>
  The loops that follow \<open>Parent\<close> take as many steps as there are nodes. In a well-formed tree
  (below) a chain is shorter than that, so the bound is never met (\<open>keysUp_enough\<close>,
  \<open>ancestorLoop_enough\<close>, \<open>reachableLoop_enough\<close>).
\<close>

fun keysUp :: "nat \<Rightarrow> Tree \<Rightarrow> nat \<Rightarrow> string list" where
  "keysUp 0 t n = []"
| "keysUp (Suc k) t n =
     (case Parent t n of None \<Rightarrow> [] | Some p \<Rightarrow> Key t n # keysUp k t p)"

definition NodePath :: "Tree \<Rightarrow> nat \<Rightarrow> string" where
  "NodePath t n =
     (case Parent t n of
        None \<Rightarrow> ''/''
      | Some _ \<Rightarrow> concat (map (\<lambda>k. CHR ''/'' # k) (rev (keysUp (fresh t) t n))))"

fun ancestorLoop :: "nat \<Rightarrow> Tree \<Rightarrow> nat \<Rightarrow> nat option \<Rightarrow> bool" where
  "ancestorLoop 0 t root n = False"
| "ancestorLoop (Suc k) t root None = False"
| "ancestorLoop (Suc k) t root (Some n) = (if n = root then True else ancestorLoop k t root (Parent t n))"

definition isDescendant :: "Tree \<Rightarrow> nat \<Rightarrow> nat \<Rightarrow> bool" where
  "isDescendant t root node = ancestorLoop (fresh t) t root (Parent t node)"

definition isDescendantOrSelf :: "Tree \<Rightarrow> nat \<Rightarrow> nat \<Rightarrow> bool" where
  "isDescendantOrSelf t root node = (root = node \<or> isDescendant t root node)"

fun reachableLoop :: "nat \<Rightarrow> Tree \<Rightarrow> nat \<Rightarrow> bool" where
  "reachableLoop 0 t n = False"
| "reachableLoop (Suc k) t n =
     (if n = Root t then True
      else case Parent t n of
             None \<Rightarrow> False
           | Some p \<Rightarrow> if indexOfChild t p n < 0 then False else reachableLoop k t p)"

definition IsReachable :: "Tree \<Rightarrow> nat \<Rightarrow> bool" where
  "IsReachable t n = reachableLoop (fresh t) t n"

section \<open>Creating nodes\<close>

fun findKey :: "Tree \<Rightarrow> string \<Rightarrow> nat list \<Rightarrow> nat option" where
  "findKey t key [] = None"
| "findKey t key (c # cs) = (if Key t c = key then Some c else findKey t key cs)"

fun ensurePathLocked :: "nat \<Rightarrow> string list \<Rightarrow> Tree \<Rightarrow> nat \<times> Tree" where
  "ensurePathLocked cur [] t = (cur, t)"
| "ensurePathLocked cur (key # keys) t =
     (case findKey t key (Children t cur) of
        Some found \<Rightarrow> ensurePathLocked found keys t
      | None \<Rightarrow>
          (let (found, t) = allocNode key ValueNoValue t
           in ensurePathLocked found keys (AppendChild cur found t)))"

definition EnsurePath :: "string list \<Rightarrow> Tree \<Rightarrow> nat \<times> Tree" where
  "EnsurePath keys t = ensurePathLocked (Root t) keys t"

definition EnsurePath0 :: "nat \<Rightarrow> string list \<Rightarrow> Tree \<Rightarrow> nat \<times> Tree" where
  "EnsurePath0 start keys t = ensurePathLocked start keys t"

definition AppendUnder :: "nat \<Rightarrow> string \<Rightarrow> NodeValue \<Rightarrow> Tree \<Rightarrow> nat \<times> Tree" where
  "AppendUnder parent key value t =
     (let (n, t) = allocNode key value t in (n, notifyChanged (AppendChild parent n t)))"

section \<open>Well-formed trees\<close>

text \<open>
  The root exists and has no parent; pointers stay inside the store; a node's children are distinct
  and name it as their parent (a detached node keeps its parent pointer, so the converse need not
  hold); no node is its own ancestor; each node's \<open>id\<close> is its own.
\<close>

definition parents_acyclic :: "Tree \<Rightarrow> bool" where
  "parents_acyclic t \<longleftrightarrow> (\<exists>rank :: nat \<Rightarrow> nat. \<forall>n p. Parent t n = Some p \<longrightarrow> rank p < rank n)"

definition wf_tree :: "Tree \<Rightarrow> bool" where
  "wf_tree t \<longleftrightarrow> Root t < fresh t \<and> Parent t (Root t) = None \<and>
     (\<forall>n \<ge> fresh t. Children t n = [] \<and> Parent t n = None) \<and>
     (\<forall>n p. Parent t n = Some p \<longrightarrow> p < fresh t) \<and>
     (\<forall>n. distinct (Children t n) \<and> (\<forall>c \<in> set (Children t n). Parent t c = Some n)) \<and>
     parents_acyclic t"

named_theorems store_simps \<open>reading the store after a mutation\<close>

lemma update_simps [simp, store_simps]:
  "nodes (update n f t) = (nodes t)(n := f (nodes t n))"
  "fresh (update n f t) = fresh t" "Root (update n f t) = Root t"
  "nextNodeID (update n f t) = nextNodeID t" "changeGen (update n f t) = changeGen t"
  "changeCh (update n f t) = changeCh t"
  by (simp_all add: update_def)

lemma setters [simp, store_simps]:
  "nodes (setChildren n cs t) = (nodes t)(n := (nodes t n)\<lparr>tn_Children := cs\<rparr>)"
  "nodes (setParent n p t) = (nodes t)(n := (nodes t n)\<lparr>tn_Parent := p\<rparr>)"
  "nodes (setValue n v t) = (nodes t)(n := (nodes t n)\<lparr>tn_Value := v\<rparr>)"
  "fresh (setChildren n cs t) = fresh t" "fresh (setParent n p t) = fresh t"
  "fresh (setValue n v t) = fresh t"
  "Root (setChildren n cs t) = Root t" "Root (setParent n p t) = Root t" "Root (setValue n v t) = Root t"
  by (simp_all add: setChildren_def setParent_def setValue_def)

lemma notifyChanged_simps [simp, store_simps]:
  "nodes (notifyChanged t) = nodes t" "fresh (notifyChanged t) = fresh t" "Root (notifyChanged t) = Root t"
  by (simp_all add: notifyChanged_def)

lemma allocNode_simps [simp]:
  "fst (allocNode k v t) = fresh t"
  "nextNodeID (snd (allocNode k v t)) = nextNodeID t"
  "fresh (snd (allocNode k v t)) = fresh t + 1" "Root (snd (allocNode k v t)) = Root t"
  "nodes (snd (allocNode k v t)) =
     (nodes t)(fresh t := \<lparr>tn_Key = k, tn_Value = v, tn_Children = [], tn_Parent = None, tn_id = 0\<rparr>)"
  by (simp_all add: allocNode_def)

lemma AppendChild_simps [simp]:
  "fresh (AppendChild p c t) = fresh t" "Root (AppendChild p c t) = Root t"
  "p \<noteq> c \<Longrightarrow> nodes (AppendChild p c t) =
     (nodes t)(c := (nodes t c)\<lparr>tn_id := nextNodeID t + 1, tn_Parent := Some p\<rparr>,
               p := (nodes t p)\<lparr>tn_Children := Children t p @ [c]\<rparr>)"
  by (auto simp: AppendChild_def Let_def fun_upd_twist)

lemma indexLoop_neg: "indexLoop i c cs < 0 \<longleftrightarrow> c \<notin> set cs"
  by (induction i c cs rule: indexLoop.induct) auto

lemma indexLoop_nth:
  "c \<in> set cs \<Longrightarrow> \<exists>k < length cs. indexLoop i c cs = int (i + k) \<and> cs ! k = c \<and> c \<notin> set (take k cs)"
proof (induction i c cs rule: indexLoop.induct)
  case (2 i child c cs)
  show ?case
  proof (cases "c = child")
    case True
    then show ?thesis by (intro exI [of _ 0]) simp
  next
    case False
    with 2 obtain k where "k < length cs" "indexLoop (i + 1) child cs = int (i + 1 + k)"
      "cs ! k = child" "child \<notin> set (take k cs)" by auto
    with False show ?thesis by (intro exI [of _ "Suc k"]) simp
  qed
qed simp

lemma indexOfChild_neg: "indexOfChild t p c < 0 \<longleftrightarrow> c \<notin> set (Children t p)"
  by (simp add: indexOfChild_def indexLoop_neg)

lemma indexOfChild_nth:
  assumes "c \<in> set (Children t p)"
  obtains k where "k < length (Children t p)" "indexOfChild t p c = int k" "Children t p ! k = c"
    "c \<notin> set (take k (Children t p))"
  using indexLoop_nth [OF assms, of 0] by (auto simp: indexOfChild_def)

end
