(* ===== verification/Node_Chains.thy ===== *)
theory Node_Chains
  imports Node_Store
begin

text \<open>
  Parent chains of well-formed trees: they are shorter than the store, so the bounded loops of
  \<open>Node_Store\<close> compute what the unbounded Go loops do; descendants as a transitive closure;
  reachability from the root as an inductive relation; and which mutations keep a tree
  well-formed.
\<close>

section \<open>Chains end\<close>

fun anc :: "Tree \<Rightarrow> nat \<Rightarrow> nat \<Rightarrow> nat option" where
  "anc t 0 n = Some n"
| "anc t (Suc k) n = (case Parent t n of None \<Rightarrow> None | Some p \<Rightarrow> anc t k p)"

lemma wf_treeD:
  assumes "wf_tree t"
  shows "Root t < fresh t" "Parent t (Root t) = None"
    and "fresh t \<le> n \<Longrightarrow> Children t n = []" "fresh t \<le> n \<Longrightarrow> Parent t n = None"
    and "Parent t n = Some p \<Longrightarrow> p < fresh t" "Parent t n = Some p \<Longrightarrow> n < fresh t"
    and "distinct (Children t n)" "c \<in> set (Children t n) \<Longrightarrow> Parent t c = Some n"
proof -
  have wf: "Root t < fresh t" "Parent t (Root t) = None"
    "\<And>n. fresh t \<le> n \<Longrightarrow> Children t n = [] \<and> Parent t n = None"
    "\<And>n p. Parent t n = Some p \<Longrightarrow> p < fresh t"
    "\<And>n. distinct (Children t n)" "\<And>n c. c \<in> set (Children t n) \<Longrightarrow> Parent t c = Some n"
    using assms unfolding wf_tree_def by blast+
  show "Root t < fresh t" "Parent t (Root t) = None" by (rule wf)+
  show "fresh t \<le> n \<Longrightarrow> Children t n = []" "fresh t \<le> n \<Longrightarrow> Parent t n = None"
    using wf(3) by blast+
  show "Parent t n = Some p \<Longrightarrow> p < fresh t" by (rule wf)
  show "Parent t n = Some p \<Longrightarrow> n < fresh t" using wf(3) [of n] by (cases "n < fresh t") auto
  show "distinct (Children t n)" "c \<in> set (Children t n) \<Longrightarrow> Parent t c = Some n"
    using wf by blast+
qed

lemma wf_child_lt: "wf_tree t \<Longrightarrow> c \<in> set (Children t n) \<Longrightarrow> c < fresh t \<and> n < fresh t"
  using wf_treeD(5,6,8) by blast

lemma anc_lt:
  assumes "wf_tree t" "n < fresh t" "anc t k n = Some m"
  shows "m < fresh t"
  using assms
proof (induction k arbitrary: n)
  case (Suc k)
  then obtain p where p: "Parent t n = Some p" "anc t k p = Some m" by (auto split: option.splits)
  then show ?case using Suc.IH wf_treeD(5) [OF assms(1)] assms(1) by blast
qed simp

lemma anc_add: "anc t (i + j) n = (case anc t i n of None \<Rightarrow> None | Some m \<Rightarrow> anc t j m)"
  by (induction i arbitrary: n) (auto split: option.splits)

lemma anc_rank:
  assumes "\<forall>n p. Parent t n = Some p \<longrightarrow> rank p < rank n" "anc t k n = Some m"
  shows "rank m + k \<le> rank n"
  using assms(2)
proof (induction k arbitrary: n)
  case (Suc k)
  then obtain p where p: "Parent t n = Some p" "anc t k p = Some m" by (auto split: option.splits)
  have "rank p < rank n" using p(1) assms(1) by blast
  then show ?case using Suc.IH [OF p(2)] by simp
qed simp

lemma chain_short:
  assumes wf: "wf_tree t" and n: "n < fresh t"
  shows "anc t (fresh t) n = None"
proof (rule ccontr)
  assume some: "anc t (fresh t) n \<noteq> None"
  define a where "a k = the (anc t k n)" for k
  have anc: "anc t k n = Some (a k)" if "k \<le> fresh t" for k
    using some anc_add [of t k "fresh t - k" n] that by (auto simp: a_def split: option.splits)
  obtain rank :: "nat \<Rightarrow> nat" where rank: "\<forall>n p. Parent t n = Some p \<longrightarrow> rank p < rank n"
    using wf unfolding wf_tree_def parents_acyclic_def by blast
  have dec: "rank (a j) < rank (a i)" if "i < j" "j \<le> fresh t" for i j
  proof -
    have "anc t (j - i) (a i) = Some (a j)"
      using anc_add [of t i "j - i" n] anc [of i] anc [of j] that by simp
    from anc_rank [OF rank this] that show ?thesis by simp
  qed
  have "inj_on a {..fresh t}"
  proof (rule inj_onI)
    fix i j
    assume "i \<in> {..fresh t}" "j \<in> {..fresh t}" "a i = a j"
    then show "i = j" using dec [of i j] dec [of j i] by (cases i j rule: linorder_cases) auto
  qed
  then have "card (a ` {..fresh t}) = Suc (fresh t)" by (simp add: card_image)
  moreover have "a ` {..fresh t} \<subseteq> {..<fresh t}"
    using anc_lt [OF wf n] anc by auto
  then have "card (a ` {..fresh t}) \<le> fresh t" using card_mono [of "{..<fresh t}"] by fastforce
  ultimately show False by simp
qed

lemma chain_short_le:
  assumes "wf_tree t" "n < fresh t" "fresh t \<le> k"
  shows "anc t k n = None"
  using chain_short [OF assms(1,2)] anc_add [of t "fresh t" "k - fresh t" n] assms(3) by simp

lemma keysUp_stable: "anc t k n = None \<Longrightarrow> k \<le> l \<Longrightarrow> keysUp l t n = keysUp k t n"
proof (induction k arbitrary: n l)
  case (Suc k)
  then obtain l' where l: "l = Suc l'" "k \<le> l'" by (cases l) auto
  show ?case
  proof (cases "Parent t n")
    case (Some p)
    then have "anc t k p = None" using Suc.prems(1) by simp
    from Suc.IH [OF this l(2)] Some show ?thesis by (simp add: l)
  qed (simp add: l)
qed simp

lemma keysUp_enough:
  "wf_tree t \<Longrightarrow> n < fresh t \<Longrightarrow> fresh t \<le> k \<Longrightarrow> keysUp k t n = keysUp (fresh t) t n"
  by (rule keysUp_stable [OF chain_short])

section \<open>Paths\<close>

lemma NodePath_child:
  assumes "wf_tree t" "Parent t c = Some p"
  shows "NodePath t c = (if Parent t p = None then [] else NodePath t p) @ CHR ''/'' # Key t c"
proof -
  have lt: "p < fresh t" using wf_treeD(5) [OF assms] .
  obtain k where k: "fresh t = Suc k" using lt by (cases "fresh t") auto
  have "anc t (fresh t) c = None" using chain_short [OF assms(1)] wf_treeD(6) [OF assms] by blast
  then have "anc t k p = None" using assms(2) k by simp
  then have "keysUp k t p = keysUp (fresh t) t p" using keysUp_stable [of t k p "fresh t"] k by simp
  then have up: "keysUp (fresh t) t c = Key t c # keysUp (fresh t) t p"
    using assms(2) k by simp
  have "keysUp (fresh t) t p = []" if "Parent t p = None" using that k by simp
  with up assms(2) show ?thesis by (cases "Parent t p") (simp_all add: NodePath_def)
qed

lemma NodePath_root: "wf_tree t \<Longrightarrow> NodePath t (Root t) = ''/''"
  by (simp add: NodePath_def wf_treeD(2))

section \<open>Descendants\<close>

definition parent_rel :: "Tree \<Rightarrow> (nat \<times> nat) set" where
  "parent_rel t = {(c, p). Parent t c = Some p}"

lemma parent_rtrancl: "(n, root) \<in> (parent_rel t)\<^sup>* \<longleftrightarrow>
    n = root \<or> (\<exists>p. Parent t n = Some p \<and> (p, root) \<in> (parent_rel t)\<^sup>*)"
  by (auto simp: parent_rel_def elim: converse_rtranclE intro: converse_rtrancl_into_rtrancl)

lemma parent_trancl: "(n, root) \<in> (parent_rel t)\<^sup>+ \<longleftrightarrow>
    (\<exists>p. Parent t n = Some p \<and> (p, root) \<in> (parent_rel t)\<^sup>*)"
  unfolding trancl_unfold_left by (auto simp: parent_rel_def)

lemma ancestorLoop_iff:
  assumes "case x of None \<Rightarrow> True | Some n \<Rightarrow> anc t k n = None"
  shows "ancestorLoop k t root x \<longleftrightarrow> (\<exists>n. x = Some n \<and> (n, root) \<in> (parent_rel t)\<^sup>*)"
  using assms
proof (induction k t root x rule: ancestorLoop.induct)
  case (3 k t root n)
  show ?case
  proof (cases "n = root")
    case False
    have "case Parent t n of None \<Rightarrow> True | Some p \<Rightarrow> anc t k p = None"
      using "3.prems" by (simp split: option.splits)
    from "3.IH" [OF False this] False parent_rtrancl [of n root t] show ?thesis by auto
  qed simp
qed (simp_all split: option.splits)

lemma isDescendant_iff:
  assumes "wf_tree t"
  shows "isDescendant t root n \<longleftrightarrow> (n, root) \<in> (parent_rel t)\<^sup>+"
proof -
  have "case Parent t n of None \<Rightarrow> True | Some p \<Rightarrow> anc t (fresh t) p = None"
    using chain_short [OF assms] wf_treeD(5) [OF assms] by (auto split: option.splits)
  from ancestorLoop_iff [OF this, of root] show ?thesis
    unfolding isDescendant_def parent_trancl .
qed

lemma descendant_irrefl:
  assumes "wf_tree t"
  shows "(n, n) \<notin> (parent_rel t)\<^sup>+"
proof -
  obtain rank :: "nat \<Rightarrow> nat" where rank: "\<forall>n p. Parent t n = Some p \<longrightarrow> rank p < rank n"
    using assms unfolding wf_tree_def parents_acyclic_def by blast
  have "rank m < rank n" if "(n, m) \<in> (parent_rel t)\<^sup>+" for n m
    using that by (induction rule: trancl_induct) (auto simp: parent_rel_def dest: rank [rule_format])
  then show ?thesis by blast
qed

section \<open>Reachability\<close>

inductive reachable :: "Tree \<Rightarrow> nat \<Rightarrow> bool" for t where
  root: "reachable t (Root t)"
| child: "reachable t p \<Longrightarrow> c \<in> set (Children t p) \<Longrightarrow> reachable t c"

inductive_cases reachableE: "reachable t n"

lemma reachable_lt:
  assumes "wf_tree t" "reachable t n"
  shows "n < fresh t"
  using assms(2) by induction (use assms(1) in \<open>auto dest: wf_treeD(1) wf_child_lt\<close>)

lemma reachable_parent:
  assumes "wf_tree t" "reachable t n" "n \<noteq> Root t"
  shows "\<exists>p. Parent t n = Some p \<and> n \<in> set (Children t p) \<and> reachable t p"
  using assms(2,3) by (cases rule: reachable.cases) (auto dest: wf_treeD(8) [OF assms(1)])

lemma reachableLoop_sound: "reachableLoop k t n \<Longrightarrow> reachable t n"
proof (induction k arbitrary: n)
  case (Suc k)
  then show ?case
    by (auto simp: indexOfChild_neg intro: reachable.intros split: if_splits option.splits)
qed simp

lemma reachableLoop_complete:
  assumes "wf_tree t" "reachable t n" "anc t k n = None"
  shows "reachableLoop k t n"
  using assms(2,3)
proof (induction k arbitrary: n)
  case (Suc k)
  show ?case
  proof (cases "n = Root t")
    case False
    from reachable_parent [OF assms(1) Suc.prems(1) False] obtain p where
      "Parent t n = Some p" "n \<in> set (Children t p)" "reachable t p" by blast
    with Suc False show ?thesis by (simp add: indexOfChild_neg not_less)
  qed simp
qed simp

lemma IsReachable_iff: "wf_tree t \<Longrightarrow> IsReachable t n \<longleftrightarrow> reachable t n"
  unfolding IsReachable_def
  by (blast intro: reachableLoop_sound reachableLoop_complete chain_short reachable_lt)

section \<open>Mutations that keep a tree well-formed\<close>

lemma NewTree_wf: "wf_tree NewTree"
  by (auto simp: wf_tree_def NewTree_def parents_acyclic_def)

lemma wf_notifyChanged [simp]: "wf_tree (notifyChanged t) = wf_tree t"
  by (simp add: wf_tree_def parents_acyclic_def)

lemma reachable_notify [simp]: "reachable (notifyChanged t) n = reachable t n"
proof
  show "reachable (notifyChanged t) n \<Longrightarrow> reachable t n"
    by (induction rule: reachable.induct) (auto intro: reachable.intros)
  show "reachable t n \<Longrightarrow> reachable (notifyChanged t) n"
  proof (induction rule: reachable.induct)
    case root
    show ?case using reachable.root [of "notifyChanged t"] by simp
  qed (auto intro: reachable.child)
qed

lemma wf_same_shape:
  assumes "\<And>n. Parent u n = Parent t n" "\<And>n. Children u n = Children t n"
    and "fresh u = fresh t" "Root u = Root t"
  shows "wf_tree u = wf_tree t"
  unfolding wf_tree_def parents_acyclic_def assms ..

lemma wf_setValue [simp]: "wf_tree (setValue n v t) = wf_tree t"
  by (rule wf_same_shape) simp_all

text \<open>Allocating a node and appending it, as every creation does.\<close>

definition addNode :: "nat \<Rightarrow> string \<Rightarrow> NodeValue \<Rightarrow> Tree \<Rightarrow> Tree" where
  "addNode p k v t = AppendChild p (fresh t) (snd (allocNode k v t))"

lemma addNode_simps:
  "p < fresh t \<Longrightarrow> nodes (addNode p k v t) =
     (nodes t)(fresh t := \<lparr>tn_Key = k, tn_Value = v, tn_Children = [], tn_Parent = Some p,
                           tn_id = nextNodeID t + 1\<rparr>,
               p := (nodes t p)\<lparr>tn_Children := Children t p @ [fresh t]\<rparr>)"
  "fresh (addNode p k v t) = fresh t + 1" "Root (addNode p k v t) = Root t"
  by (simp_all add: addNode_def)

lemma wf_addNode:
  assumes wf: "wf_tree t" and p: "p < fresh t"
  shows "wf_tree (addNode p k v t)"
proof -
  let ?t = "addNode p k v t"
  note D = wf_treeD [OF wf]
  obtain rank :: "nat \<Rightarrow> nat" where rank: "\<forall>n p. Parent t n = Some p \<longrightarrow> rank p < rank n"
    using wf unfolding wf_tree_def parents_acyclic_def by blast
  have par: "Parent ?t n = (if n = fresh t then Some p else Parent t n)" for n
    using p by (simp add: addNode_simps)
  have ch: "Children ?t n = (if n = p then Children t p @ [fresh t] else if n = fresh t then [] else Children t n)" for n
    using p by (simp add: addNode_simps)
  have new: "fresh t \<notin> set (Children t n)" for n using wf_child_lt [OF wf, of "fresh t" n] by blast
  have "parents_acyclic ?t"
    unfolding parents_acyclic_def par
  proof (intro exI allI impI)
    fix n q
    assume q: "(if n = fresh t then Some p else Parent t n) = Some q"
    show "(rank (fresh t := Suc (rank p))) q < (rank (fresh t := Suc (rank p))) n"
      using q p D(5) [of n q] rank by (auto split: if_splits)
  qed
  moreover have "distinct (Children ?t n) \<and> (\<forall>c \<in> set (Children ?t n). Parent ?t c = Some n)" for n
  proof (cases "n = p")
    case True
    have "c \<in> set (Children t p) \<Longrightarrow> c \<noteq> fresh t \<and> Parent t c = Some p" for c
      using new [of p] D(8) by blast
    with True D(7) [of p] new [of p] show ?thesis unfolding par ch by auto
  next
    case False
    have "c \<in> set (Children t n) \<Longrightarrow> c \<noteq> fresh t \<and> Parent t c = Some n" for c
      using new [of n] D(8) by blast
    with False D(7) [of n] show ?thesis unfolding par ch by auto
  qed
  moreover have "Children ?t n = [] \<and> Parent ?t n = None" if "fresh ?t \<le> n" for n
    using that p D(3,4) [of n] unfolding par ch by (simp add: addNode_simps)
  moreover have "q < fresh ?t" if "Parent ?t n = Some q" for n q
    using that p D(5) [of n q] unfolding par by (simp add: addNode_simps split: if_splits)
  moreover have "Root ?t < fresh ?t \<and> Parent ?t (Root ?t) = None"
    using D(1,2) unfolding par by (simp add: addNode_simps)
  ultimately show ?thesis unfolding wf_tree_def by blast
qed

text \<open>Dropping children, as every relink and removal does: the nodes dropped keep their parent.\<close>

lemma wf_setChildren:
  assumes "wf_tree t" "distinct cs" "set cs \<subseteq> set (Children t p)"
  shows "wf_tree (setChildren p cs t)"
proof -
  note D = wf_treeD [OF assms(1)]
  have par: "Parent (setChildren p cs t) n = Parent t n" for n by simp
  have ch: "Children (setChildren p cs t) n = (if n = p then cs else Children t n)" for n by simp
  have "parents_acyclic (setChildren p cs t)"
    using assms(1) unfolding wf_tree_def parents_acyclic_def par by blast
  moreover have "\<forall>n. distinct (Children (setChildren p cs t) n) \<and>
      (\<forall>c \<in> set (Children (setChildren p cs t) n). Parent t c = Some n)"
    unfolding ch using assms(2,3) D(7,8) by auto
  moreover have "\<forall>n \<ge> fresh t. Children (setChildren p cs t) n = [] \<and> Parent t n = None"
    unfolding ch using assms(3) D(3,4) by auto
  ultimately show ?thesis
    using D(1,2,5) unfolding wf_tree_def par by simp
qed

end
