(* ===== verification/Evaluate.thy ===== *)
theory Evaluate
  imports Node_Chains
begin

text \<open>
  Evaluation of match expressions on behalf of an identity (\<open>evaluateAs\<close> and its callers in
  \<open>internal/tree/tree.go\<close>), and detached copies of subtrees. A \<open>Checker\<close> is its \<open>Allowed\<close> function,
  a nil one \<open>None\<close>; \<open>strconv.FormatFloat\<close> is the argument \<open>ff\<close>.
\<close>

type_synonym auth = "(Op \<Rightarrow> string \<Rightarrow> bool) option"

section \<open>Evaluation\<close>

fun valueAsText :: "(f64 \<Rightarrow> string) \<Rightarrow> NodeValue \<Rightarrow> string" where
  "valueAsText ff (ValueOctetString b) = string_of b"
| "valueAsText ff (ValueInteger32 x) = show_int (sint x)"
| "valueAsText ff (ValueUnsigned32 x) = show_nat (unat x)"
| "valueAsText ff (ValueCounter32 x) = show_nat (unat x)"
| "valueAsText ff (ValueCounter64 x) = show_nat (unat x)"
| "valueAsText ff (ValueTimeTicks x) = show_nat (unat x)"
| "valueAsText ff (ValueReal x) = ff x"
| "valueAsText ff ValueNoValue = []"

fun is_octets :: "NodeValue \<Rightarrow> bool" where
  "is_octets (ValueOctetString _) = True"
| "is_octets _ = False"

definition canRead :: "auth \<Rightarrow> Tree \<Rightarrow> nat \<Rightarrow> bool" where
  "canRead auth t n = (case auth of None \<Rightarrow> True | Some allowed \<Rightarrow> allowed OpRead (NodePath t n))"

text \<open>Whether the innermost loop body appends the child to \<open>next\<close>.\<close>

definition segmentKeeps :: "(f64 \<Rightarrow> string) \<Rightarrow> Tree \<Rightarrow> auth \<Rightarrow> Segment \<Rightarrow> bool \<Rightarrow> nat \<Rightarrow> bool" where
  "segmentKeeps ff t auth seg isLast child =
     (if \<not> KeyRe seg (Key t child) then False
      else
        let readable = canRead auth t child in
        case ValueRe seg of
          None \<Rightarrow> \<not> (isLast \<and> \<not> readable)
        | Some valueRe \<Rightarrow>
            if \<not> readable then False
            else if \<not> IsNumeric (Value t child) \<and> \<not> is_octets (Value t child) then False
            else if \<not> valueRe (valueAsText ff (Value t child)) then False
            else \<not> (isLast \<and> \<not> readable))"

fun childLoop :: "(nat \<Rightarrow> bool) \<Rightarrow> nat list \<Rightarrow> nat list" where
  "childLoop keeps [] = []"
| "childLoop keeps (child # cs) =
     (if keeps child then child # childLoop keeps cs else childLoop keeps cs)"

fun nodeLoop :: "Tree \<Rightarrow> (nat \<Rightarrow> bool) \<Rightarrow> nat list \<Rightarrow> nat list" where
  "nodeLoop t keeps [] = []"
| "nodeLoop t keeps (node # ns) = childLoop keeps (Children t node) @ nodeLoop t keeps ns"

fun segmentLoop :: "(f64 \<Rightarrow> string) \<Rightarrow> Tree \<Rightarrow> auth \<Rightarrow> Segment list \<Rightarrow> nat list \<Rightarrow> nat list" where
  "segmentLoop ff t auth [] current = current"
| "segmentLoop ff t auth (seg # segs) current =
     segmentLoop ff t auth segs (nodeLoop t (segmentKeeps ff t auth seg (segs = [])) current)"

definition evaluateAs :: "(f64 \<Rightarrow> string) \<Rightarrow> Tree \<Rightarrow> nat \<Rightarrow> Segment list \<Rightarrow> auth \<Rightarrow> nat list" where
  "evaluateAs ff t root segments auth = segmentLoop ff t auth segments [root]"

definition EvaluateExpr :: "(f64 \<Rightarrow> string) \<Rightarrow> Tree \<Rightarrow> nat \<Rightarrow> Segment list \<Rightarrow> nat list" where
  "EvaluateExpr ff t root segments = evaluateAs ff t root segments None"

section \<open>Resolution\<close>

datatype tree_error =
    BadExpression expr_error
  | NoNodeMatched
  | ManyMatched nat
  | NotAbsolute
  | ResumeOutOfRange int nat
  | PermissionDenied Op string
  | SubtreeDenied string
  | NotStaged
  | StructuralCount nat
  | WouldCycle
  | NotAChild string
  | NotASibling string
  | TargetIsRoot
  | RemovedByEarlierEdit
  | InTarget string tree_error
  | InNewFirstChild tree_error
  | InNewNextSibling tree_error
  | InNewParent tree_error
  | InParent string tree_error

type_synonym 'a tree_result = "(tree_error, 'a) result"

definition exactlyOne :: "nat list \<Rightarrow> nat tree_result" where
  "exactlyOne matches =
     (case matches of [] \<Rightarrow> Err NoNodeMatched | [n] \<Rightarrow> Ok n | _ \<Rightarrow> Err (ManyMatched (length matches)))"

definition EvaluateExactlyOne :: "(f64 \<Rightarrow> string) \<Rightarrow> Tree \<Rightarrow> nat \<Rightarrow> Segment list \<Rightarrow> nat tree_result" where
  "EvaluateExactlyOne ff t root segments = exactlyOne (EvaluateExpr ff t root segments)"

definition parse :: "compiler \<Rightarrow> string \<Rightarrow> Segment list tree_result" where
  "parse compile e = wrap_err BadExpression (ParseExpression compile e)"

definition FindOne :: "compiler \<Rightarrow> (f64 \<Rightarrow> string) \<Rightarrow> Tree \<Rightarrow> string \<Rightarrow> nat tree_result" where
  "FindOne compile ff t expression =
     rbind (parse compile expression) (\<lambda>segments. EvaluateExactlyOne ff t (Root t) segments)"

definition FindAllAs :: "compiler \<Rightarrow> (f64 \<Rightarrow> string) \<Rightarrow> Tree \<Rightarrow> string \<Rightarrow> auth \<Rightarrow> nat list tree_result" where
  "FindAllAs compile ff t expression auth =
     rbind (parse compile expression) (\<lambda>segments. Ok (evaluateAs ff t (Root t) segments auth))"

definition FindAll :: "compiler \<Rightarrow> (f64 \<Rightarrow> string) \<Rightarrow> Tree \<Rightarrow> string \<Rightarrow> nat list tree_result" where
  "FindAll compile ff t expression = FindAllAs compile ff t expression None"

definition resolveExpressionExactlyOne ::
    "compiler \<Rightarrow> (f64 \<Rightarrow> string) \<Rightarrow> Tree \<Rightarrow> string \<Rightarrow> auth \<Rightarrow> nat tree_result" where
  "resolveExpressionExactlyOne compile ff t expr auth =
     rbind (parse compile expr) (\<lambda>segments. exactlyOne (evaluateAs ff t (Root t) segments auth))"

record Sampled =
  sm_ID :: u64
  sm_Key :: string
  sm_Value :: NodeValue

definition SampleAs :: "compiler \<Rightarrow> (f64 \<Rightarrow> string) \<Rightarrow> Tree \<Rightarrow> string \<Rightarrow> auth \<Rightarrow> Sampled list tree_result" where
  "SampleAs compile ff t expression auth =
     rbind (parse compile expression) (\<lambda>segments.
       Ok (map (\<lambda>n. \<lparr>sm_ID = tn_id (nodes t n), sm_Key = Key t n, sm_Value = Value t n\<rparr>)
            (evaluateAs ff t (Root t) segments auth)))"

definition Snapshot :: "Tree \<Rightarrow> nat list \<Rightarrow> Node list" where
  "Snapshot t ns =
     map (\<lambda>n. \<lparr>nd_Key = Key t n, nd_Value = Value t n, nd_FirstChild = PointerOffset 0,
              nd_NextSibling = PointerOffset 0\<rparr>) ns"

section \<open>Detached copies\<close>

datatype vtree = VNode (vkey: string) (vvalue: NodeValue) (vchildren: "vtree list")

text \<open>
  \<open>pruneVisible\<close>: the recursion follows \<open>Children\<close>; the bound is the number of nodes, which no
  descending path of a well-formed tree reaches. With a nil checker it is the
  subtree itself, which is what the code then flattens.
\<close>

fun prune :: "nat \<Rightarrow> Tree \<Rightarrow> auth \<Rightarrow> nat \<Rightarrow> vtree" where
  "prune 0 t auth n = VNode (Key t n) (Value t n) []"
| "prune (Suc k) t auth n =
     VNode (Key t n) (Value t n) (map (prune k t auth) (filter (canRead auth t) (Children t n)))"

definition pruneVisible :: "Tree \<Rightarrow> nat \<Rightarrow> auth \<Rightarrow> vtree" where
  "pruneVisible t n auth = prune (fresh t) t auth n"

section \<open>What evaluation returns\<close>

lemma childLoop_filter: "childLoop keeps cs = filter keeps cs"
  by (induction cs) auto

lemma nodeLoop_concat: "nodeLoop t keeps ns = concat (map (\<lambda>n. filter keeps (Children t n)) ns)"
  by (induction ns) (auto simp: childLoop_filter)

text \<open>The specification: a match is reached by one child step per segment, each step's key (and,
  where the child can be read, value) matching, and the last one readable.\<close>

definition step_matches :: "(f64 \<Rightarrow> string) \<Rightarrow> Tree \<Rightarrow> auth \<Rightarrow> Segment \<Rightarrow> nat \<Rightarrow> bool" where
  "step_matches ff t auth seg c \<longleftrightarrow> KeyRe seg (Key t c) \<and>
     (case ValueRe seg of None \<Rightarrow> True
      | Some re \<Rightarrow> canRead auth t c \<and> Value t c \<noteq> ValueNoValue \<and> re (valueAsText ff (Value t c)))"

inductive matched :: "(f64 \<Rightarrow> string) \<Rightarrow> Tree \<Rightarrow> auth \<Rightarrow> Segment list \<Rightarrow> nat \<Rightarrow> nat \<Rightarrow> bool"
  for ff t auth where
  last: "c \<in> set (Children t n) \<Longrightarrow> step_matches ff t auth seg c \<Longrightarrow> canRead auth t c \<Longrightarrow>
    matched ff t auth [seg] n c"
| step: "c \<in> set (Children t n) \<Longrightarrow> step_matches ff t auth seg c \<Longrightarrow> segs \<noteq> [] \<Longrightarrow>
    matched ff t auth segs c m \<Longrightarrow> matched ff t auth (seg # segs) n m"

inductive_cases matched_NilE: "matched ff t auth [] n m"
inductive_cases matched_ConsE: "matched ff t auth (seg # segs) n m"

lemma segmentKeeps_iff: "segmentKeeps ff t auth seg isLast c \<longleftrightarrow>
    step_matches ff t auth seg c \<and> (isLast \<longrightarrow> canRead auth t c)"
  by (cases "Value t c") (auto simp: segmentKeeps_def step_matches_def Let_def split: option.splits)

lemma segmentLoop_matched:
  "segs \<noteq> [] \<Longrightarrow> m \<in> set (segmentLoop ff t auth segs ns) \<longleftrightarrow> (\<exists>n \<in> set ns. matched ff t auth segs n m)"
proof (induction segs arbitrary: ns)
  case (Cons seg segs)
  show ?case
  proof (cases "segs = []")
    case True
    then show ?thesis
      by (auto simp: nodeLoop_concat segmentKeeps_iff intro: matched.last
          elim!: matched_ConsE matched_NilE)
  next
    case False
    with Cons.IH [OF False] show ?thesis
      by (auto simp: nodeLoop_concat segmentKeeps_iff intro: matched.step
          elim!: matched_ConsE)
  qed
qed simp

lemma evaluateAs_matched:
  "segs \<noteq> [] \<Longrightarrow> m \<in> set (evaluateAs ff t r segs auth) \<longleftrightarrow> matched ff t auth segs r m"
  by (simp add: evaluateAs_def segmentLoop_matched)

lemma matched_readable: "matched ff t auth segs n m \<Longrightarrow> canRead auth t m"
  by (induction rule: matched.induct) auto

lemma matched_reachable: "matched ff t auth segs n m \<Longrightarrow> reachable t n \<Longrightarrow> reachable t m"
  by (induction rule: matched.induct) (auto intro: reachable.child)

lemma matched_has_parent:
  assumes "wf_tree t"
  shows "matched ff t auth segs n m \<Longrightarrow> \<exists>p. Parent t m = Some p \<and> m \<in> set (Children t p)"
  by (induction rule: matched.induct) (use wf_treeD(8) [OF assms] in blast)+

text \<open>Evaluation never returns a node twice.\<close>

lemma distinct_children_concat:
  assumes "wf_tree t" "distinct ns"
  shows "distinct (concat (map (\<lambda>n. filter P (Children t n)) ns))"
  using assms(2)
proof (induction ns)
  case (Cons n ns)
  have once: "m = n" if "c \<in> set (Children t n)" "c \<in> set (Children t m)" for c m
    using wf_treeD(8) [OF assms(1) that(1)] wf_treeD(8) [OF assms(1) that(2)] by simp
  have "set (filter P (Children t n)) \<inter> set (concat (map (\<lambda>n. filter P (Children t n)) ns)) = {}"
    using once Cons.prems by fastforce
  with Cons wf_treeD(7) [OF assms(1), of n] show ?case by simp
qed simp

lemma distinct_segmentLoop:
  "wf_tree t \<Longrightarrow> distinct ns \<Longrightarrow> distinct (segmentLoop ff t auth segs ns)"
  by (induction segs arbitrary: ns) (simp_all add: nodeLoop_concat distinct_children_concat)

lemma distinct_evaluateAs: "wf_tree t \<Longrightarrow> distinct (evaluateAs ff t r segs auth)"
  by (simp add: evaluateAs_def distinct_segmentLoop)

section \<open>Parsing and resolving never panic\<close>

lemma parse_returns: "parse compile e \<noteq> Panic"
proof -
  have "parseParts compile ps \<noteq> Panic" for ps
    by (induction ps)
       (auto simp: rbind_Panic_iff parsePart_def Let_def split: prod.splits option.splits if_splits)
  then show ?thesis by (auto simp: parse_def ParseExpression_def rbind_Panic_iff)
qed

lemma resolveExactlyOne_returns: "resolveExpressionExactlyOne compile ff t e auth \<noteq> Panic"
  using parse_returns
  by (auto simp: resolveExpressionExactlyOne_def rbind_Panic_iff exactlyOne_def split: list.splits)

end
