(* ===== verification/Flatten.thy ===== *)
theory Flatten
  imports Evaluate
begin

text \<open>
  Flattening matches into \<open>wire.Node\<close> arrays with offset pointers, and cutting such an array to a
  message size (\<open>flattenSubtree\<close>, \<open>FlattenMatches\<close>, \<open>GetFullAs\<close>, \<open>FitToSize\<close> and \<open>fixupWindow\<close> in
  \<open>internal/tree/tree.go\<close>).
\<close>

section \<open>Flattening a subtree\<close>

text \<open>
  A position in the subtree (the node identity the maps \<open>parentOf\<close>, \<open>siblingIndex\<close> and \<open>indexOf\<close> are
  keyed by) is the path of child numbers from its root. \<open>visit\<close> is the pre-order walk that fills
  \<open>order\<close>.
\<close>

type_synonym position = "nat list"

fun visit :: "position \<Rightarrow> vtree \<Rightarrow> (position \<times> vtree) list"
  and visitChildren :: "position \<Rightarrow> nat \<Rightarrow> vtree list \<Rightarrow> (position \<times> vtree) list" where
  "visit pos (VNode k v cs) = (pos, VNode k v cs) # visitChildren pos 0 cs"
| "visitChildren pos i [] = []"
| "visitChildren pos i (c # cs) = visit (pos @ [i]) c @ visitChildren pos (i + 1) cs"

fun indexIn :: "nat \<Rightarrow> position \<Rightarrow> (position \<times> vtree) list \<Rightarrow> nat" where
  "indexIn i pos [] = 0"
| "indexIn i pos ((p, _) # order) = (if p = pos then i else indexIn (i + 1) pos order)"

definition indexOf :: "(position \<times> vtree) list \<Rightarrow> position \<Rightarrow> nat" where
  "indexOf order pos = indexIn 0 pos order"

definition offsetPointer :: "nat \<Rightarrow> nat \<Rightarrow> NodePointer" where
  "offsetPointer from target = PointerOffset (word_of_int (int target - int from))"

definition nodeAt :: "(position \<times> vtree) list \<Rightarrow> position \<Rightarrow> vtree option" where
  "nodeAt order pos = map_of order pos"

text \<open>The loop body that builds \<open>wireNodes[i]\<close>: a root has the empty position and no parent.\<close>

definition wireNode :: "(position \<times> vtree) list \<Rightarrow> nat \<Rightarrow> position \<times> vtree \<Rightarrow> Node" where
  "wireNode order i pn =
     (let (pos, n) = pn;
          firstChild = (if length (vchildren n) > 0
                        then offsetPointer i (indexOf order (pos @ [0])) else PointerOffset 0);
          nextSibling =
            (if pos = [] then PointerOffset 0
             else case nodeAt order (butlast pos) of
                    None \<Rightarrow> PointerOffset 0
                  | Some parent \<Rightarrow>
                      if last pos + 1 < length (vchildren parent)
                      then offsetPointer i (indexOf order (butlast pos @ [last pos + 1]))
                      else PointerOffset 0)
      in \<lparr>nd_Key = vkey n, nd_Value = vvalue n, nd_FirstChild = firstChild,
          nd_NextSibling = nextSibling\<rparr>)"

definition flattenSubtree :: "vtree \<Rightarrow> Node list" where
  "flattenSubtree root =
     (let order = visit [] root
      in map (\<lambda>(i, pn). wireNode order i pn) (List.enumerate 0 order))"

text \<open>The first loop of \<open>FlattenMatches\<close> (\<open>out\<close> and \<open>blockStarts\<close>), then the chaining of roots.\<close>

fun blockLoop :: "vtree list \<Rightarrow> Node list \<Rightarrow> nat list \<Rightarrow> Node list \<times> nat list" where
  "blockLoop [] out starts = (out, starts)"
| "blockLoop (m # ms) out starts = blockLoop ms (out @ flattenSubtree m) (starts @ [length out])"

fun chainLoop :: "nat list \<Rightarrow> Node list \<Rightarrow> Node list" where
  "chainLoop (rootIdx # nextRootIdx # rest) out =
     chainLoop (nextRootIdx # rest)
       (out[rootIdx := (out ! rootIdx)\<lparr>nd_NextSibling := offsetPointer rootIdx nextRootIdx\<rparr>])"
| "chainLoop _ out = out"

definition FlattenMatches :: "vtree list \<Rightarrow> Node list" where
  "FlattenMatches matches = (let (out, starts) = blockLoop matches [] [] in chainLoop starts out)"

section \<open>Get\<close>

text \<open>The result: the flattened array, the resume index and the base expression.\<close>

definition GetFullAs :: "compiler \<Rightarrow> (f64 \<Rightarrow> string) \<Rightarrow> Tree \<Rightarrow> string \<Rightarrow> auth \<Rightarrow>
    (Node list \<times> nat \<times> string) tree_result" where
  "GetFullAs compile ff t expression auth =
     (let (base, resumeIndex) = SplitResumeSuffix expression in
      rbind (parse compile base) (\<lambda>segments.
        let matches = evaluateAs ff t (Root t) segments auth;
            flat = FlattenMatches (map (\<lambda>m. pruneVisible t m auth) matches)
        in if resumeIndex < 0 \<or> int (length flat) < resumeIndex
           then Err (ResumeOutOfRange resumeIndex (length flat))
           else Ok (flat, nat resumeIndex, base)))"

definition GetFull :: "compiler \<Rightarrow> (f64 \<Rightarrow> string) \<Rightarrow> Tree \<Rightarrow> string \<Rightarrow>
    (Node list \<times> nat \<times> string) tree_result" where
  "GetFull compile ff t expression = GetFullAs compile ff t expression None"

definition Get :: "compiler \<Rightarrow> (f64 \<Rightarrow> string) \<Rightarrow> Tree \<Rightarrow> string \<Rightarrow> Node list tree_result" where
  "Get compile ff t expression =
     rbind (GetFull compile ff t expression) (\<lambda>(flat, resume, base). Ok (drop resume flat))"

section \<open>Cutting to a size\<close>

text \<open>The loop body of \<open>fixupWindow\<close> for one pointer field of the node at \<open>iGlobal\<close>.\<close>

definition fixupPointer :: "nat \<Rightarrow> nat \<Rightarrow> string \<Rightarrow> NodePointer \<Rightarrow> NodePointer" where
  "fixupPointer iGlobal endGlobal base field =
     (case field of
        PointerOffset d \<Rightarrow>
          if d = 0 then field
          else
            let targetGlobal = sint (word_of_nat iGlobal + d) in
            if targetGlobal \<ge> int endGlobal
            then PointerAbsolute (base @ ''@'' @ show_int targetGlobal) else field
      | _ \<Rightarrow> field)"

definition fixupNode :: "nat \<Rightarrow> nat \<Rightarrow> string \<Rightarrow> Node \<Rightarrow> Node" where
  "fixupNode iGlobal endGlobal base n =
     n\<lparr>nd_FirstChild := fixupPointer iGlobal endGlobal base (nd_FirstChild n),
       nd_NextSibling := fixupPointer iGlobal endGlobal base (nd_NextSibling n)\<rparr>"

definition fixupWindow :: "Node list \<Rightarrow> nat \<Rightarrow> nat \<Rightarrow> string \<Rightarrow> Node list" where
  "fixupWindow flat resumeIndex n base =
     map (\<lambda>(i, x). fixupNode i (resumeIndex + n) base x)
       (List.enumerate resumeIndex (take n (drop resumeIndex flat)))"

definition dipSpan :: nat where "dipSpan = 32"

text \<open>The binary search: \<open>fits n\<close> is \<open>try(n)\<close>'s verdict; the result is \<open>lo\<close>.\<close>

function searchLoop :: "(nat \<Rightarrow> bool) \<Rightarrow> nat \<Rightarrow> nat \<Rightarrow> nat" where
  "searchLoop fits lo hi =
     (if lo < hi then
        let mid = (lo + hi + 1) div 2
        in if fits mid then searchLoop fits mid hi else searchLoop fits lo (mid - 1)
      else lo)"
  by pat_completeness auto
termination by (relation "measure (\<lambda>(fits, lo, hi). hi - lo)") auto

declare searchLoop.simps [simp del]

text \<open>The scan past the search result: \<open>n\<close> runs to \<open>lo + dipSpan\<close> of the current \<open>lo\<close>, below
  \<open>windowTotal\<close>.\<close>

function dipLoop :: "(nat \<Rightarrow> bool) \<Rightarrow> nat \<Rightarrow> nat \<Rightarrow> nat \<Rightarrow> nat" where
  "dipLoop fits windowTotal lo n =
     (if n \<le> lo + dipSpan \<and> n < windowTotal
      then dipLoop fits windowTotal (if fits n then n else lo) (n + 1)
      else lo)"
  by pat_completeness auto
termination by (relation "measure (\<lambda>(fits, windowTotal, lo, n). windowTotal - n)") auto

declare dipLoop.simps [simp del]

text \<open>\<open>best\<close> is always the window of length \<open>lo\<close>, so only \<open>lo\<close> is kept.\<close>

definition FitToSize :: "Node list \<Rightarrow> nat \<Rightarrow> string \<Rightarrow> int \<Rightarrow> (Node list \<Rightarrow> int) \<Rightarrow> Node list \<times> bool" where
  "FitToSize flat resumeIndex base maxSize msize =
     (if length flat \<le> resumeIndex then ([], False)
      else
        let windowTotal = length flat - resumeIndex;
            fits = (\<lambda>n. msize (fixupWindow flat resumeIndex n base) \<le> maxSize)
        in if fits windowTotal then (fixupWindow flat resumeIndex windowTotal base, False)
           else
             let lo = searchLoop fits 0 (windowTotal - 1);
                 lo = dipLoop fits windowTotal lo (lo + 1)
             in if lo = 0 then ([], True) else (fixupWindow flat resumeIndex lo base, True))"

section \<open>The size search\<close>

lemma searchLoop_step:
  "lo < hi \<Longrightarrow> fits ((lo + hi + 1) div 2) \<Longrightarrow>
     searchLoop fits lo hi = searchLoop fits ((lo + hi + 1) div 2) hi"
  "lo < hi \<Longrightarrow> \<not> fits ((lo + hi + 1) div 2) \<Longrightarrow>
     searchLoop fits lo hi = searchLoop fits lo ((lo + hi + 1) div 2 - 1)"
  "\<not> lo < hi \<Longrightarrow> searchLoop fits lo hi = lo"
  by (simp_all add: searchLoop.simps [of fits lo hi] Let_def)

lemma middle: "lo < hi \<Longrightarrow> lo < (lo + hi + 1) div 2 \<and> (lo + hi + 1) div 2 \<le> hi" for lo hi :: nat
  by auto

lemma searchLoop_bounds:
  "lo \<le> hi \<Longrightarrow> lo \<le> searchLoop fits lo hi \<and> searchLoop fits lo hi \<le> hi \<and>
   (searchLoop fits lo hi = lo \<or> fits (searchLoop fits lo hi))"
proof (induction fits lo hi rule: searchLoop.induct)
  case (1 fits lo hi)
  define mid where "mid = (lo + hi + 1) div 2"
  consider "lo < hi" "fits mid" | "lo < hi" "\<not> fits mid" | "\<not> lo < hi" by blast
  then show ?case
  proof cases
    case 1
    note m = middle [OF 1(1), folded mid_def]
    from "1.IH"(1) [OF 1(1) mid_def 1(2)] m 1 show ?thesis
      unfolding searchLoop_step(1) [OF 1(1), of fits, folded mid_def, OF 1(2)] by auto
  next
    case 2
    have "lo \<le> mid - 1" "mid - 1 \<le> hi" using middle [OF 2(1), folded mid_def] by linarith+
    with "1.IH"(2) [OF 2(1) mid_def 2(2)] show ?thesis
      unfolding searchLoop_step(2) [OF 2(1), of fits, folded mid_def, OF 2(2)]
      by (auto intro: order_trans)
  next
    case 3
    with "1.prems" show ?thesis by (simp add: searchLoop_step(3))
  qed
qed

text \<open>With a monotone size the search finds the largest length that fits.\<close>

lemma searchLoop_max:
  "\<forall>m n. m \<le> n \<longrightarrow> fits n \<longrightarrow> fits m \<Longrightarrow> lo \<le> hi \<Longrightarrow> n \<le> hi \<Longrightarrow> fits n \<Longrightarrow>
   n \<le> searchLoop fits lo hi \<or> n \<le> lo"
proof (induction fits lo hi rule: searchLoop.induct)
  case (1 fits lo hi)
  define mid where "mid = (lo + hi + 1) div 2"
  consider "lo < hi" "fits mid" | "lo < hi" "\<not> fits mid" | "\<not> lo < hi" by blast
  then show ?case
  proof cases
    case 1
    note m = middle [OF 1(1), folded mid_def]
    have "mid \<le> searchLoop fits mid hi" using searchLoop_bounds m by blast
    with "1.IH"(1) [OF 1(1) mid_def 1(2) "1.prems"(1) _ "1.prems"(3,4)] m show ?thesis
      unfolding searchLoop_step(1) [OF 1(1), of fits, folded mid_def, OF 1(2)] by auto
  next
    case 2
    note m = middle [OF 2(1), folded mid_def]
    have "n < mid" using "1.prems"(1,4) 2(2) by (metis not_less)
    with "1.IH"(2) [OF 2(1) mid_def 2(2) "1.prems"(1)] "1.prems"(4) m show ?thesis
      unfolding searchLoop_step(2) [OF 2(1), of fits, folded mid_def, OF 2(2)] by auto
  next
    case 3
    with "1.prems" show ?thesis by simp
  qed
qed

lemma dipLoop_bounds:
  "lo < n \<Longrightarrow> lo < windowTotal \<Longrightarrow> lo \<le> dipLoop fits windowTotal lo n \<and>
   dipLoop fits windowTotal lo n < windowTotal \<and>
   (dipLoop fits windowTotal lo n = lo \<or> fits (dipLoop fits windowTotal lo n))"
proof (induction fits windowTotal lo n rule: dipLoop.induct)
  case (1 fits windowTotal lo n)
  show ?case
  proof (cases "n \<le> lo + dipSpan \<and> n < windowTotal")
    case True
    let ?lo = "if fits n then n else lo"
    have eq: "dipLoop fits windowTotal lo n = dipLoop fits windowTotal ?lo (n + 1)"
      using True by (subst dipLoop.simps) simp
    have "?lo < n + 1" "?lo < windowTotal" using True "1.prems" by auto
    from "1.IH" [OF True this] "1.prems" show ?thesis unfolding eq by (auto split: if_splits)
  next
    case False
    then have "dipLoop fits windowTotal lo n = lo"
      by (subst dipLoop.simps) (simp only: False if_False)
    with "1.prems" show ?thesis by simp
  qed
qed

end
