(* ===== verification/Flatten_Props.thy ===== *)
theory Flatten_Props
  imports Flatten
begin

text \<open>
  What the flattened array means: a reference flattening by subtree sizes, that the code's index
  maps compute it, and that following the offset pointers from index 0 gives back the trees.
\<close>

section \<open>Reference flattening\<close>

fun vsize :: "vtree \<Rightarrow> nat" and vsizes :: "vtree list \<Rightarrow> nat" where
  "vsize (VNode k v cs) = Suc (vsizes cs)"
| "vsizes [] = 0"
| "vsizes (c # cs) = vsize c + vsizes cs"

definition offset :: "nat \<Rightarrow> NodePointer" where
  "offset n = PointerOffset (word_of_nat n)"

text \<open>A node's first child is the next entry, its next sibling the entry after its subtree.\<close>

fun flat :: "NodePointer \<Rightarrow> vtree \<Rightarrow> Node list" and flats :: "vtree list \<Rightarrow> Node list" where
  "flat ns (VNode k v cs) =
     \<lparr>nd_Key = k, nd_Value = v, nd_FirstChild = offset (if cs = [] then 0 else 1),
      nd_NextSibling = ns\<rparr> # flats cs"
| "flats [] = []"
| "flats (c # cs) = flat (offset (if cs = [] then 0 else vsize c)) c @ flats cs"

lemma length_flat: "length (flat ns v) = vsize v" and length_flats: "length (flats vs) = vsizes vs"
  by (induction ns v and vs rule: flat_flats.induct) auto

lemma length_visit: "length (visit pos v) = vsize v"
  and length_visitChildren: "length (visitChildren pos i cs) = vsizes cs"
  by (induction pos v and pos i cs rule: visit_visitChildren.induct) auto

lemma offsetPointer_add [simp]: "offsetPointer i (i + n) = offset n"
  by (simp add: offsetPointer_def offset_def)

section \<open>The walk\<close>

lemma visit_head: "visit pos v = (pos, v) # visitChildren pos 0 (vchildren v)"
  by (cases v) simp

lemma visit_positions:
  shows "p \<in> fst ` set (visit pos v) \<Longrightarrow> \<exists>q. p = pos @ q"
    and "p \<in> fst ` set (visitChildren pos i cs) \<Longrightarrow> \<exists>j q. p = pos @ j # q \<and> i \<le> j"
proof (induction pos v and pos i cs arbitrary: p and p rule: visit_visitChildren.induct)
  case (1 pos k v cs)
  then consider "p = pos" | "p \<in> fst ` set (visitChildren pos 0 cs)" by auto
  then show ?case
  proof cases
    case 2
    from "1.IH" [OF this] show ?thesis by blast
  qed simp
next
  case (3 pos i c cs)
  from "3.prems" consider "p \<in> fst ` set (visit (pos @ [i]) c)"
    | "p \<in> fst ` set (visitChildren pos (i + 1) cs)"
    by (simp only: visitChildren.simps set_append image_Un Un_iff) blast
  then show ?case
  proof cases
    case 1
    from "3.IH"(1) [OF this] obtain q where "p = pos @ i # q" by auto
    then show ?thesis by blast
  next
    case 2
    from "3.IH"(2) [OF this] obtain j q where "p = pos @ j # q" "i \<le> j" by auto
    then show ?thesis by blast
  qed
qed simp

lemma visit_distinct:
  shows "distinct (map fst (visit pos v))"
    and "distinct (map fst (visitChildren pos i cs))"
proof (induction pos v and pos i cs rule: visit_visitChildren.induct)
  case (1 pos k v cs)
  have "pos \<notin> fst ` set (visitChildren pos 0 cs)" using visit_positions(2) [of pos pos 0 cs] by auto
  with 1 show ?case by simp
next
  case (3 pos i c cs)
  have "p \<notin> fst ` set (visitChildren pos (i + 1) cs)" if "p \<in> fst ` set (visit (pos @ [i]) c)" for p
    using visit_positions(1) [OF that] visit_positions(2) [of p pos "i + 1" cs] by force
  then have "fst ` set (visit (pos @ [i]) c) \<inter> fst ` set (visitChildren pos (i + 1) cs) = {}"
    by blast
  with 3 show ?case by simp
qed simp

lemma indexIn_at:
  "distinct (map fst (A @ (p, v) # B)) \<Longrightarrow> indexIn i p (A @ (p, v) # B) = i + length A"
  by (induction A arbitrary: i) auto

lemma indexOf_at: "ord = A @ (p, v) # B \<Longrightarrow> distinct (map fst ord) \<Longrightarrow> indexOf ord p = length A"
  by (simp only: indexOf_def indexIn_at add_0)

lemma nodeAt_at: "distinct (map fst (A @ (p, v) # B)) \<Longrightarrow> nodeAt (A @ (p, v) # B) p = Some v"
proof -
  assume "distinct (map fst (A @ (p, v) # B))"
  then have "map_of A p = None" by (simp add: map_of_eq_None_iff)
  then show ?thesis by (simp add: nodeAt_def map_add_def)
qed

definition wireNodes :: "(position \<times> vtree) list \<Rightarrow> nat \<Rightarrow> (position \<times> vtree) list \<Rightarrow> Node list" where
  "wireNodes ord i pns = map (\<lambda>(i, pn). wireNode ord i pn) (List.enumerate i pns)"

lemma wireNodes_simps [simp]:
  "wireNodes ord i [] = []"
  "wireNodes ord i (pn # pns) = wireNode ord i pn # wireNodes ord (Suc i) pns"
  "wireNodes ord i (pns @ qns) = wireNodes ord i pns @ wireNodes ord (i + length pns) qns"
  by (simp_all add: wireNodes_def enumerate_append_eq)

lemma visit_flat:
  shows "ord = A @ visit pos v @ B \<Longrightarrow> distinct (map fst ord) \<Longrightarrow>
      wireNodes ord (length A) (visit pos v) =
      flat (nd_NextSibling (wireNode ord (length A) (pos, v))) v"
    and "ord = A @ visitChildren pos i cs @ B \<Longrightarrow> distinct (map fst ord) \<Longrightarrow>
      nodeAt ord pos = Some par \<Longrightarrow> drop i (vchildren par) = cs \<Longrightarrow>
      wireNodes ord (length A) (visitChildren pos i cs) = flats cs"
proof (induction pos v and pos i cs arbitrary: A B and A B par rule: visit_visitChildren.induct)
  case (1 pos k v cs)
  let ?A = "A @ [(pos, VNode k v cs)]"
  have ord: "ord = ?A @ visitChildren pos 0 cs @ B" using "1.prems" by simp
  have at: "nodeAt ord pos = Some (VNode k v cs)"
    using nodeAt_at [of A pos "VNode k v cs" "visitChildren pos 0 cs @ B"] "1.prems" by simp
  have rest: "wireNodes ord (Suc (length A)) (visitChildren pos 0 cs) = flats cs"
    using "1.IH" [OF ord "1.prems"(2) at] by simp
  have "indexOf ord (pos @ [0]) = Suc (length A)" if "cs = c # cs'" for c cs'
  proof -
    have "ord = ?A @ (pos @ [0], c) #
        (visitChildren (pos @ [0]) 0 (vchildren c) @ visitChildren pos 1 cs' @ B)"
      using ord that by (simp add: visit_head)
    from indexOf_at [OF this "1.prems"(2)] show ?thesis by simp
  qed
  then have "nd_FirstChild (wireNode ord (length A) (pos, VNode k v cs)) = offset (if cs = [] then 0 else 1)"
    by (cases cs) (auto simp: wireNode_def Let_def offset_def offsetPointer_def)
  with rest show ?case by (simp add: wireNode_def Let_def)
next
  case (3 pos i c cs)
  let ?a = "length A" and ?n = "vsize c"
  let ?A = "A @ visit (pos @ [i]) c"
  have ord: "ord = A @ visit (pos @ [i]) c @ visitChildren pos (i + 1) cs @ B"
    "ord = ?A @ visitChildren pos (i + 1) cs @ B"
    using "3.prems"(1) by simp_all
  have drop: "drop (i + 1) (vchildren par) = cs"
    using "3.prems"(4) by (metis Suc_eq_plus1 drop_Suc list.sel(3) tl_drop)
  have len: "i + 1 < length (vchildren par) \<longleftrightarrow> cs \<noteq> []"
    using drop by (metis drop_eq_Nil not_less)
  have nxt: "indexOf ord (pos @ [i + 1]) = ?a + ?n" if "cs = d # cs'" for d cs'
  proof -
    have "ord = ?A @ (pos @ [i + 1], d) #
        (visitChildren (pos @ [i + 1]) 0 (vchildren d) @ visitChildren pos (i + 2) cs' @ B)"
      using ord(2) that by (simp add: visit_head)
    from indexOf_at [OF this "3.prems"(2)] show ?thesis by (simp add: length_visit)
  qed
  have "nd_NextSibling (wireNode ord ?a (pos @ [i], c)) = offset (if cs = [] then 0 else ?n)"
    using len nxt "3.prems"(3)
    by (cases cs) (auto simp: wireNode_def Let_def offset_def)
  moreover have "wireNodes ord (?a + ?n) (visitChildren pos (i + 1) cs) = flats cs"
    using "3.IH"(2) [OF ord(2) "3.prems"(2,3) drop] by (simp add: length_visit)
  ultimately show ?case
    using "3.IH"(1) [OF ord(1) "3.prems"(2)] by (simp add: length_visit)
qed simp

lemma flattenSubtree_flat: "flattenSubtree v = flat (offset 0) v"
proof -
  have "visit [] v = [] @ visit [] v @ []" by simp
  from visit_flat(1) [OF this visit_distinct(1)] show ?thesis
    by (simp add: flattenSubtree_def wireNodes_def Let_def wireNode_def offset_def)
qed

section \<open>Several matches\<close>

text \<open>The roots of the matches are chained as if they were siblings.\<close>

fun block_starts :: "nat \<Rightarrow> vtree list \<Rightarrow> nat list" where
  "block_starts n [] = []"
| "block_starts n (m # ms) = n # block_starts (n + vsize m) ms"

lemma blockLoop_starts:
  "blockLoop ms out starts =
     (out @ concat (map (flat (offset 0)) ms), starts @ block_starts (length out) ms)"
  by (induction ms arbitrary: out starts) (auto simp: flattenSubtree_flat length_flat)

lemma flat_root: "flat ns v = (hd (flat (offset 0) v))\<lparr>nd_NextSibling := ns\<rparr> # tl (flat (offset 0) v)"
  by (cases v) simp

lemma chainLoop_flats:
  "chainLoop (block_starts (length A) ms) (A @ concat (map (flat (offset 0)) ms)) = A @ flats ms"
proof (induction ms arbitrary: A)
  case (Cons m ms)
  show ?case
  proof (cases ms)
    case Nil
    then show ?thesis by simp
  next
    case (Cons m2 ms')
    let ?a = "length A"
    let ?rest = "concat (map (flat (offset 0)) ms)"
    let ?A = "A @ flat (offset (vsize m)) m"
    obtain x xs where x: "flat (offset 0) m = x # xs" by (cases m) auto
    have upd: "(A @ flat (offset 0) m @ ?rest)[?a := ((A @ flat (offset 0) m @ ?rest) ! ?a)
        \<lparr>nd_NextSibling := offsetPointer ?a (?a + vsize m)\<rparr>] = ?A @ ?rest"
      using flat_root [of "offset (vsize m)" m] by (simp add: x nth_append list_update_append)
    have "chainLoop (block_starts ?a (m # ms)) (A @ concat (map (flat (offset 0)) (m # ms))) =
        chainLoop (block_starts (length ?A) ms) (?A @ ?rest)"
      using upd by (simp add: Cons length_flat)
    also have "\<dots> = ?A @ flats ms" by (rule Cons.IH)
    finally show ?thesis using Cons by simp
  qed
qed simp

lemma FlattenMatches_flats: "FlattenMatches ms = flats ms"
  using chainLoop_flats [of "[]" ms] by (simp add: FlattenMatches_def blockLoop_starts)

section \<open>Following the pointers\<close>

text \<open>Where a pointer of the entry at \<open>i\<close> leads inside the array; offset 0 stands for none.\<close>

fun target :: "nat \<Rightarrow> NodePointer \<Rightarrow> int option" where
  "target i (PointerOffset d) = (if d = 0 then None else Some (int i + sint d))"
| "target i _ = None"

text \<open>The entry at \<open>i\<close> and its chain of next siblings are the given trees.\<close>

fun represents :: "Node list \<Rightarrow> int option \<Rightarrow> vtree list \<Rightarrow> bool" where
  "represents arr x [] = (x = None)"
| "represents arr x (VNode k v cs # vs) =
     (case x of None \<Rightarrow> False
      | Some i \<Rightarrow> 0 \<le> i \<and> nat i < length arr \<and> nd_Key (arr ! nat i) = k \<and> nd_Value (arr ! nat i) = v \<and>
          represents arr (target (nat i) (nd_FirstChild (arr ! nat i))) cs \<and>
          represents arr (target (nat i) (nd_NextSibling (arr ! nat i))) vs)"

lemma target_offset:
  "n < 2 ^ 63 \<Longrightarrow> target i (offset n) = (if n = 0 then None else Some (int i + int n))"
proof -
  assume n: "n < 2 ^ 63"
  then have s: "sint (word_of_nat n :: i64) = int n"
    using sint_of_int_i64 [of "int n"] by simp
  then have "(word_of_nat n :: i64) = 0 \<longleftrightarrow> n = 0" by (metis of_nat_eq_0_iff sint_eq_iff signed_0)
  with s show ?thesis by (simp add: offset_def)
qed

text \<open>A block of siblings inside an array: their entries are where the offsets say.\<close>

lemma represents_flats:
  shows "arr = A @ flat ns v @ B \<Longrightarrow> length arr < 2 ^ 63 \<Longrightarrow>
      represents arr (target (length A) ns) vs \<Longrightarrow> represents arr (Some (int (length A))) (v # vs)"
    and "arr = A @ flats cs @ B \<Longrightarrow> length arr < 2 ^ 63 \<Longrightarrow>
      represents arr (if cs = [] then None else Some (int (length A))) cs"
proof (induction v and cs arbitrary: A B ns vs and A B rule: vsize_vsizes.induct)
  case (1 k v cs)
  let ?n = "\<lparr>nd_Key = k, nd_Value = v, nd_FirstChild = offset (if cs = [] then 0 else 1), nd_NextSibling = ns\<rparr>"
  have arr: "arr = (A @ [?n]) @ flats cs @ B" using "1.prems"(1) by simp
  have "represents arr (target (length A) (offset (if cs = [] then 0 else 1))) cs"
    using "1.IH" [OF arr "1.prems"(2)] by (auto simp: target_offset add.commute split: if_splits)
  with "1.prems" show ?case by (simp add: nth_append)
next
  case (3 c cs)
  let ?ns = "offset (if cs = [] then 0 else vsize c)"
  have arr: "arr = A @ flat ?ns c @ flats cs @ B" "arr = (A @ flat ?ns c) @ flats cs @ B"
    using "3.prems"(1) by simp_all
  have "vsize c < 2 ^ 63"
    using "3.prems"(2) arr(1) length_flat [of ?ns c] by simp
  then have "represents arr (target (length A) ?ns) cs"
    using "3.IH"(2) [OF arr(2) "3.prems"(2)]
    by (cases c) (auto simp: target_offset length_flat length_flats algebra_simps split: if_splits)
  from "3.IH"(1) [OF arr(1) "3.prems"(2) this] show ?case by simp
qed simp

end
