(* ===== verification/Paging.thy ===== *)
theory Paging
  imports Flatten_Props
begin

text \<open>
  How a flattened result is cut into pages: the window \<open>FitToSize\<close> chooses, what \<open>fixupWindow\<close> leaves
  in it, and why the pointers of earlier entries lead to every later one.
\<close>

section \<open>The window\<close>

lemma FitToSize_fits:
  fixes flat r base maxSize and msize :: "Node list \<Rightarrow> int"
  defines "fits n \<equiv> msize (fixupWindow flat r n base) \<le> maxSize"
  assumes "r \<le> length flat"
  obtains n where "FitToSize flat r base maxSize msize =
      (fixupWindow flat r n base, n < length flat - r)"
    "n \<le> length flat - r" "0 < n \<longrightarrow> fits n" "n < length flat - r \<longrightarrow> \<not> fits (length flat - r)"
    "\<forall>i j. i \<le> j \<longrightarrow> fits j \<longrightarrow> fits i \<Longrightarrow> \<forall>m \<le> length flat - r. fits m \<longrightarrow> m \<le> n"
proof -
  define total where "total = length flat - r"
  have empty: "fixupWindow flat r 0 base = []" by (simp add: fixupWindow_def)
  have fits: "fits = (\<lambda>n. msize (fixupWindow flat r n base) \<le> maxSize)" by (simp add: fits_def fun_eq_iff)
  consider "total = 0" | "0 < total" "fits total" | "0 < total" "\<not> fits total" by linarith
  then show thesis
  proof cases
    case 1
    then have "FitToSize flat r base maxSize msize = (fixupWindow flat r 0 base, 0 < length flat - r)"
      by (simp add: FitToSize_def total_def empty)
    with 1 show thesis by (intro that [of 0]) (auto simp: total_def)
  next
    case 2
    then have "FitToSize flat r base maxSize msize =
        (fixupWindow flat r total base, total < length flat - r)"
      unfolding FitToSize_def Let_def fits [symmetric] by (simp add: total_def)
    with 2 show thesis by (intro that [of total]) (auto simp: total_def)
  next
    case 3
    define lo where "lo = searchLoop fits 0 (total - 1)"
    define n where "n = dipLoop fits total lo (lo + 1)"
    have lo: "lo \<le> total - 1" "lo = 0 \<or> fits lo"
      using searchLoop_bounds [of 0 "total - 1" fits] by (auto simp: lo_def)
    have n: "lo \<le> n" "n < total" "n = lo \<or> fits n"
      using dipLoop_bounds [of lo "lo + 1" total fits] lo(1) 3(1) by (auto simp: n_def)
    have "FitToSize flat r base maxSize msize =
        (if n = 0 then ([], True) else (fixupWindow flat r n base, True))"
      using 3 unfolding FitToSize_def Let_def fits [symmetric] n_def lo_def total_def by simp
    then have eq: "FitToSize flat r base maxSize msize = (fixupWindow flat r n base, n < length flat - r)"
      using n(2) empty by (simp add: total_def)
    have "m \<le> n" if mono: "\<forall>i j. i \<le> j \<longrightarrow> fits j \<longrightarrow> fits i" and m: "m \<le> total" "fits m" for m
    proof -
      have "m \<le> total - 1" using m 3(2) by (cases "m = total") auto
      with searchLoop_max [OF mono _ this m(2), of 0] n(1) show ?thesis by (auto simp: lo_def)
    qed
    with eq n 3 lo(2) show thesis by (intro that [of n]) (auto simp: total_def)
  qed
qed

section \<open>Pointers of a flattened result\<close>

text \<open>Every pointer leads forward and stays inside the array.\<close>

definition forward :: "nat \<Rightarrow> nat \<Rightarrow> NodePointer \<Rightarrow> bool" where
  "forward n i p \<longleftrightarrow> (\<exists>d. p = offset d \<and> i + d < n)"

definition leads :: "Node \<Rightarrow> nat \<Rightarrow> bool" where
  "leads x d \<longleftrightarrow> nd_FirstChild x = offset d \<or> nd_NextSibling x = offset d"

lemma forward_offset: "i + d < n \<Longrightarrow> forward n i (offset d)"
  by (auto simp: forward_def)

lemma forward_shift: "forward n i p \<Longrightarrow> n + k \<le> m \<Longrightarrow> j = i + k \<Longrightarrow> forward m j p"
  unfolding forward_def by (erule exE, rule exI) auto

lemma flat_forward:
  shows "i < vsize v \<Longrightarrow> forward (vsize v) i (nd_FirstChild (flat ns v ! i)) \<and>
      (0 < i \<longrightarrow> forward (vsize v) i (nd_NextSibling (flat ns v ! i)))"
    and "i < vsizes cs \<Longrightarrow> forward (vsizes cs) i (nd_FirstChild (flats cs ! i)) \<and>
      forward (vsizes cs) i (nd_NextSibling (flats cs ! i))"
proof (induction ns v and cs arbitrary: i and i rule: flat_flats.induct)
  case (1 ns k v cs)
  show ?case
  proof (cases i)
    case 0
    have "cs \<noteq> [] \<Longrightarrow> 0 < vsizes cs" by (cases cs; cases "hd cs") auto
    with 0 show ?thesis by (auto intro: forward_offset)
  next
    case (Suc j)
    with "1.prems" have "j < vsizes cs" by simp
    from "1.IH" [OF this] Suc show ?thesis by (auto intro: forward_shift [where k = 1])
  qed
next
  case (3 c cs)
  let ?ns = "offset (if cs = [] then 0 else vsize c)"
  show ?case
  proof (cases "i < vsize c")
    case True
    have pos: "cs \<noteq> [] \<Longrightarrow> 0 < vsizes cs" by (cases cs; cases "hd cs") auto
    have "flats (c # cs) ! i = flat ?ns c ! i" using True by (simp add: nth_append length_flat)
    moreover have "nd_NextSibling (flat ?ns c ! 0) = ?ns" by (cases c) simp
    moreover have "forward (vsizes (c # cs)) 0 ?ns" using pos "3.prems" by (auto intro: forward_offset)
    ultimately show ?thesis
      using "3.IH"(1) [OF True] by (cases "i = 0") (auto intro: forward_shift [where k = 0])
  next
    case False
    obtain j where j: "i = j + vsize c" "j < vsizes cs"
      using False "3.prems" that [of "i - vsize c"] by simp
    have "flats (c # cs) ! i = flats cs ! j" using j by (simp add: nth_append length_flat)
    with "3.IH"(2) [OF j(2)] j(1) show ?thesis by (auto intro: forward_shift [where k = "vsize c"])
  qed
qed simp

text \<open>Every entry but the first is what some earlier entry points to.\<close>

lemma flat_referenced:
  shows "0 < e \<Longrightarrow> e < vsize v \<Longrightarrow> \<exists>j < e. leads (flat ns v ! j) (e - j)"
    and "0 < e \<Longrightarrow> e < vsizes cs \<Longrightarrow> \<exists>j < e. leads (flats cs ! j) (e - j)"
proof (induction ns v and cs arbitrary: e and e rule: flat_flats.induct)
  case (1 ns k v cs)
  show ?case
  proof (cases "e = 1")
    case True
    with "1.prems" have "cs \<noteq> []" by auto
    with True show ?thesis by (intro exI [of _ 0]) (simp add: leads_def)
  next
    case False
    with "1.prems" have "0 < e - 1" "e - 1 < vsizes cs" by auto
    from "1.IH" [OF this] obtain j where "j < e - 1" "leads (flats cs ! j) (e - 1 - j)" by blast
    then have "Suc j < e" "leads (flat ns (VNode k v cs) ! Suc j) (e - Suc j)" by simp_all
    then show ?thesis by blast
  qed
next
  case (3 c cs)
  let ?ns = "offset (if cs = [] then 0 else vsize c)"
  consider "e < vsize c" | "e = vsize c" | "vsize c < e" by linarith
  then show ?case
  proof cases
    case 1
    from "3.IH"(1) [OF "3.prems"(1) 1] obtain j where j: "j < e" "leads (flat ?ns c ! j) (e - j)" by blast
    have "flats (c # cs) ! j = flat ?ns c ! j" using j(1) 1 by (simp add: nth_append length_flat)
    with j show ?thesis by (intro exI [of _ j]) (simp del: flats.simps)
  next
    case 2
    then have "cs \<noteq> []" "flats (c # cs) ! 0 = flat ?ns c ! 0"
      using "3.prems" by (auto simp: nth_append length_flat)
    moreover have "nd_NextSibling (flat ?ns c ! 0) = ?ns" by (cases c) simp
    ultimately show ?thesis using 2 "3.prems" by (intro exI [of _ 0]) (simp add: leads_def del: flats.simps)
  next
    case 3
    define d where "d = e - vsize c"
    have d: "0 < d" "d < vsizes cs" "e = d + vsize c" using 3 "3.prems" by (auto simp: d_def)
    from "3.IH"(2) [OF d(1,2)] obtain j where j: "j < d" "leads (flats cs ! j) (d - j)" by blast
    have "flats (c # cs) ! (j + vsize c) = flats cs ! j" by (simp add: nth_append length_flat)
    with j d(3) show ?thesis by (intro exI [of _ "j + vsize c"]) (simp del: flats.simps)
  qed
qed simp

section \<open>Entries of a page\<close>

lemma length_fixupWindow: "r + n \<le> length xs \<Longrightarrow> length (fixupWindow xs r n base) = n"
  by (simp add: fixupWindow_def)

lemma window_nth:
  assumes "r + n \<le> length xs" "i < n"
  shows "fixupWindow xs r n base ! i = fixupNode (r + i) (r + n) base (xs ! (r + i))"
  using assms by (simp add: fixupWindow_def nth_enumerate_eq)

lemma fixup_offset:
  assumes "i + d < 2 ^ 63"
  shows "fixupPointer i e base (offset d) =
    (if d = 0 \<or> i + d < e then offset d else PointerAbsolute (continuation base (i + d)))"
proof -
  have d: "sint (word_of_nat d :: i64) = int d" and sum: "sint (word_of_nat (i + d) :: i64) = int (i + d)"
    using assms sint_of_int_i64 [of "int d"] sint_of_int_i64 [of "int (i + d)"] by simp_all
  have "(word_of_nat d :: i64) = 0 \<longleftrightarrow> d = 0" using d by (metis of_nat_eq_0_iff sint_eq_iff signed_0)
  with sum show ?thesis
    by (simp add: fixupPointer_def offset_def continuation_def show_int_def nat_int_add)
qed

lemma fixupNode_simps [simp]:
  "nd_Key (fixupNode i e base x) = nd_Key x" "nd_Value (fixupNode i e base x) = nd_Value x"
  "nd_FirstChild (fixupNode i e base x) = fixupPointer i e base (nd_FirstChild x)"
  "nd_NextSibling (fixupNode i e base x) = fixupPointer i e base (nd_NextSibling x)"
  by (simp_all add: fixupNode_def)

end
