(* ===== verification/Tree_Read_Properties.thy ===== *)
theory Tree_Read_Properties
  imports Paging
begin

text \<open>
  What reading the tree gives: parsing of expressions, evaluation under an identity, what a caller
  can learn, the shape of flattened results, and paging.
\<close>

section \<open>Expressions\<close>

text \<open>C27. An expression written with its separators escaped parses to exactly the segments it was
  written from, in order, each key and value pattern anchored and compiled; the first pattern that
  does not compile is the error.\<close>

theorem expression_parses:
  assumes "kvs \<noteq> []" "\<forall>kv \<in> set kvs. kv \<noteq> ([], None)"
  shows "ParseExpression compile (expression_string kvs) = compile_segments compile kvs"
  by (rule ParseExpression_string [OF assms])

theorem expression_parses_witness:
  "expression_string [(''a/b'', None), (''k=1'', Some ''v=2'')] =
     ''a'' @ [CHR 0x5C] @ ''/b/k'' @ [CHR 0x5C, CHR 0x5C] @ ''=1=v=2'' \<and>
   ParseExpression (\<lambda>s. Some (\<lambda>x. s = x)) (expression_string [(''a/b'', None), (''k=1'', Some ''v=2'')]) =
     Ok [\<lparr>KeyRe = (=) (anchored ''a/b''), ValueRe = None\<rparr>,
         \<lparr>KeyRe = (=) (anchored ''k=1''), ValueRe = Some ((=) (anchored ''v=2''))\<rparr>]"
  using expression_parses [of "[(''a/b'', None), (''k=1'', Some ''v=2'')]" "\<lambda>s. Some (\<lambda>x. s = x)"]
  by (simp add: expression_string_def segment_string_def compile_segment_def)

section \<open>Evaluation\<close>

text \<open>C26. Resolving an expression returns each matching node once: those reached from the root by one
  child step per segment with matching keys, value predicates tested on readable nodes only, the
  last node readable. Every result is part of the live tree and may be read by the caller.\<close>

theorem find_all_exact:
  assumes "wf_tree t" "FindAllAs compile ff t expression auth = Ok ns"
  shows "\<exists>segs. ParseExpression compile expression = Ok segs \<and>
    (\<forall>m. m \<in> set ns \<longleftrightarrow> matched ff t auth segs (Root t) m) \<and> distinct ns \<and>
    (\<forall>m \<in> set ns. canRead auth t m \<and> IsReachable t m \<and> m \<noteq> Root t)"
proof -
  obtain segs where segs: "ParseExpression compile expression = Ok segs"
    and ns: "ns = evaluateAs ff t (Root t) segs auth"
    using assms(2) by (auto simp: FindAllAs_def parse_def rbind_Ok_iff)
  have iff: "m \<in> set ns \<longleftrightarrow> matched ff t auth segs (Root t) m" for m
    using evaluateAs_matched [OF ParseExpression_nonempty [OF segs]] ns by simp
  have "canRead auth t m \<and> IsReachable t m \<and> m \<noteq> Root t" if "m \<in> set ns" for m
    using that matched_readable matched_reachable [OF _ reachable.root] IsReachable_iff [OF assms(1)]
      matched_has_parent [OF assms(1)] wf_treeD(2) [OF assms(1)] unfolding iff by (metis option.distinct(1))
  with segs iff ns distinct_evaluateAs [OF assms(1)] show ?thesis by auto
qed

section \<open>What a caller can learn\<close>

text \<open>Two trees that differ only in the values of nodes the identity may not read.\<close>

definition same_visible :: "auth \<Rightarrow> Tree \<Rightarrow> Tree \<Rightarrow> bool" where
  "same_visible auth t u \<longleftrightarrow> Root u = Root t \<and> fresh u = fresh t \<and>
     (\<forall>n. Key u n = Key t n \<and> Children u n = Children t n \<and> Parent u n = Parent t n \<and>
          tn_id (nodes u n) = tn_id (nodes t n) \<and> (canRead auth t n \<longrightarrow> Value u n = Value t n))"

lemma same_visible_keysUp: "same_visible auth t u \<Longrightarrow> keysUp k u n = keysUp k t n"
  by (induction k arbitrary: n) (auto simp: same_visible_def split: option.splits)

lemma same_visible_canRead: "same_visible auth t u \<Longrightarrow> canRead auth u n = canRead auth t n"
  using same_visible_keysUp [of auth t u]
  by (auto simp: canRead_def NodePath_def same_visible_def split: option.splits)

lemma same_visible_keeps:
  assumes "same_visible auth t u"
  shows "segmentKeeps ff u auth seg isLast c = segmentKeeps ff t auth seg isLast c"
  using assms same_visible_canRead [OF assms, of c]
  by (auto simp: segmentKeeps_iff step_matches_def same_visible_def split: option.splits)

lemma same_visible_evaluate:
  assumes "same_visible auth t u"
  shows "evaluateAs ff u r segs auth = evaluateAs ff t r segs auth"
proof -
  have "segmentLoop ff u auth segs ns = segmentLoop ff t auth segs ns" for ns
  proof (induction segs arbitrary: ns)
    case (Cons seg segs)
    have "segmentKeeps ff u auth seg (segs = []) = segmentKeeps ff t auth seg (segs = [])"
      using same_visible_keeps [OF assms] by blast
    moreover have "Children u n = Children t n" for n using assms by (simp add: same_visible_def)
    ultimately show ?case by (simp add: nodeLoop_concat Cons)
  qed simp
  then show ?thesis by (simp add: evaluateAs_def)
qed

lemma same_visible_prune:
  assumes "same_visible auth t u" "canRead auth t n"
  shows "prune k u auth n = prune k t auth n"
  using assms(2)
proof (induction k arbitrary: n)
  case (Suc k)
  have *: "filter (canRead auth u) (Children u n) = filter (canRead auth t) (Children t n)"
    using assms(1) same_visible_canRead [OF assms(1)] by (simp add: same_visible_def fun_eq_iff cong: filter_cong)
  have "map (prune k u auth) (filter (canRead auth t) (Children t n)) =
    map (prune k t auth) (filter (canRead auth t) (Children t n))"
    using Suc.IH by simp
  with * Suc.prems assms(1) show ?case by (simp add: same_visible_def)
qed (use assms(1) in \<open>simp add: same_visible_def\<close>)

text \<open>C15. Noninterference of reads: what a get, a query sample or a resolution returns to an identity,
  errors included, does not depend on the values of nodes it may not read, so no expression and no
  value predicate can be used to test them.\<close>

theorem reads_reveal_only_readable:
  assumes "same_visible auth t u"
  shows "GetFullAs compile ff u expression auth = GetFullAs compile ff t expression auth \<and>
    FindAllAs compile ff u expression auth = FindAllAs compile ff t expression auth \<and>
    SampleAs compile ff u expression auth = SampleAs compile ff t expression auth"
proof -
  note eval = same_visible_evaluate [OF assms, of ff]
  have root: "Root u = Root t" "fresh u = fresh t" using assms by (simp_all add: same_visible_def)
  have readable: "canRead auth t n" if "segs \<noteq> []" "n \<in> set (evaluateAs ff t r segs auth)" for n r segs
    using evaluateAs_matched [OF that(1)] that(2) matched_readable by blast
  have prune: "map (\<lambda>n. pruneVisible u n auth) (evaluateAs ff t r segs auth) =
      map (\<lambda>n. pruneVisible t n auth) (evaluateAs ff t r segs auth)" if "segs \<noteq> []" for r segs
    using readable [OF that] same_visible_prune [OF assms] root by (simp add: pruneVisible_def)
  have sample: "map (\<lambda>n. \<lparr>sm_ID = tn_id (nodes u n), sm_Key = Key u n, sm_Value = Value u n\<rparr>)
        (evaluateAs ff t r segs auth) =
      map (\<lambda>n. \<lparr>sm_ID = tn_id (nodes t n), sm_Key = Key t n, sm_Value = Value t n\<rparr>)
        (evaluateAs ff t r segs auth)" if "segs \<noteq> []" for r segs
    using readable [OF that] assms by (simp add: same_visible_def)
  have parse: "segs \<noteq> []" if "parse compile e = Ok segs" for e segs
    using ParseExpression_nonempty that by (auto simp: parse_def)
  have "GetFullAs compile ff u expression auth = GetFullAs compile ff t expression auth"
    using prune parse eval root
    by (cases "parse compile (fst (SplitResumeSuffix expression))")
       (simp_all add: GetFullAs_def split_beta Let_def del: map_eq_conv)
  moreover have "FindAllAs compile ff u expression auth = FindAllAs compile ff t expression auth"
    using eval root by (simp add: FindAllAs_def)
  moreover have "SampleAs compile ff u expression auth = SampleAs compile ff t expression auth"
    using sample parse eval root
    by (cases "parse compile expression") (simp_all add: SampleAs_def del: map_eq_conv)
  ultimately show ?thesis by blast
qed

text \<open>A tree with a public and a secret entry, and an identity that may not read the secret.\<close>

definition demoTree :: "NodeValue \<Rightarrow> Tree" where
  "demoTree v = snd (AppendUnder 0 ''secret'' v (snd (AppendUnder 0 ''public'' (ValueInteger32 1) NewTree)))"

definition demoAuth :: auth where
  "demoAuth = Some (\<lambda>op path. path \<noteq> ''/secret'')"

lemma demoTree_nodes:
  "nodes (demoTree v) = (nodes NewTree)
     (1 := \<lparr>tn_Key = ''public'', tn_Value = ValueInteger32 1, tn_Children = [], tn_Parent = Some 0, tn_id = 1\<rparr>,
      2 := \<lparr>tn_Key = ''secret'', tn_Value = v, tn_Children = [], tn_Parent = Some 0, tn_id = 2\<rparr>,
      0 := (nodes NewTree 0)\<lparr>tn_Children := [1, 2]\<rparr>)"
  "fresh (demoTree v) = 3" "Root (demoTree v) = 0"
  by (auto simp: demoTree_def AppendUnder_def allocNode_def AppendChild_def NewTree_def notifyChanged_def
      update_def setChildren_def setParent_def Let_def)

lemma demoTree_wf: "wf_tree (demoTree v)"
proof -
  have new: "nodes NewTree n = \<lparr>tn_Key = ''/'', tn_Value = ValueNoValue, tn_Children = [],
      tn_Parent = None, tn_id = 0\<rparr>" for n by (simp add: NewTree_def)
  have "parents_acyclic (demoTree v)"
    unfolding parents_acyclic_def by (intro exI [of _ "\<lambda>n. n"]) (auto simp: demoTree_nodes new split: if_splits)
  then show ?thesis unfolding wf_tree_def by (auto simp: demoTree_nodes new split: if_splits)
qed

theorem reads_reveal_only_readable_witness:
  "Value (demoTree (ValueInteger32 7)) 2 \<noteq> Value (demoTree (ValueInteger32 8)) 2 \<and>
   GetFullAs (\<lambda>p. Some (\<lambda>x. True)) (\<lambda>r. []) (demoTree (ValueInteger32 8)) ''x=7'' demoAuth =
     GetFullAs (\<lambda>p. Some (\<lambda>x. True)) (\<lambda>r. []) (demoTree (ValueInteger32 7)) ''x=7'' demoAuth"
proof -
  have "same_visible demoAuth (demoTree (ValueInteger32 7)) (demoTree (ValueInteger32 8))"
    by (auto simp: same_visible_def demoTree_nodes canRead_def demoAuth_def NodePath_def NewTree_def
        eval_nat_numeral split: if_splits)
  from reads_reveal_only_readable [OF this] show ?thesis by (simp add: demoTree_nodes)
qed

theorem find_all_exact_witness:
  "FindAllAs (\<lambda>p. Some (\<lambda>x. True)) (\<lambda>r. []) (demoTree ValueNoValue) ''x'' demoAuth = Ok [1] \<and>
   canRead demoAuth (demoTree ValueNoValue) 1 \<and> IsReachable (demoTree ValueNoValue) 1"
proof -
  have found: "FindAllAs (\<lambda>p. Some (\<lambda>x. True)) (\<lambda>r. []) (demoTree ValueNoValue) ''x'' demoAuth = Ok [1]"
    by code_simp
  from find_all_exact [OF demoTree_wf found] found show ?thesis by auto
qed

section \<open>Flattened results\<close>

text \<open>C28. The flattening algorithm (a pre-order walk, three maps keyed by node, then the chaining of the
  matches) gives the array the structural recursion gives: each entry's first child is the next
  entry, its next sibling the entry after its subtree, and matches are chained as siblings. Following
  the offset pointers of the array gives the matched subtrees back: keys, values, children and
  their order.\<close>

theorem flatten_represents:
  assumes "length (FlattenMatches ms) < 2 ^ 63"
  shows "FlattenMatches ms = flats ms \<and> flattenSubtree v = flat (offset 0) v \<and>
    represents (FlattenMatches ms) (if ms = [] then None else Some 0) ms"
proof -
  have "flats ms = [] @ flats ms @ []" by simp
  from represents_flats(2) [OF this] assms show ?thesis
    by (cases "ms = []") (simp_all add: FlattenMatches_flats flattenSubtree_flat)
qed

theorem flatten_represents_witness:
  "represents (FlattenMatches [VNode ''a'' ValueNoValue [VNode ''b'' ValueNoValue [], VNode ''c'' ValueNoValue []],
      VNode ''d'' ValueNoValue []]) (Some 0)
     [VNode ''a'' ValueNoValue [VNode ''b'' ValueNoValue [], VNode ''c'' ValueNoValue []],
      VNode ''d'' ValueNoValue []]"
  using flatten_represents [of "[VNode ''a'' ValueNoValue [VNode ''b'' ValueNoValue [], VNode ''c'' ValueNoValue []],
      VNode ''d'' ValueNoValue []]"] by (simp add: FlattenMatches_flats)

section \<open>Paging\<close>

text \<open>C29. Cutting to a size: the result is a prefix of the remaining entries that fits the size (or is
  empty), it is reported truncated exactly when entries are left out, and then the whole remainder
  does not fit; if sizes grow with the length it is the longest prefix that fits.\<close>

theorem fit_to_size:
  assumes "r \<le> length xs" "FitToSize xs r base maxSize msize = (window, truncated)"
  shows "\<exists>n \<le> length xs - r. window = fixupWindow xs r n base \<and> length window = n \<and>
    (window \<noteq> [] \<longrightarrow> msize window \<le> maxSize) \<and> (truncated \<longleftrightarrow> n < length xs - r) \<and>
    (truncated \<longrightarrow> maxSize < msize (fixupWindow xs r (length xs - r) base)) \<and>
    ((\<forall>i j. i \<le> j \<longrightarrow> msize (fixupWindow xs r j base) \<le> maxSize \<longrightarrow>
        msize (fixupWindow xs r i base) \<le> maxSize) \<longrightarrow>
     (\<forall>m \<le> length xs - r. msize (fixupWindow xs r m base) \<le> maxSize \<longrightarrow> m \<le> n))"
proof (rule FitToSize_fits [OF assms(1), of base maxSize msize])
  fix n
  assume eq: "FitToSize xs r base maxSize msize = (fixupWindow xs r n base, n < length xs - r)"
    and n: "n \<le> length xs - r" "0 < n \<longrightarrow> msize (fixupWindow xs r n base) \<le> maxSize"
      "n < length xs - r \<longrightarrow> \<not> msize (fixupWindow xs r (length xs - r) base) \<le> maxSize"
    and best: "\<forall>i j. i \<le> j \<longrightarrow> msize (fixupWindow xs r j base) \<le> maxSize \<longrightarrow>
        msize (fixupWindow xs r i base) \<le> maxSize \<Longrightarrow>
      \<forall>m \<le> length xs - r. msize (fixupWindow xs r m base) \<le> maxSize \<longrightarrow> m \<le> n"
  have w: "window = fixupWindow xs r n base" "truncated = (n < length xs - r)"
    using eq assms(2) by simp_all
  have len: "length window = n" using n(1) w(1) assms(1) by (simp add: length_fixupWindow)
  show ?thesis
    using n best len w by (intro exI [of _ n] conjI impI) (auto simp: not_le)
qed

theorem fit_to_size_witness:
  "FitToSize (FlattenMatches [VNode ''a'' ValueNoValue [VNode ''b'' ValueNoValue []]]) 0 ''e'' 1
      (\<lambda>ns. int (length ns)) =
    ([\<lparr>nd_Key = ''a'', nd_Value = ValueNoValue, nd_FirstChild = PointerAbsolute ''e@1'',
       nd_NextSibling = PointerOffset 0\<rparr>], True) \<and>
   1 < int (length (fixupWindow (FlattenMatches [VNode ''a'' ValueNoValue [VNode ''b'' ValueNoValue []]])
      0 2 ''e''))"
proof -
  have f: "FitToSize (FlattenMatches [VNode ''a'' ValueNoValue [VNode ''b'' ValueNoValue []]]) 0 ''e'' 1
      (\<lambda>ns. int (length ns)) =
    ([\<lparr>nd_Key = ''a'', nd_Value = ValueNoValue, nd_FirstChild = PointerAbsolute ''e@1'',
       nd_NextSibling = PointerOffset 0\<rparr>], True)" by code_simp
  have "length (FlattenMatches [VNode ''a'' ValueNoValue [VNode ''b'' ValueNoValue []]]) - 0 = 2"
    by (simp add: FlattenMatches_flats)
  with fit_to_size [OF _ f] f show ?thesis by (auto simp del: length_0_conv)
qed

text \<open>The pointers in a page: one that leads to an entry of the page (or nowhere) is kept, one that
  leads past it becomes a continuation expression, and resolving that expression resumes the same
  base expression at exactly the entry pointed to.\<close>

theorem page_pointers:
  assumes "length (FlattenMatches ms) < 2 ^ 63" "r + n \<le> length (FlattenMatches ms)" "i < n"
    and "field \<in> {nd_FirstChild, nd_NextSibling}" "resume_plain base"
  shows "let p = field (FlattenMatches ms ! (r + i)); q = field (fixupWindow (FlattenMatches ms) r n base ! i)
    in case target (r + i) p of
         None \<Rightarrow> q = p
       | Some j \<Rightarrow> int (r + i) < j \<and> j < int (length (FlattenMatches ms)) \<and>
           (if j < int (r + n) then q = p
            else q = PointerAbsolute (continuation base (nat j)) \<and>
                 SplitResumeSuffix (continuation base (nat j)) = (base, j))"
proof -
  let ?flat = "FlattenMatches ms"
  obtain d where d: "field (?flat ! (r + i)) = offset d" "r + i + d < length ?flat"
    using flat_forward(2) [of "r + i" ms] assms(2-4)
    by (auto simp: FlattenMatches_flats length_flats forward_def)
  have q: "field (fixupWindow ?flat r n base ! i) =
      (if d = 0 \<or> r + i + d < r + n then offset d else PointerAbsolute (continuation base (r + i + d)))"
    using assms(4) window_nth [OF assms(2,3), of base] fixup_offset [of "r + i" d "r + n" base] d assms(1)
    by auto
  have "SplitResumeSuffix (continuation base (r + i + d)) = (base, int (r + i + d))"
    using assms d by (intro SplitResumeSuffix_plain(2)) auto
  moreover have "nat (int r + int i + int d) = r + i + d" by simp
  ultimately show ?thesis using d q assms(1) target_offset [of d "r + i"]
    by (auto simp: Let_def)
qed

theorem page_pointers_witness:
  "target 0 (nd_FirstChild (FlattenMatches [VNode ''a'' ValueNoValue [VNode ''b'' ValueNoValue []]] ! 0)) = Some 1 \<and>
   nd_FirstChild (fixupWindow (FlattenMatches [VNode ''a'' ValueNoValue [VNode ''b'' ValueNoValue []]]) 0 1 ''e'' ! 0) =
     PointerAbsolute (continuation ''e'' 1) \<and>
   SplitResumeSuffix (continuation ''e'' 1) = (''e'', 1)"
proof -
  have "target 0 (nd_FirstChild (FlattenMatches [VNode ''a'' ValueNoValue [VNode ''b'' ValueNoValue []]] ! 0)) = Some 1"
    by code_simp
  with page_pointers [of "[VNode ''a'' ValueNoValue [VNode ''b'' ValueNoValue []]]" 0 1 0 nd_FirstChild "''e''"]
  show ?thesis by (simp add: FlattenMatches_flats Let_def)
qed

lemma GetFullAs_continuation:
  assumes "resume_plain base" "int n < 2 ^ 63"
  shows "GetFullAs compile ff t (continuation base n) auth =
    rbind (GetFullAs compile ff t base auth) (\<lambda>(xs, _, b).
      if n \<le> length xs then Ok (xs, n, b) else Err (ResumeOutOfRange (int n) (length xs)))"
proof -
  show ?thesis using SplitResumeSuffix_plain(1) [OF assms(1)] SplitResumeSuffix_plain(2) [OF assms]
    by (cases "parse compile base") (simp_all add: GetFullAs_def Let_def)
qed

lemma continuation_loses_escape:
  "SplitResumeSuffix (''a'' @ [CHR 0x5C] @ ''@b'') = (''a'' @ [CHR 0x5C] @ ''@b'', 0)"
  "SplitResumeSuffix (continuation (''a'' @ [CHR 0x5C] @ ''@b'') 5) = (''a@b'', 5)"
  "SplitResumeSuffix (continuation ''a@b'' 10) = (''a@b@10'', 0)"
  by code_simp+



end
