(* ===== verification/Tree_Edit.thy ===== *)
theory Tree_Edit
  imports Flatten_Props
begin

text \<open>
  The requests that change the tree (\<open>CreateStagedAs\<close>, \<open>SetAs\<close>, \<open>DeleteAs\<close> and
  \<open>AppendLeafSubtree\<close> in \<open>internal/tree/tree.go\<close>): planning against the tree as it stands, permission
  checks, applying with undo records, and rollback.
\<close>

section \<open>Authorization helpers\<close>

definition requireOp :: "auth \<Rightarrow> Op \<Rightarrow> Tree \<Rightarrow> nat \<Rightarrow> unit tree_result" where
  "requireOp auth op t n =
     (case auth of None \<Rightarrow> Ok ()
      | Some allowed \<Rightarrow>
          if allowed op (NodePath t n) then Ok () else Err (PermissionDenied op (NodePath t n)))"

text \<open>The recursion over the subtree, bounded by the number of nodes (\<open>subtreeAllows_iff\<close>).\<close>

fun subtreeLoop :: "nat \<Rightarrow> (Op \<Rightarrow> string \<Rightarrow> bool) \<Rightarrow> Op \<Rightarrow> Tree \<Rightarrow> nat \<Rightarrow> bool" where
  "subtreeLoop 0 allowed op t n = True"
| "subtreeLoop (Suc k) allowed op t n =
     list_all (\<lambda>c. allowed op (NodePath t c) \<and> subtreeLoop k allowed op t c) (Children t n)"

definition subtreeAllows :: "(Op \<Rightarrow> string \<Rightarrow> bool) \<Rightarrow> Op \<Rightarrow> Tree \<Rightarrow> nat \<Rightarrow> bool" where
  "subtreeAllows allowed op t n = subtreeLoop (fresh t) allowed op t n"

fun requireDeleteLoop :: "(Op \<Rightarrow> string \<Rightarrow> bool) \<Rightarrow> Tree \<Rightarrow> nat list \<Rightarrow> unit tree_result" where
  "requireDeleteLoop allowed t [] = Ok ()"
| "requireDeleteLoop allowed t (n # ns) =
     rbind (requireOp (Some allowed) OpDelete t n) (\<lambda>_.
       if \<not> subtreeAllows allowed OpDelete t n then Err (SubtreeDenied (NodePath t n))
       else requireDeleteLoop allowed t ns)"

definition requireDeleteAll :: "auth \<Rightarrow> Tree \<Rightarrow> nat list \<Rightarrow> unit tree_result" where
  "requireDeleteAll auth t ns =
     (case auth of None \<Rightarrow> Ok () | Some allowed \<Rightarrow> requireDeleteLoop allowed t ns)"

definition droppedByFirstChild :: "Tree \<Rightarrow> nat \<Rightarrow> nat option \<Rightarrow> nat list" where
  "droppedByFirstChild t parent newFirst =
     (case newFirst of
        None \<Rightarrow> Children t parent
      | Some c \<Rightarrow>
          let idx = indexOfChild t parent c in
          if idx \<le> 0 then [] else take (nat idx) (Children t parent))"

definition droppedByNextSibling :: "Tree \<Rightarrow> nat \<Rightarrow> nat option \<Rightarrow> nat list" where
  "droppedByNextSibling t node newNext =
     (case Parent t node of
        None \<Rightarrow> []
      | Some parent \<Rightarrow>
          let idx = indexOfChild t parent node; cs = Children t parent in
          if idx < 0 then []
          else
            case newNext of
              None \<Rightarrow> drop (nat idx + 1) cs
            | Some m \<Rightarrow>
                let newIdx = indexOfChild t parent m in
                if newIdx \<le> idx + 1 then [] else drop (nat idx + 1) (take (nat newIdx) cs))"

section \<open>Relinking\<close>

definition relinkFirstChild :: "nat \<Rightarrow> nat option \<Rightarrow> Tree \<Rightarrow> Tree tree_result" where
  "relinkFirstChild parent newFirstChild t =
     (case newFirstChild of
        None \<Rightarrow> Ok (setChildren parent [] t)
      | Some c \<Rightarrow>
          if Parent t c \<noteq> Some parent then Err (NotAChild (Key t c))
          else
            let idx = indexOfChild t parent c in
            if idx < 0 then Err RemovedByEarlierEdit
            else Ok (setChildren parent (drop (nat idx) (Children t parent)) t))"

definition relinkNextSibling :: "nat \<Rightarrow> nat option \<Rightarrow> Tree \<Rightarrow> Tree tree_result" where
  "relinkNextSibling node newNextSibling t =
     (case Parent t node of
        None \<Rightarrow> Err TargetIsRoot
      | Some parent \<Rightarrow>
          let idx = indexOfChild t parent node; cs = Children t parent in
          if idx < 0 then Err RemovedByEarlierEdit
          else
            case newNextSibling of
              None \<Rightarrow> Ok (setChildren parent (take (nat idx + 1) cs) t)
            | Some m \<Rightarrow>
                if Parent t m \<noteq> Some parent then Err (NotASibling (Key t m))
                else
                  let newIdx = indexOfChild t parent m in
                  if newIdx < 0 then Err RemovedByEarlierEdit
                  else Ok (setChildren parent (take (nat idx + 1) cs @ drop (nat newIdx) cs) t))"

section \<open>Create\<close>

definition CreateStagedAs :: "compiler \<Rightarrow> (f64 \<Rightarrow> string) \<Rightarrow> nat \<Rightarrow> string \<Rightarrow> string \<Rightarrow> NodeValue \<Rightarrow>
    auth \<Rightarrow> Tree \<Rightarrow> Tree \<times> nat tree_result" where
  "CreateStagedAs compile ff stagingRoot parentExpr key value auth t =
     (let parent =
        (if parentExpr \<noteq> [] then
           rbind (wrap_err (InParent parentExpr)
                    (resolveExpressionExactlyOne compile ff t parentExpr auth)) (\<lambda>n.
             if \<not> isDescendantOrSelf t stagingRoot n then Err (InParent parentExpr NotStaged)
             else Ok n)
         else Ok stagingRoot)
      in case parent of
           Err e \<Rightarrow> (t, Err e)
         | Panic \<Rightarrow> (t, Panic)
         | Ok p \<Rightarrow> (let (n, t') = allocNode key value t
                   in (notifyChanged (AppendChild p n t'), Ok n)))"

definition CreateStaged :: "compiler \<Rightarrow> (f64 \<Rightarrow> string) \<Rightarrow> nat \<Rightarrow> string \<Rightarrow> string \<Rightarrow> NodeValue \<Rightarrow>
    Tree \<Rightarrow> Tree \<times> nat tree_result" where
  "CreateStaged compile ff stagingRoot parentExpr key value t =
     CreateStagedAs compile ff stagingRoot parentExpr key value None t"

fun appendLeaves :: "nat \<Rightarrow> (string \<times> NodeValue) list \<Rightarrow> Tree \<Rightarrow> Tree" where
  "appendLeaves root [] t = t"
| "appendLeaves root ((k, v) # es) t =
     (let (n, t') = allocNode k v t in appendLeaves root es (AppendChild root n t'))"

definition AppendLeafSubtree :: "nat \<Rightarrow> string \<Rightarrow> (string \<times> NodeValue) list \<Rightarrow> Tree \<Rightarrow> Tree \<times> Node list" where
  "AppendLeafSubtree parent rootKey entries t =
     (let (root, t) = allocNode rootKey ValueNoValue t;
          t = AppendChild parent root t;
          t = appendLeaves root entries t
      in (notifyChanged t, flattenSubtree (pruneVisible t root None)))"

section \<open>Set: planning\<close>

record setEditPlan =
  pl_edit :: SetEdit
  pl_targets :: "nat list"
  pl_firstChild :: "nat option"
  pl_nextSibling :: "nat option"
  pl_newParent :: "nat option"

definition resolveOne :: "compiler \<Rightarrow> (f64 \<Rightarrow> string) \<Rightarrow> Tree \<Rightarrow> NodePointer \<Rightarrow> auth \<Rightarrow> nat tree_result" where
  "resolveOne compile ff t p auth =
     (case p of PointerAbsolute e \<Rightarrow> resolveExpressionExactlyOne compile ff t e auth
      | _ \<Rightarrow> Err NotAbsolute)"

definition resolvePointerAsChild ::
    "compiler \<Rightarrow> (f64 \<Rightarrow> string) \<Rightarrow> Tree \<Rightarrow> NodePointer \<Rightarrow> auth \<Rightarrow> nat option tree_result" where
  "resolvePointerAsChild compile ff t p auth =
     (if p = PointerNone then Ok None
      else rbind (resolveOne compile ff t p auth) (\<lambda>n. Ok (Some n)))"

fun requireAll :: "auth \<Rightarrow> Op \<Rightarrow> Tree \<Rightarrow> nat list \<Rightarrow> unit tree_result" where
  "requireAll auth op t [] = Ok ()"
| "requireAll auth op t (n # ns) = rbind (requireOp auth op t n) (\<lambda>_. requireAll auth op t ns)"

text \<open>\<open>if cond \{ if err := check; err != nil \{ return err \} \}\<close>\<close>

definition guarded :: "bool \<Rightarrow> 'a tree_result \<Rightarrow> 'a \<Rightarrow> 'a tree_result" where
  "guarded cond check x = (if cond then check else Ok x)"

definition planFirstChild :: "compiler \<Rightarrow> (f64 \<Rightarrow> string) \<Rightarrow> Tree \<Rightarrow> auth \<Rightarrow> nat list \<Rightarrow> NodePointer option \<Rightarrow>
    nat option tree_result" where
  "planFirstChild compile ff t auth targets ptr =
     (case ptr of None \<Rightarrow> Ok None
      | Some p \<Rightarrow>
          rbind (resolvePointerAsChild compile ff t p auth) (\<lambda>n.
          rbind (requireDeleteAll auth t (droppedByFirstChild t (targets ! 0) n)) (\<lambda>_. Ok n)))"

definition planNextSibling :: "compiler \<Rightarrow> (f64 \<Rightarrow> string) \<Rightarrow> Tree \<Rightarrow> auth \<Rightarrow> nat list \<Rightarrow> NodePointer option \<Rightarrow>
    nat option tree_result" where
  "planNextSibling compile ff t auth targets ptr =
     (case ptr of None \<Rightarrow> Ok None
      | Some p \<Rightarrow>
          rbind (resolvePointerAsChild compile ff t p auth) (\<lambda>n.
          rbind (requireDeleteAll auth t (droppedByNextSibling t (targets ! 0) n)) (\<lambda>_. Ok n)))"

definition planNewParent :: "compiler \<Rightarrow> (f64 \<Rightarrow> string) \<Rightarrow> Tree \<Rightarrow> auth \<Rightarrow> nat option \<Rightarrow> nat list \<Rightarrow>
    string option \<Rightarrow> nat option tree_result" where
  "planNewParent compile ff t auth stagingRoot targets expr =
     (case expr of None \<Rightarrow> Ok None
      | Some e \<Rightarrow>
          (case stagingRoot of None \<Rightarrow> Err NotStaged
           | Some s \<Rightarrow>
               if \<not> isDescendant t s (targets ! 0) then Err NotStaged
               else
                 rbind (resolveExpressionExactlyOne compile ff t e auth) (\<lambda>p.
                 rbind (requireOp auth OpWrite t p) (\<lambda>_.
                 if p = targets ! 0 \<or> isDescendant t (targets ! 0) p then Err WouldCycle
                 else Ok (Some p)))))"

definition structural :: "SetEdit \<Rightarrow> bool" where
  "structural e \<longleftrightarrow> se_NewFirstChild e \<noteq> None \<or> se_NewNextSibling e \<noteq> None \<or> se_NewParent e \<noteq> None"

definition planEdit :: "compiler \<Rightarrow> (f64 \<Rightarrow> string) \<Rightarrow> Tree \<Rightarrow> nat option \<Rightarrow> auth \<Rightarrow> SetEdit \<Rightarrow>
    setEditPlan tree_result" where
  "planEdit compile ff t stagingRoot auth e =
     rbind (wrap_err (InTarget (se_Target e)) (parse compile (se_Target e))) (\<lambda>segments.
     let targets = evaluateAs ff t (Root t) segments auth in
     if structural e \<and> length targets \<noteq> 1
       then Err (InTarget (se_Target e) (StructuralCount (length targets)))
     else
       rbind (guarded (se_NewValue e \<noteq> None) (requireAll auth OpWrite t targets) ()) (\<lambda>_.
       rbind (guarded (structural e) (requireOp auth OpWrite t (targets ! 0)) ()) (\<lambda>_.
       rbind (wrap_err (InTarget (se_Target e) \<circ> InNewFirstChild)
                (planFirstChild compile ff t auth targets (se_NewFirstChild e))) (\<lambda>fc.
       rbind (wrap_err (InTarget (se_Target e) \<circ> InNewNextSibling)
                (planNextSibling compile ff t auth targets (se_NewNextSibling e))) (\<lambda>ns.
       rbind (wrap_err (InTarget (se_Target e) \<circ> InNewParent)
                (planNewParent compile ff t auth stagingRoot targets (se_NewParent e))) (\<lambda>np.
       Ok \<lparr>pl_edit = e, pl_targets = targets, pl_firstChild = fc, pl_nextSibling = ns,
           pl_newParent = np\<rparr>))))))"

fun planEdits :: "compiler \<Rightarrow> (f64 \<Rightarrow> string) \<Rightarrow> Tree \<Rightarrow> nat option \<Rightarrow> auth \<Rightarrow> SetEdit list \<Rightarrow>
    setEditPlan list tree_result" where
  "planEdits compile ff t stagingRoot auth [] = Ok []"
| "planEdits compile ff t stagingRoot auth (e # es) =
     rbind (planEdit compile ff t stagingRoot auth e) (\<lambda>plan.
     rbind (planEdits compile ff t stagingRoot auth es) (\<lambda>plans. Ok (plan # plans)))"

section \<open>Set: applying\<close>

record applyState =
  ap_tree :: Tree
  ap_valueUndos :: "(nat \<times> NodeValue) list"
  ap_parentUndos :: "(nat \<times> nat option) list"
  ap_childrenUndos :: "(nat \<times> nat list) list"
  ap_touched :: "nat list"

definition snapshotChildren :: "nat \<Rightarrow> applyState \<Rightarrow> applyState" where
  "snapshotChildren n st =
     (if n \<in> fst ` set (ap_childrenUndos st) then st
      else st\<lparr>ap_childrenUndos := (n, Children (ap_tree st) n) # ap_childrenUndos st\<rparr>)"

definition addTouched :: "nat \<Rightarrow> applyState \<Rightarrow> applyState" where
  "addTouched n st =
     (if n \<in> set (ap_touched st) then st else st\<lparr>ap_touched := ap_touched st @ [n]\<rparr>)"

text \<open>\<open>rollback\<close>: values, then parents, each in the order recorded, then child lists.\<close>

definition rollback :: "applyState \<Rightarrow> Tree" where
  "rollback st =
     foldl (\<lambda>t (n, cs). setChildren n cs t)
       (foldl (\<lambda>t (n, p). setParent n p t)
          (foldl (\<lambda>t (n, v). setValue n v t) (ap_tree st) (ap_valueUndos st))
          (ap_parentUndos st))
       (ap_childrenUndos st)"

fun writeValues :: "NodeValue \<Rightarrow> nat list \<Rightarrow> applyState \<Rightarrow> applyState" where
  "writeValues v [] st = st"
| "writeValues v (n # ns) st =
     writeValues v ns
       (addTouched n (st\<lparr>ap_valueUndos := ap_valueUndos st @ [(n, Value (ap_tree st) n)],
                        ap_tree := setValue n v (ap_tree st)\<rparr>))"

text \<open>An apply step fails with the state at the failure, which the caller rolls back.\<close>

type_synonym apply_result = "(tree_error \<times> applyState, applyState) result"

definition mutate :: "(Tree \<Rightarrow> Tree tree_result) \<Rightarrow> (tree_error \<Rightarrow> tree_error) \<Rightarrow> applyState \<Rightarrow> apply_result" where
  "mutate f wrap st =
     (case f (ap_tree st) of
        Ok t \<Rightarrow> Ok (st\<lparr>ap_tree := t\<rparr>) | Err e \<Rightarrow> Err (wrap e, st) | Panic \<Rightarrow> Panic)"

definition applyFirstChild :: "setEditPlan \<Rightarrow> applyState \<Rightarrow> apply_result" where
  "applyFirstChild p st =
     (if se_NewFirstChild (pl_edit p) = None then Ok st
      else
        let target = pl_targets p ! 0; st = snapshotChildren target st in
        rbind (mutate (relinkFirstChild target (pl_firstChild p))
                 (InTarget (se_Target (pl_edit p)) \<circ> InNewFirstChild) st)
          (\<lambda>st. Ok (addTouched target st)))"

definition applyNextSibling :: "setEditPlan \<Rightarrow> applyState \<Rightarrow> apply_result" where
  "applyNextSibling p st =
     (if se_NewNextSibling (pl_edit p) = None then Ok st
      else
        let target = pl_targets p ! 0;
            st = (case Parent (ap_tree st) target of None \<Rightarrow> st | Some q \<Rightarrow> snapshotChildren q st) in
        rbind (mutate (relinkNextSibling target (pl_nextSibling p))
                 (InTarget (se_Target (pl_edit p)) \<circ> InNewNextSibling) st)
          (\<lambda>st. Ok (addTouched target st)))"

text \<open>\<open>newParent\<close>: the old parent's list is recorded and searched, the new parent's recorded, then the
  node moves.\<close>

definition applyNewParent :: "setEditPlan \<Rightarrow> applyState \<Rightarrow> apply_result" where
  "applyNewParent p st =
     (case pl_newParent p of
        None \<Rightarrow> Ok st
      | Some newParent \<Rightarrow>
          let target = pl_targets p ! 0; oldParent = Parent (ap_tree st) target;
              st = (case oldParent of None \<Rightarrow> st | Some q \<Rightarrow> snapshotChildren q st) in
          if (case oldParent of None \<Rightarrow> False | Some q \<Rightarrow> indexOfChild (ap_tree st) q target < 0)
          then Err (InTarget (se_Target (pl_edit p)) (InNewParent RemovedByEarlierEdit), st)
          else
            let st = snapshotChildren newParent st in
            rbind (case oldParent of None \<Rightarrow> Ok st
                   | Some q \<Rightarrow> mutate (removeChild q target) id st) (\<lambda>st.
            let st = st\<lparr>ap_parentUndos := ap_parentUndos st @ [(target, oldParent)],
                        ap_tree := setParent target (Some newParent) (ap_tree st)\<rparr>;
                st = st\<lparr>ap_tree := setChildren newParent
                          (Children (ap_tree st) newParent @ [target]) (ap_tree st)\<rparr>
            in Ok (addTouched target st)))"

definition applyPlan :: "setEditPlan \<Rightarrow> applyState \<Rightarrow> apply_result" where
  "applyPlan p st =
     (let st = (case se_NewValue (pl_edit p) of None \<Rightarrow> st | Some v \<Rightarrow> writeValues v (pl_targets p) st) in
      rbind (applyFirstChild p st) (\<lambda>st.
      rbind (applyNextSibling p st) (\<lambda>st.
      applyNewParent p st)))"

fun applyPlans :: "setEditPlan list \<Rightarrow> applyState \<Rightarrow> apply_result" where
  "applyPlans [] st = Ok st"
| "applyPlans (p # ps) st = rbind (applyPlan p st) (\<lambda>st. applyPlans ps st)"

definition startApply :: "Tree \<Rightarrow> applyState" where
  "startApply t = \<lparr>ap_tree = t, ap_valueUndos = [], ap_parentUndos = [], ap_childrenUndos = [],
     ap_touched = []\<rparr>"

definition applySetPlans :: "setEditPlan list \<Rightarrow> Tree \<Rightarrow> Tree \<times> nat list tree_result" where
  "applySetPlans plans t =
     (case applyPlans plans (startApply t) of
        Ok st \<Rightarrow> (ap_tree st, Ok (ap_touched st))
      | Err (e, st) \<Rightarrow> (rollback st, Err e)
      | Panic \<Rightarrow> (t, Panic))"

definition SetAs :: "compiler \<Rightarrow> (f64 \<Rightarrow> string) \<Rightarrow> SetReq \<Rightarrow> nat option \<Rightarrow> auth \<Rightarrow> Tree \<Rightarrow>
    Tree \<times> nat list tree_result" where
  "SetAs compile ff s stagingRoot auth t =
     (case planEdits compile ff t stagingRoot auth (set_Edits s) of
        Err e \<Rightarrow> (t, Err e)
      | Panic \<Rightarrow> (t, Panic)
      | Ok plans \<Rightarrow>
          (case applySetPlans plans t of
             (t', Ok touched) \<Rightarrow> (if 0 < length touched then notifyChanged t' else t', Ok touched)
           | (t', r) \<Rightarrow> (t', r)))"

section \<open>Delete\<close>

fun addNew :: "nat list \<Rightarrow> nat list \<Rightarrow> nat list" where
  "addNew hits [] = hits"
| "addNew hits (n # ns) = addNew (if n \<in> set hits then hits else hits @ [n]) ns"

fun deleteMatches :: "compiler \<Rightarrow> (f64 \<Rightarrow> string) \<Rightarrow> Tree \<Rightarrow> auth \<Rightarrow> string list \<Rightarrow> nat list \<Rightarrow>
    nat list tree_result" where
  "deleteMatches compile ff t auth [] hits = Ok hits"
| "deleteMatches compile ff t auth (expr # exprs) hits =
     rbind (wrap_err (InTarget expr) (parse compile expr)) (\<lambda>segments.
     deleteMatches compile ff t auth exprs (addNew hits (evaluateAs ff t (Root t) segments auth)))"

text \<open>\<open>removeChild(n.Parent, n)\<close> for each match; a nil parent would be dereferenced.\<close>

fun removeAllMatched :: "nat list \<Rightarrow> Tree \<Rightarrow> Tree tree_result" where
  "removeAllMatched [] t = Ok t"
| "removeAllMatched (n # ns) t =
     (case Parent t n of None \<Rightarrow> Panic
      | Some p \<Rightarrow> rbind (removeChild p n t) (\<lambda>t. removeAllMatched ns t))"

definition DeleteAs :: "compiler \<Rightarrow> (f64 \<Rightarrow> string) \<Rightarrow> string list \<Rightarrow> auth \<Rightarrow> Tree \<Rightarrow>
    Tree \<times> nat list tree_result" where
  "DeleteAs compile ff targets auth t =
     (case rbind (deleteMatches compile ff t auth targets []) (\<lambda>hits.
             rbind (requireDeleteAll auth t hits) (\<lambda>_. Ok hits)) of
        Err e \<Rightarrow> (t, Err e)
      | Panic \<Rightarrow> (t, Panic)
      | Ok hits \<Rightarrow>
          (case removeAllMatched hits t of
             Ok t' \<Rightarrow> (if 0 < length hits then notifyChanged t' else t', Ok hits)
           | Err e \<Rightarrow> (t, Err e)
           | Panic \<Rightarrow> (t, Panic)))"

end
