(* ===== verification/Undo.thy ===== *)
theory Undo
  imports Tree_Edit
begin

text \<open>
  The undo records of \<open>applySetPlans\<close>: what they hold at every point of the application
  (\<open>undo_ok\<close>), and what \<open>rollback\<close> therefore restores.
\<close>

section \<open>Trees that differ only in links and values\<close>

definition same_frame :: "Tree \<Rightarrow> Tree \<Rightarrow> bool" where
  "same_frame t u \<longleftrightarrow> fresh u = fresh t \<and> Root u = Root t \<and> nextNodeID u = nextNodeID t \<and>
     changeGen u = changeGen t \<and> changeCh u = changeCh t \<and>
     (\<forall>n. Key u n = Key t n \<and> tn_id (nodes u n) = tn_id (nodes t n))"

lemma same_frame_refl [simp]: "same_frame t t"
  by (simp add: same_frame_def)

lemma setters_frame [simp]:
  "same_frame t (setChildren n cs u) = same_frame t u"
  "same_frame t (setParent n p u) = same_frame t u"
  "same_frame t (setValue n v u) = same_frame t u"
  by (auto simp: same_frame_def setChildren_def setParent_def setValue_def update_def)

lemma tree_eqI:
  assumes "same_frame t u" "\<And>n. Value u n = Value t n" "\<And>n. Children u n = Children t n"
    "\<And>n. Parent u n = Parent t n"
  shows "u = t"
proof -
  have "nodes u n = nodes t n" for n
    using assms by (intro tnode.equality) (auto simp: same_frame_def)
  then have "nodes u = nodes t" by blast
  with assms(1) show ?thesis by (cases u; cases t) (simp add: same_frame_def)
qed

section \<open>Undo lists\<close>

text \<open>An undo list against the original: the first record of each key holds the original; keys without
  a record are unchanged.\<close>

definition undo_list :: "('a \<Rightarrow> 'b) \<Rightarrow> ('a \<Rightarrow> 'b) \<Rightarrow> ('a \<times> 'b) list \<Rightarrow> bool" where
  "undo_list orig now us \<longleftrightarrow>
     (\<forall>n. (map_of us n = None \<longrightarrow> now n = orig n) \<and> (\<forall>old. map_of us n = Some old \<longrightarrow> old = orig n))"

lemma undo_list_Nil [simp]: "undo_list orig orig []"
  by (simp add: undo_list_def)

lemma undo_list_write:
  "undo_list orig now us \<Longrightarrow> undo_list orig (now(n := x)) (us @ [(n, now n)])"
  by (auto simp: undo_list_def map_add_def split: option.splits)

lemma undo_list_put:
  "undo_list orig now us \<Longrightarrow> map_of us n \<noteq> None \<Longrightarrow> undo_list orig (now(n := x)) us"
  by (auto simp: undo_list_def)

text \<open>Restoring in order: the last record of a key wins.\<close>

definition restore :: "('a \<Rightarrow> 'b) \<Rightarrow> ('a \<times> 'b) list \<Rightarrow> 'a \<Rightarrow> 'b" where
  "restore now us n = (case map_of (rev us) n of None \<Rightarrow> now n | Some old \<Rightarrow> old)"

lemma map_of_rev_distinct: "distinct (map fst us) \<Longrightarrow> map_of (rev us) = map_of us"
proof (induction us)
  case (Cons u us)
  then have "map_of us (fst u) = None" by (simp add: map_of_eq_None_iff)
  with Cons show ?case by (cases u) (auto simp: map_add_def fun_eq_iff split: option.splits)
qed simp

lemma restore_undo: "undo_list orig now us \<Longrightarrow> distinct (map fst us) \<Longrightarrow> restore now us = orig"
  by (rule ext) (simp add: restore_def undo_list_def map_of_rev_distinct split: option.split)

lemma restore_simps:
  "restore now [] = now" "restore now (us @ [u]) = (restore now us)(fst u := snd u)"
  "restore now (u # us) = restore (now(fst u := snd u)) us"
  by (cases u; auto simp: restore_def fun_eq_iff map_add_def split: option.splits)+

section \<open>The state of an application\<close>

definition undo_rec :: "Tree \<Rightarrow> Tree \<Rightarrow> (nat \<times> NodeValue) list \<Rightarrow> (nat \<times> nat option) list \<Rightarrow>
    (nat \<times> nat list) list \<Rightarrow> bool" where
  "undo_rec t u vs ps cs \<longleftrightarrow> same_frame t u \<and> undo_list (Value t) (Value u) vs \<and>
     undo_list (Parent t) (Parent u) ps \<and> undo_list (Children t) (Children u) cs \<and>
     distinct (map fst cs)"

definition undo_ok :: "Tree \<Rightarrow> applyState \<Rightarrow> bool" where
  "undo_ok t st \<longleftrightarrow>
     undo_rec t (ap_tree st) (ap_valueUndos st) (ap_parentUndos st) (ap_childrenUndos st)"

lemma undo_ok_start: "undo_ok t (startApply t)"
  by (simp add: undo_ok_def undo_rec_def startApply_def)

lemma set_fields:
  "Value (setValue n v t) = (Value t)(n := v)" "Parent (setValue n v t) = Parent t"
  "Children (setValue n v t) = Children t"
  "Parent (setParent n p t) = (Parent t)(n := p)" "Value (setParent n p t) = Value t"
  "Children (setParent n p t) = Children t"
  "Children (setChildren n cs t) = (Children t)(n := cs)" "Value (setChildren n cs t) = Value t"
  "Parent (setChildren n cs t) = Parent t"
  by auto

lemma foldl_setValue:
  "Value (foldl (\<lambda>t (n, v). setValue n v t) t us) = restore (Value t) us"
  "Parent (foldl (\<lambda>t (n, v). setValue n v t) t us) = Parent t"
  "Children (foldl (\<lambda>t (n, v). setValue n v t) t us) = Children t"
  "same_frame t0 (foldl (\<lambda>t (n, v). setValue n v t) t us) = same_frame t0 t"
  by (induction us arbitrary: t) (simp_all only: foldl.simps restore_simps split_beta set_fields setters_frame)

lemma foldl_setParent:
  "Parent (foldl (\<lambda>t (n, v). setParent n v t) t us) = restore (Parent t) us"
  "Value (foldl (\<lambda>t (n, v). setParent n v t) t us) = Value t"
  "Children (foldl (\<lambda>t (n, v). setParent n v t) t us) = Children t"
  "same_frame t0 (foldl (\<lambda>t (n, v). setParent n v t) t us) = same_frame t0 t"
  by (induction us arbitrary: t) (simp_all only: foldl.simps restore_simps split_beta set_fields setters_frame)

lemma foldl_setChildren:
  "Children (foldl (\<lambda>t (n, v). setChildren n v t) t us) = restore (Children t) us"
  "Value (foldl (\<lambda>t (n, v). setChildren n v t) t us) = Value t"
  "Parent (foldl (\<lambda>t (n, v). setChildren n v t) t us) = Parent t"
  "same_frame t0 (foldl (\<lambda>t (n, v). setChildren n v t) t us) = same_frame t0 t"
  by (induction us arbitrary: t) (simp_all only: foldl.simps restore_simps split_beta set_fields setters_frame)

lemma rollback_fields:
  "Value (rollback st) = restore (Value (ap_tree st)) (ap_valueUndos st)"
  "Parent (rollback st) = restore (Parent (ap_tree st)) (ap_parentUndos st)"
  "Children (rollback st) = restore (Children (ap_tree st)) (ap_childrenUndos st)"
  "same_frame t (rollback st) = same_frame t (ap_tree st)"
  by (simp_all add: rollback_def foldl_setValue foldl_setParent foldl_setChildren)

text \<open>Child lists are always restored; values and parents are when no node was written twice.\<close>

lemma rollback_children: "undo_ok t st \<Longrightarrow> Children (rollback st) = Children t"
  by (simp add: rollback_fields undo_ok_def undo_rec_def restore_undo)

lemma rollback_exact:
  assumes "undo_ok t st" "distinct (map fst (ap_valueUndos st))" "distinct (map fst (ap_parentUndos st))"
  shows "rollback st = t"
proof (rule tree_eqI)
  show "same_frame t (rollback st)" using assms(1) by (simp add: rollback_fields undo_ok_def undo_rec_def)
  have "Value (rollback st) = Value t" "Parent (rollback st) = Parent t"
    "Children (rollback st) = Children t"
    using assms by (simp_all add: rollback_fields undo_ok_def undo_rec_def restore_undo)
  then show "Value (rollback st) n = Value t n" "Parent (rollback st) n = Parent t n"
    "Children (rollback st) n = Children t n" for n by (simp_all add: fun_eq_iff)
qed

section \<open>Every step keeps the records\<close>

text \<open>The state a step ends in, whether it succeeds or fails.\<close>

fun ends_in :: "apply_result \<Rightarrow> applyState \<Rightarrow> bool" where
  "ends_in (Ok st) st' = (st' = st)"
| "ends_in (Err (_, st)) st' = (st' = st)"
| "ends_in Panic st' = False"

lemma ends_in_bind:
  "ends_in (rbind r f) st' \<longleftrightarrow>
   (\<exists>st. r = Ok st \<and> ends_in (f st) st') \<or> (\<exists>e. r = Err (e, st'))"
  by (cases r) auto

lemma undo_ok_touched [simp]: "undo_ok t (addTouched n st) = undo_ok t st"
  by (simp add: addTouched_def undo_ok_def)

lemma addTouched_simps [simp]:
  "ap_tree (addTouched n st) = ap_tree st"
  "ap_valueUndos (addTouched n st) = ap_valueUndos st"
  "ap_parentUndos (addTouched n st) = ap_parentUndos st"
  "ap_childrenUndos (addTouched n st) = ap_childrenUndos st"
  "set (ap_touched (addTouched n st)) = insert n (set (ap_touched st))"
  by (auto simp: addTouched_def)

lemma snapshotChildren_simps [simp]:
  "ap_tree (snapshotChildren n st) = ap_tree st"
  "ap_valueUndos (snapshotChildren n st) = ap_valueUndos st"
  "ap_parentUndos (snapshotChildren n st) = ap_parentUndos st"
  "ap_touched (snapshotChildren n st) = ap_touched st"
  by (auto simp: snapshotChildren_def)

lemma snapshot_undo:
  assumes "undo_ok t st"
  shows "undo_ok t (snapshotChildren n st)"
    and "map_of (ap_childrenUndos (snapshotChildren n st)) n \<noteq> None"
    and "map_of (ap_childrenUndos st) m \<noteq> None \<Longrightarrow>
           map_of (ap_childrenUndos (snapshotChildren n st)) m \<noteq> None"
proof -
  show "undo_ok t (snapshotChildren n st)"
  proof (cases "n \<in> fst ` set (ap_childrenUndos st)")
    case False
    then have "map_of (ap_childrenUndos st) n = None" by (simp add: map_of_eq_None_iff)
    with assms False show ?thesis
      by (auto simp: snapshotChildren_def undo_ok_def undo_rec_def undo_list_def)
  qed (use assms in \<open>simp add: snapshotChildren_def\<close>)
  show "map_of (ap_childrenUndos (snapshotChildren n st)) n \<noteq> None"
    by (auto simp: snapshotChildren_def map_of_eq_None_iff)
  show "map_of (ap_childrenUndos st) m \<noteq> None \<Longrightarrow>
           map_of (ap_childrenUndos (snapshotChildren n st)) m \<noteq> None"
    by (auto simp: snapshotChildren_def)
qed

lemma undo_rec_set:
  "undo_rec t u vs ps cs \<Longrightarrow> map_of cs n \<noteq> None \<Longrightarrow> undo_rec t (setChildren n xs u) vs ps cs"
  "undo_rec t u vs ps cs \<Longrightarrow> undo_rec t (setParent n p u) vs (ps @ [(n, Parent u n)]) cs"
  "undo_rec t u vs ps cs \<Longrightarrow> undo_rec t (setValue n v u) (vs @ [(n, Value u n)]) ps cs"
  unfolding undo_rec_def set_fields setters_frame
  by (auto intro: undo_list_put undo_list_write)

lemma undo_setChildren:
  "undo_ok t st \<Longrightarrow> map_of (ap_childrenUndos st) n \<noteq> None \<Longrightarrow>
   undo_ok t (st\<lparr>ap_tree := setChildren n cs (ap_tree st)\<rparr>)"
  by (simp add: undo_ok_def undo_rec_set(1))

lemma undo_writeValues:
  assumes "undo_ok t st"
  shows "undo_ok t (writeValues v ns st) \<and>
    map fst (ap_valueUndos (writeValues v ns st)) = map fst (ap_valueUndos st) @ ns \<and>
    ap_parentUndos (writeValues v ns st) = ap_parentUndos st"
  using assms
proof (induction v ns st rule: writeValues.induct)
  case (2 v n ns st)
  have "undo_ok t (addTouched n (st\<lparr>ap_valueUndos := ap_valueUndos st @ [(n, Value (ap_tree st) n)],
      ap_tree := setValue n v (ap_tree st)\<rparr>))"
    using "2.prems" by (simp add: undo_ok_def undo_rec_set(3))
  from "2.IH" [OF this] show ?case by simp
qed simp

lemma relink_setChildren:
  "relinkFirstChild p c t = Ok u \<Longrightarrow> \<exists>cs. u = setChildren p cs t"
  "relinkNextSibling n m t = Ok u \<Longrightarrow> \<exists>p cs. Parent t n = Some p \<and> u = setChildren p cs t"
  "removeChild p n t = Ok u \<Longrightarrow> \<exists>cs. u = setChildren p cs t"
  by (auto simp: relinkFirstChild_def relinkNextSibling_def removeChild_def Let_def
      split: option.splits if_splits)

lemma relink_no_panic: "relinkFirstChild p c t \<noteq> Panic" "relinkNextSibling n m t \<noteq> Panic"
  by (auto simp: relinkFirstChild_def relinkNextSibling_def Let_def split: option.splits)

definition value_keys :: "setEditPlan \<Rightarrow> nat list" where
  "value_keys p = (if se_NewValue (pl_edit p) \<noteq> None then pl_targets p else [])"

definition parent_keys :: "setEditPlan \<Rightarrow> nat list" where
  "parent_keys p = (if pl_newParent p \<noteq> None then [pl_targets p ! 0] else [])"

lemma ends_in_mutate:
  "ends_in (mutate f w st) st' \<Longrightarrow> f (ap_tree st) \<noteq> Panic \<and>
   (st' = st \<or> (\<exists>t. f (ap_tree st) = Ok t \<and> st' = st\<lparr>ap_tree := t\<rparr>))"
  by (auto simp: mutate_def split: result.splits)

lemma applyFirstChild_undo:
  assumes "undo_ok t st" "ends_in (applyFirstChild p st) st'"
  shows "undo_ok t st' \<and> ap_valueUndos st' = ap_valueUndos st \<and> ap_parentUndos st' = ap_parentUndos st"
proof (cases "se_NewFirstChild (pl_edit p) = None")
  case False
  let ?n = "pl_targets p ! 0" and ?w = "InTarget (se_Target (pl_edit p)) \<circ> InNewFirstChild"
  let ?st = "snapshotChildren ?n st"
  let ?m = "mutate (relinkFirstChild ?n (pl_firstChild p)) ?w ?st"
  from assms(2) False obtain st1 where m: "ends_in ?m st1" "st' = st1 \<or> st' = addTouched ?n st1"
    by (auto simp: applyFirstChild_def Let_def ends_in_bind)
  have "undo_ok t st1 \<and> ap_valueUndos st1 = ap_valueUndos st \<and> ap_parentUndos st1 = ap_parentUndos st"
    using ends_in_mutate [OF m(1)] snapshot_undo(1,2) [OF assms(1), of ?n]
      undo_setChildren [of t ?st ?n] relink_setChildren(1) by fastforce
  with m(2) show ?thesis by auto
qed (use assms in \<open>simp add: applyFirstChild_def\<close>)

lemma applyNextSibling_undo:
  assumes "undo_ok t st" "ends_in (applyNextSibling p st) st'"
  shows "undo_ok t st' \<and> ap_valueUndos st' = ap_valueUndos st \<and> ap_parentUndos st' = ap_parentUndos st"
proof (cases "se_NewNextSibling (pl_edit p) = None")
  case False
  let ?n = "pl_targets p ! 0" and ?w = "InTarget (se_Target (pl_edit p)) \<circ> InNewNextSibling"
  let ?st = "case Parent (ap_tree st) ?n of None \<Rightarrow> st | Some q \<Rightarrow> snapshotChildren q st"
  let ?m = "mutate (relinkNextSibling ?n (pl_nextSibling p)) ?w ?st"
  from assms(2) False obtain st1 where m: "ends_in ?m st1" "st' = st1 \<or> st' = addTouched ?n st1"
    by (auto simp: applyNextSibling_def Let_def ends_in_bind)
  have "undo_ok t st1 \<and> ap_valueUndos st1 = ap_valueUndos st \<and> ap_parentUndos st1 = ap_parentUndos st"
  proof (cases "Parent (ap_tree st) ?n")
    case None
    with ends_in_mutate [OF m(1)] assms(1) show ?thesis
      by (auto simp: relinkNextSibling_def)
  next
    case (Some q)
    with ends_in_mutate [OF m(1)] snapshot_undo(1,2) [OF assms(1), of q]
      undo_setChildren [of t "snapshotChildren q st" q] relink_setChildren(2) show ?thesis by fastforce
  qed
  with m(2) show ?thesis by auto
qed (use assms in \<open>simp add: applyNextSibling_def\<close>)

lemma removeChild_present:
  "\<not> indexOfChild t q n < 0 \<Longrightarrow> \<exists>cs. removeChild q n t = Ok (setChildren q cs t)"
  by (auto simp: removeChild_def Let_def)

lemma applyNewParent_undo:
  assumes "undo_ok t st" "ends_in (applyNewParent p st) st'"
  shows "undo_ok t st' \<and> ap_valueUndos st' = ap_valueUndos st \<and>
    map fst (ap_parentUndos st') \<in>
      {map fst (ap_parentUndos st), map fst (ap_parentUndos st) @ parent_keys p}"
proof (cases "pl_newParent p")
  case None
  with assms show ?thesis by (simp add: applyNewParent_def)
next
  case (Some np)
  let ?n = "pl_targets p ! 0"
  let ?old = "Parent (ap_tree st) ?n"
  define st1 where "st1 = (case ?old of None \<Rightarrow> st | Some q \<Rightarrow> snapshotChildren q st)"
  have ok1: "undo_ok t st1" and eq1: "ap_tree st1 = ap_tree st" "ap_valueUndos st1 = ap_valueUndos st"
    "ap_parentUndos st1 = ap_parentUndos st"
    using assms(1) snapshot_undo(1) by (auto simp: st1_def split: option.splits)
  have rec1: "map_of (ap_childrenUndos st1) q \<noteq> None" if "?old = Some q" for q
    using that snapshot_undo(2) [OF assms(1)] by (simp add: st1_def)
  define st2 where "st2 = snapshotChildren np st1"
  have ok2: "undo_ok t st2" and eq2: "ap_tree st2 = ap_tree st" "ap_valueUndos st2 = ap_valueUndos st"
    "ap_parentUndos st2 = ap_parentUndos st"
    using snapshot_undo(1) [OF ok1] eq1 by (simp_all add: st2_def)
  have rec2: "map_of (ap_childrenUndos st2) np \<noteq> None"
    "?old = Some q \<Longrightarrow> map_of (ap_childrenUndos st2) q \<noteq> None" for q
    unfolding st2_def using snapshot_undo(2,3) [OF ok1] rec1 by blast+
  let ?move = "\<lambda>u. setChildren np (Children (setParent ?n (Some np) u) np @ [?n]) (setParent ?n (Some np) u)"
  have "st' = st1 \<or> (\<exists>st3. ends_in (case ?old of None \<Rightarrow> Ok st2 | Some q \<Rightarrow> mutate (removeChild q ?n) id st2) st3 \<and>
      undo_ok t st3 \<and> map_of (ap_childrenUndos st3) np \<noteq> None \<and> Parent (ap_tree st3) ?n = ?old \<and>
      ap_valueUndos st3 = ap_valueUndos st \<and> ap_parentUndos st3 = ap_parentUndos st \<and>
      st' = addTouched ?n (st3\<lparr>ap_parentUndos := ap_parentUndos st3 @ [(?n, ?old)],
                             ap_tree := ?move (ap_tree st3)\<rparr>))"
  proof (cases ?old)
    case None
    with assms(2) Some ok2 eq2 rec2 show ?thesis
      by (simp add: applyNewParent_def Let_def st1_def st2_def)
  next
    case old: (Some q)
    show ?thesis
    proof (cases "indexOfChild (ap_tree st) q ?n < 0")
      case True
      with assms(2) Some old show ?thesis
        by (simp add: applyNewParent_def Let_def st1_def)
    next
      case False
      then obtain cs where cs:
          "(removeChild q ?n (ap_tree st) :: Tree tree_result) = Ok (setChildren q cs (ap_tree st))"
        using removeChild_present by blast
      have st2q: "st2 = snapshotChildren np (snapshotChildren q st)"
        using old by (simp add: st2_def st1_def)
      let ?st3 = "st2\<lparr>ap_tree := setChildren q cs (ap_tree st2)\<rparr>"
      have m: "mutate (removeChild q ?n) id st2 = Ok ?st3" by (simp add: mutate_def eq2 cs)
      have par: "Parent (ap_tree ?st3) ?n = ?old" using old eq2 by auto
      have st': "st' = addTouched ?n (?st3\<lparr>ap_parentUndos := ap_parentUndos ?st3 @ [(?n, ?old)],
                             ap_tree := ?move (ap_tree ?st3)\<rparr>)"
        using assms(2) Some old False cs st2q
        by (simp add: applyNewParent_def Let_def mutate_def del: setters)
      show ?thesis
      proof (intro disjI2 exI [of _ ?st3] conjI)
        show "ends_in (case ?old of None \<Rightarrow> Ok st2 | Some q \<Rightarrow> mutate (removeChild q ?n) id st2) ?st3"
          by (simp only: old option.case m ends_in.simps)
        show "undo_ok t ?st3" by (rule undo_setChildren [OF ok2 rec2(2) [OF old]])
      qed (use rec2(1) eq2 par st' in simp_all)
    qed
  qed
  then show ?thesis
  proof (elim disjE exE conjE)
    assume "st' = st1"
    with ok1 eq1 show ?thesis by simp
  next
    fix st3
    assume st3: "undo_ok t st3" "map_of (ap_childrenUndos st3) np \<noteq> None"
      "Parent (ap_tree st3) ?n = ?old" "ap_valueUndos st3 = ap_valueUndos st"
      "ap_parentUndos st3 = ap_parentUndos st"
      and st': "st' = addTouched ?n (st3\<lparr>ap_parentUndos := ap_parentUndos st3 @ [(?n, ?old)],
                             ap_tree := ?move (ap_tree st3)\<rparr>)"
    have "undo_rec t (?move (ap_tree st3)) (ap_valueUndos st3)
        (ap_parentUndos st3 @ [(?n, ?old)]) (ap_childrenUndos st3)"
      using undo_rec_set(1) [OF undo_rec_set(2) [OF st3(1) [unfolded undo_ok_def]] st3(2)] st3(3)
      by metis
    then have "undo_ok t st'" by (simp add: st' undo_ok_def)
    with st' st3(4,5) Some show ?thesis by (simp add: parent_keys_def)
  qed
qed

lemma applyPlan_undo:
  assumes "undo_ok t st" "ends_in (applyPlan p st) st'"
  shows "undo_ok t st' \<and> map fst (ap_valueUndos st') = map fst (ap_valueUndos st) @ value_keys p \<and>
    map fst (ap_parentUndos st') \<in>
      {map fst (ap_parentUndos st), map fst (ap_parentUndos st) @ parent_keys p}"
proof -
  define st1 where
    "st1 = (case se_NewValue (pl_edit p) of None \<Rightarrow> st | Some v \<Rightarrow> writeValues v (pl_targets p) st)"
  have 1: "undo_ok t st1" "map fst (ap_valueUndos st1) = map fst (ap_valueUndos st) @ value_keys p"
    "ap_parentUndos st1 = ap_parentUndos st"
    using assms(1) undo_writeValues [OF assms(1)]
    by (auto simp: st1_def value_keys_def split: option.splits)
  from assms(2) consider st2 st3 where "ends_in (applyFirstChild p st1) st2"
      "ends_in (applyNextSibling p st2) st3" "ends_in (applyNewParent p st3) st'"
    | st2 where "ends_in (applyFirstChild p st1) st2" "ends_in (applyNextSibling p st2) st'"
    | "ends_in (applyFirstChild p st1) st'"
    unfolding applyPlan_def Let_def st1_def [symmetric] ends_in_bind
    by (metis ends_in.simps(1,2))
  then show ?thesis
  proof cases
    case (1 st2 st3)
    note fc = applyFirstChild_undo [OF \<open>undo_ok t st1\<close> 1(1)]
    note ns = applyNextSibling_undo [OF conjunct1 [OF fc] 1(2)]
    note np = applyNewParent_undo [OF conjunct1 [OF ns] 1(3)]
    from fc ns np \<open>map fst (ap_valueUndos st1) = _\<close> \<open>ap_parentUndos st1 = _\<close>
    show ?thesis by simp
  next
    case (2 st2)
    note fc = applyFirstChild_undo [OF \<open>undo_ok t st1\<close> 2(1)]
    note ns = applyNextSibling_undo [OF conjunct1 [OF fc] 2(2)]
    from fc ns \<open>map fst (ap_valueUndos st1) = _\<close> \<open>ap_parentUndos st1 = _\<close> show ?thesis by simp
  next
    case 3
    from applyFirstChild_undo [OF \<open>undo_ok t st1\<close> 3] \<open>map fst (ap_valueUndos st1) = _\<close>
      \<open>ap_parentUndos st1 = _\<close> show ?thesis by simp
  qed
qed

lemma distinct_middle:
  "distinct (xs @ ys @ zs) \<Longrightarrow> us \<in> {xs, xs @ ys} \<Longrightarrow> distinct (us @ zs) \<and> distinct us"
  by auto

lemma applyPlans_undo_ok: "undo_ok t st \<Longrightarrow> ends_in (applyPlans ps st) st' \<Longrightarrow> undo_ok t st'"
proof (induction ps arbitrary: st)
  case (Cons p ps)
  then obtain st1 where "ends_in (applyPlan p st) st1" "ends_in (applyPlans ps st1) st' \<or> st' = st1"
    unfolding applyPlans.simps ends_in_bind by (metis ends_in.simps(1,2))
  with Cons.IH applyPlan_undo [OF Cons.prems(1)] show ?case by blast
qed simp

text \<open>Over a list of plans: no node appears twice in a record when none is written twice.\<close>

lemma applyPlans_first:
  assumes "ends_in (applyPlans (p # ps) st) st'"
  obtains st1 where "ends_in (applyPlan p st) st1" "ends_in (applyPlans ps st1) st'"
    | "ends_in (applyPlan p st) st'"
  using assms unfolding applyPlans.simps ends_in_bind by (metis ends_in.simps(1,2))

lemma applyPlans_values:
  assumes "undo_ok t st" "ends_in (applyPlans ps st) st'"
    and "distinct (map fst (ap_valueUndos st) @ concat (map value_keys ps))"
  shows "distinct (map fst (ap_valueUndos st'))"
  using assms
proof (induction ps arbitrary: st)
  case (Cons p ps)
  from Cons.prems(2) show ?case
  proof (cases rule: applyPlans_first)
    case (1 st1)
    note step = applyPlan_undo [OF Cons.prems(1) 1(1)]
    have "distinct (map fst (ap_valueUndos st1) @ concat (map value_keys ps))"
      using step Cons.prems(3) by (simp only: list.map concat.simps append_assoc)
    with Cons.IH 1(2) step show ?thesis by blast
  next
    case 2
    have "map fst (ap_valueUndos st') \<in>
        {map fst (ap_valueUndos st), map fst (ap_valueUndos st) @ value_keys p}"
      using applyPlan_undo [OF Cons.prems(1) 2] by simp
    from distinct_middle [OF _ this] Cons.prems(3) show ?thesis by (simp only: list.map concat.simps)
  qed
qed simp

lemma applyPlans_parents:
  assumes "undo_ok t st" "ends_in (applyPlans ps st) st'"
    and "distinct (map fst (ap_parentUndos st) @ concat (map parent_keys ps))"
  shows "distinct (map fst (ap_parentUndos st'))"
  using assms
proof (induction ps arbitrary: st)
  case (Cons p ps)
  have parents: "distinct (us @ concat (map parent_keys ps)) \<and> distinct us"
    if "us \<in> {map fst (ap_parentUndos st), map fst (ap_parentUndos st) @ parent_keys p}" for us
    using distinct_middle [OF _ that] Cons.prems(3) by (simp only: list.map concat.simps)
  from Cons.prems(2) show ?case
  proof (cases rule: applyPlans_first)
    case (1 st1)
    with applyPlan_undo [OF Cons.prems(1) 1(1)] Cons.IH parents show ?thesis by blast
  next
    case 2
    with applyPlan_undo [OF Cons.prems(1) 2] parents show ?thesis by blast
  qed
qed simp

lemma applyPlans_undo:
  assumes "undo_ok t st" "ends_in (applyPlans ps st) st'"
    and "distinct (map fst (ap_valueUndos st) @ concat (map value_keys ps))"
    and "distinct (map fst (ap_parentUndos st) @ concat (map parent_keys ps))"
  shows "undo_ok t st' \<and> distinct (map fst (ap_valueUndos st')) \<and> distinct (map fst (ap_parentUndos st'))"
  using applyPlans_undo_ok applyPlans_values applyPlans_parents assms by blast

text \<open>Parents are restored when no node was moved twice.\<close>

lemma rollback_parents:
  "undo_ok t st \<Longrightarrow> distinct (map fst (ap_parentUndos st)) \<Longrightarrow> Parent (rollback st) = Parent t"
  by (simp add: rollback_fields undo_ok_def undo_rec_def restore_undo)

section \<open>No step panics\<close>

lemma mutate_returns: "f (ap_tree st) \<noteq> Panic \<Longrightarrow> mutate f w st \<noteq> Panic"
  by (auto simp: mutate_def split: result.split)

lemma applyNewParent_returns: "applyNewParent p st \<noteq> Panic"
proof -
  have "mutate (removeChild q n) id (snapshotChildren np (snapshotChildren q st)) \<noteq> Panic"
    if present: "\<not> indexOfChild (ap_tree st) q n < 0" for q n np
  proof -
    obtain cs where "(removeChild q n (ap_tree st) :: Tree tree_result) = Ok (setChildren q cs (ap_tree st))"
      using removeChild_present [OF present] by blast
    then show ?thesis by (intro mutate_returns) simp
  qed
  then show ?thesis
    by (auto simp: applyNewParent_def Let_def rbind_Panic_iff simp del: setters split: option.split)
qed

lemma applyPlan_returns: "applyPlan p st \<noteq> Panic"
  by (auto simp: applyPlan_def Let_def rbind_Panic_iff applyFirstChild_def applyNextSibling_def
      applyNewParent_returns mutate_returns relink_no_panic split: if_splits)

lemma applyPlans_returns: "applyPlans ps st \<noteq> Panic"
  by (induction ps arbitrary: st) (auto simp: rbind_Panic_iff applyPlan_returns)

lemma applySetPlans_atomic:
  assumes "distinct (concat (map value_keys ps))" "distinct (concat (map parent_keys ps))"
    and "applySetPlans ps t = (t', Err e)"
  shows "t' = t"
proof -
  obtain st where st: "applyPlans ps (startApply t) = Err (e, st)" "t' = rollback st"
    using assms(3) by (auto simp: applySetPlans_def split: result.splits)
  have "undo_ok t st \<and> distinct (map fst (ap_valueUndos st)) \<and> distinct (map fst (ap_parentUndos st))"
    by (rule applyPlans_undo [OF undo_ok_start]) (use st assms in \<open>simp_all add: startApply_def\<close>)
  with st(2) show ?thesis using rollback_exact by blast
qed


end
