(* ===== verification/Delete_Props.thy ===== *)
theory Delete_Props
  imports Undo
begin

text \<open>
  What \<open>DeleteAs\<close> does to a well-formed tree: which nodes remain reachable, that the tree stays
  well-formed and nothing panics, and that the permission check covers every node that disappears.
\<close>

section \<open>Removing a child\<close>

lemma take_drop_filter:
  "distinct cs \<Longrightarrow> k < length cs \<Longrightarrow> take k cs @ drop (k + 1) cs = filter (\<lambda>c. c \<noteq> cs ! k) cs"
proof (induction cs arbitrary: k)
  case (Cons c cs)
  show ?case
  proof (cases k)
    case 0
    have "filter (\<lambda>x. x \<noteq> c) cs = cs" using Cons.prems(1) by (intro filter_True) auto
    with 0 show ?thesis by simp
  next
    case (Suc j)
    then have "cs ! j \<noteq> c" using Cons.prems by auto
    with Suc Cons show ?thesis by auto
  qed
qed simp

lemma removeChild_filter:
  assumes "distinct (Children t p)" "c \<in> set (Children t p)"
  shows "removeChild p c t = Ok (setChildren p (filter (\<lambda>x. x \<noteq> c) (Children t p)) t)"
proof -
  obtain k where k: "k < length (Children t p)" "indexOfChild t p c = int k" "Children t p ! k = c"
    using indexOfChild_nth [OF assms(2)] by blast
  from take_drop_filter [OF assms(1) k(1)] k show ?thesis
    by (simp add: removeChild_def)
qed

text \<open>All at once: every child list loses the given nodes.\<close>

definition dropNodes :: "nat set \<Rightarrow> Tree \<Rightarrow> Tree" where
  "dropNodes D t = t\<lparr>nodes := (\<lambda>n. (nodes t n)\<lparr>tn_Children := filter (\<lambda>c. c \<notin> D) (Children t n)\<rparr>)\<rparr>"

lemma dropNodes_simps [simp]:
  "Children (dropNodes D t) n = filter (\<lambda>c. c \<notin> D) (Children t n)"
  "Parent (dropNodes D t) n = Parent t n" "Key (dropNodes D t) n = Key t n"
  "Value (dropNodes D t) n = Value t n" "fresh (dropNodes D t) = fresh t"
  "Root (dropNodes D t) = Root t"
  by (simp_all add: dropNodes_def)

lemma dropNodes_empty [simp]: "dropNodes {} t = t"
  by (simp add: dropNodes_def)

lemma wf_dropNodes:
  assumes "wf_tree t"
  shows "wf_tree (dropNodes D t)"
  using assms unfolding wf_tree_def parents_acyclic_def dropNodes_simps by auto

lemma dropNodes_one:
  assumes "wf_tree t" "Parent t c = Some p"
  shows "setChildren p (filter (\<lambda>x. x \<noteq> c) (Children t p)) t = dropNodes {c} t"
proof -
  have "filter (\<lambda>x. x \<noteq> c) (Children t n) = Children t n" if "n \<noteq> p" for n
    using wf_treeD(8) [OF assms(1), of c n] assms(2) that by (intro filter_True) auto
  then show ?thesis
    by (simp add: dropNodes_def setChildren_def update_def fun_eq_iff)
qed

lemma dropNodes_twice: "dropNodes D (dropNodes E t) = dropNodes (D \<union> E) t"
  by (simp add: dropNodes_def conj_commute)

lemma removeAllMatched_drop:
  assumes "wf_tree t" "distinct ns" "\<forall>n \<in> set ns. \<exists>p. Parent t n = Some p \<and> n \<in> set (Children t p)"
  shows "removeAllMatched ns t = Ok (dropNodes (set ns) t)"
  using assms
proof (induction ns arbitrary: t)
  case (Cons n ns)
  obtain p where p: "Parent t n = Some p" "n \<in> set (Children t p)" using Cons.prems(3) by auto
  have one: "(removeChild p n t :: Tree tree_result) = Ok (dropNodes {n} t)"
    using removeChild_filter [OF wf_treeD(7) [OF Cons.prems(1)] p(2)]
      dropNodes_one [OF Cons.prems(1) p(1)] by simp
  have "removeAllMatched ns (dropNodes {n} t) = Ok (dropNodes (set ns) (dropNodes {n} t))"
    using Cons.prems by (intro Cons.IH wf_dropNodes) auto
  with p one show ?case by (simp add: dropNodes_twice)
qed simp

section \<open>What remains reachable\<close>

lemma dropNodes_reachable:
  assumes wf: "wf_tree t" and par: "Root t \<notin> D"
  shows "reachable (dropNodes D t) n \<longleftrightarrow>
    reachable t n \<and> (\<forall>d \<in> D. (n, d) \<notin> (parent_rel t)\<^sup>*)"
proof
  assume "reachable (dropNodes D t) n"
  then show "reachable t n \<and> (\<forall>d \<in> D. (n, d) \<notin> (parent_rel t)\<^sup>*)"
  proof induction
    case root
    have "(Root t, d) \<in> (parent_rel t)\<^sup>* \<longleftrightarrow> d = Root t" for d
      using parent_rtrancl [of "Root t" d t] wf_treeD(2) [OF wf] by auto
    with par show ?case by (auto intro: reachable.root)
  next
    case (child p c)
    then have c: "c \<in> set (Children t p)" "c \<notin> D" by auto
    then have "(c, d) \<in> (parent_rel t)\<^sup>* \<longleftrightarrow> c = d \<or> (p, d) \<in> (parent_rel t)\<^sup>*" for d
      using parent_rtrancl [of c d t] wf_treeD(8) [OF wf, of c p] by auto
    with child.IH c show ?case by (auto intro: reachable.child)
  qed
next
  assume "reachable t n \<and> (\<forall>d \<in> D. (n, d) \<notin> (parent_rel t)\<^sup>*)"
  then have "reachable t n" "\<forall>d \<in> D. (n, d) \<notin> (parent_rel t)\<^sup>*" by blast+
  then show "reachable (dropNodes D t) n"
  proof induction
    case root
    then show ?case using reachable.root [of "dropNodes D t"] by simp
  next
    case (child p c)
    have "(c, d) \<in> (parent_rel t)\<^sup>*" if "(p, d) \<in> (parent_rel t)\<^sup>*" for d
      using parent_rtrancl [of c d t] wf_treeD(8) [OF wf child.hyps(2)] that by blast
    with child have "reachable (dropNodes D t) p" by blast
    moreover have "c \<in> set (Children (dropNodes D t) p)" using child by auto
    ultimately show ?case by (rule reachable.child)
  qed
qed

section \<open>Permission over a subtree\<close>

definition child_rel :: "Tree \<Rightarrow> (nat \<times> nat) set" where
  "child_rel t = {(c, p). c \<in> set (Children t p)}"

lemma child_anc: "wf_tree t \<Longrightarrow> (m, n) \<in> child_rel t ^^ k \<Longrightarrow> anc t k m = Some n"
proof (induction k arbitrary: m)
  case (Suc k)
  from relpow_Suc_D2 [OF Suc.prems(2)] obtain p where "(m, p) \<in> child_rel t" "(p, n) \<in> child_rel t ^^ k"
    by blast
  with Suc wf_treeD(8) [OF Suc.prems(1)] show ?case by (auto simp: child_rel_def)
qed simp

lemma subtreeLoop_relpow:
  "subtreeLoop k allowed op t n \<longleftrightarrow>
   (\<forall>j m. 0 < j \<and> j \<le> k \<and> (m, n) \<in> child_rel t ^^ j \<longrightarrow> allowed op (NodePath t m))"
proof (induction k arbitrary: n)
  case (Suc k)
  have "subtreeLoop (Suc k) allowed op t n \<longleftrightarrow> (\<forall>c. (c, n) \<in> child_rel t \<longrightarrow>
      allowed op (NodePath t c) \<and> subtreeLoop k allowed op t c)"
    by (auto simp: list_all_iff child_rel_def)
  also have "\<dots> \<longleftrightarrow> (\<forall>j m. 0 < j \<and> j \<le> Suc k \<and> (m, n) \<in> child_rel t ^^ j \<longrightarrow>
      allowed op (NodePath t m))"
  proof (intro iffI allI impI conjI)
    fix j m
    assume all: "\<forall>c. (c, n) \<in> child_rel t \<longrightarrow> allowed op (NodePath t c) \<and> subtreeLoop k allowed op t c"
      and j: "0 < j \<and> j \<le> Suc k \<and> (m, n) \<in> child_rel t ^^ j"
    then obtain i where i: "j = Suc i" by (cases j) auto
    with j obtain c where c: "(m, c) \<in> child_rel t ^^ i" "(c, n) \<in> child_rel t" by auto
    show "allowed op (NodePath t m)"
    proof (cases "i = 0")
      case True
      with c all show ?thesis by auto
    next
      case False
      with c all i j Suc.IH [of c] show ?thesis by auto
    qed
  next
    fix c
    assume all: "\<forall>j m. 0 < j \<and> j \<le> Suc k \<and> (m, n) \<in> child_rel t ^^ j \<longrightarrow> allowed op (NodePath t m)"
      and c: "(c, n) \<in> child_rel t"
    from all [rule_format, of 1 c] c show "allowed op (NodePath t c)" by simp
    have "allowed op (NodePath t m)" if "0 < j" "j \<le> k" "(m, c) \<in> child_rel t ^^ j" for j m
      using all [rule_format, of "Suc j" m] that c by auto
    then show "subtreeLoop k allowed op t c" using Suc.IH by blast
  qed
  finally show ?case .
qed simp

lemma subtreeAllows_iff:
  assumes "wf_tree t"
  shows "subtreeAllows allowed op t n \<longleftrightarrow>
    (\<forall>m. (m, n) \<in> (child_rel t)\<^sup>+ \<longrightarrow> allowed op (NodePath t m))"
proof -
  have bound: "j \<le> fresh t" if jm: "(m, n) \<in> child_rel t ^^ j" and j0: "0 < j" for j m
  proof (rule ccontr)
    assume "\<not> j \<le> fresh t"
    moreover have "anc t j m = Some n" by (rule child_anc [OF assms jm])
    moreover have "m < fresh t"
    proof -
      obtain i where "j = Suc i" using j0 by (cases j) auto
      from relpow_Suc_D2 [OF jm [unfolded this]] obtain p where "m \<in> set (Children t p)"
        unfolding child_rel_def by blast
      from wf_child_lt [OF assms this] show ?thesis ..
    qed
    ultimately show False using chain_short_le [OF assms, of m j] by simp
  qed
  show ?thesis
    unfolding subtreeAllows_def subtreeLoop_relpow trancl_power
  proof (intro iffI allI impI)
    fix m
    assume all: "\<forall>j m. 0 < j \<and> j \<le> fresh t \<and> (m, n) \<in> child_rel t ^^ j \<longrightarrow> allowed op (NodePath t m)"
      and "\<exists>j > 0. (m, n) \<in> child_rel t ^^ j"
    then obtain j where "0 < j" "(m, n) \<in> child_rel t ^^ j" by blast
    with bound all show "allowed op (NodePath t m)" by blast
  next
    fix j m
    assume "\<forall>m. (\<exists>j > 0. (m, n) \<in> child_rel t ^^ j) \<longrightarrow> allowed op (NodePath t m)"
      and "0 < j \<and> j \<le> fresh t \<and> (m, n) \<in> child_rel t ^^ j"
    then show "allowed op (NodePath t m)" by blast
  qed
qed

lemma requireDeleteAll_Ok:
  assumes "wf_tree t"
  shows "requireDeleteAll (Some allowed) t ns = Ok () \<longleftrightarrow>
    (\<forall>n \<in> set ns. \<forall>m. (m, n) \<in> (child_rel t)\<^sup>* \<longrightarrow> allowed OpDelete (NodePath t m))"
proof -
  have split: "(\<forall>m. (m, n) \<in> (child_rel t)\<^sup>* \<longrightarrow> P m) \<longleftrightarrow>
      P n \<and> (\<forall>m. (m, n) \<in> (child_rel t)\<^sup>+ \<longrightarrow> P m)" for n P
    by (auto simp: rtrancl_eq_or_trancl)
  show ?thesis
    unfolding requireDeleteAll_def option.case split
    by (induction ns) (auto simp: rbind_Ok_iff requireOp_def subtreeAllows_iff [OF assms])
qed

text \<open>Above a reachable node, the parent chain is made of child links.\<close>

lemma reachable_chain:
  assumes wf: "wf_tree t" and "(n, d) \<in> (parent_rel t)\<^sup>*" "reachable t n"
  shows "(n, d) \<in> (child_rel t)\<^sup>*"
  using assms(2,3)
proof (induction rule: converse_rtrancl_induct)
  case (step n p)
  then have p: "Parent t n = Some p" by (simp add: parent_rel_def)
  then have "n \<noteq> Root t" using wf_treeD(2) [OF wf] by auto
  from reachable_parent [OF wf step.prems this] p
  have "n \<in> set (Children t p)" "reachable t p" by auto
  with step.IH show ?case by (auto simp: child_rel_def intro: converse_rtrancl_into_rtrancl)
qed simp

section \<open>Delete\<close>

lemma addNew_set: "set (addNew hits ns) = set hits \<union> set ns" "distinct hits \<Longrightarrow> distinct (addNew hits ns)"
  by (induction hits ns rule: addNew.induct) auto

lemma deleteMatches_hits:
  "deleteMatches compile ff t auth exprs hits = Ok ms \<Longrightarrow> distinct hits \<Longrightarrow>
   distinct ms \<and> (\<forall>m. m \<in> set ms \<longleftrightarrow> m \<in> set hits \<or>
     (\<exists>e \<in> set exprs. \<exists>segs. ParseExpression compile e = Ok segs \<and>
        matched ff t auth segs (Root t) m))"
proof (induction exprs arbitrary: hits)
  case (Cons e es)
  then obtain segs where segs: "ParseExpression compile e = Ok segs"
    "deleteMatches compile ff t auth es (addNew hits (evaluateAs ff t (Root t) segs auth)) = Ok ms"
    by (auto simp: rbind_Ok_iff parse_def)
  from Cons.IH [OF segs(2) addNew_set(2) [OF Cons.prems(2)]] segs(1) ParseExpression_nonempty [OF segs(1)]
  show ?case by (auto simp: addNew_set evaluateAs_matched)
qed simp

lemma deleteMatches_returns: "deleteMatches compile ff t auth exprs hits \<noteq> Panic"
  by (induction exprs arbitrary: hits) (auto simp: rbind_Panic_iff parse_returns)

text \<open>What a delete removes: every match of any target.\<close>

definition deleted_by :: "compiler \<Rightarrow> (f64 \<Rightarrow> string) \<Rightarrow> Tree \<Rightarrow> auth \<Rightarrow> string list \<Rightarrow> nat set" where
  "deleted_by compile ff t auth exprs =
     {m. \<exists>e \<in> set exprs. \<exists>segs. ParseExpression compile e = Ok segs \<and> matched ff t auth segs (Root t) m}"

lemma deleted_by_parent:
  assumes "wf_tree t" "m \<in> deleted_by compile ff t auth exprs"
  shows "\<exists>p. Parent t m = Some p \<and> m \<in> set (Children t p)" "m \<noteq> Root t"
proof -
  show ex: "\<exists>p. Parent t m = Some p \<and> m \<in> set (Children t p)"
    using assms matched_has_parent [OF assms(1)] unfolding deleted_by_def by blast
  with wf_treeD(2) [OF assms(1)] show "m \<noteq> Root t" by auto
qed

lemma requireDelete_returns: "requireDeleteAll auth t ns \<noteq> Panic"
proof -
  have "requireDeleteLoop allowed t ns \<noteq> Panic" for allowed
    by (induction ns) (auto simp: rbind_Panic_iff requireOp_def)
  then show ?thesis by (simp add: requireDeleteAll_def split: option.split)
qed

text \<open>The outcome of a delete on a well-formed tree.\<close>

lemma DeleteAs_cases:
  assumes wf: "wf_tree t"
  obtains e where "DeleteAs compile ff exprs auth t = (t, Err e)"
  | ms where "DeleteAs compile ff exprs auth t =
        (if ms = [] then t else notifyChanged (dropNodes (set ms) t), Ok ms)"
      "set ms = deleted_by compile ff t auth exprs" "distinct ms"
      "requireDeleteAll auth t ms = Ok ()"
proof (cases "deleteMatches compile ff t auth exprs []")
  case (Err e)
  then show ?thesis using that(1) [of e] by (simp add: DeleteAs_def)
next
  case Panic
  then show ?thesis using deleteMatches_returns by blast
next
  case (Ok ms)
  from deleteMatches_hits [OF Ok] have ms: "distinct ms" "set ms = deleted_by compile ff t auth exprs"
    by (auto simp: deleted_by_def)
  have all: "removeAllMatched ms t = Ok (dropNodes (set ms) t)"
    using removeAllMatched_drop [OF wf ms(1)] deleted_by_parent(1) [OF wf] ms(2) by blast
  show ?thesis
  proof (cases "requireDeleteAll auth t ms")
    case (Ok u)
    with all \<open>deleteMatches compile ff t auth exprs [] = Ok ms\<close> ms show ?thesis
      by (intro that(2) [of ms]) (auto simp: DeleteAs_def)
  next
    case (Err e)
    with Ok show ?thesis using that(1) [of e] by (simp add: DeleteAs_def)
  next
    case Panic
    then show ?thesis using requireDelete_returns by blast
  qed
qed

end
