(* ===== verification/Creation.thy ===== *)
theory Creation
  imports Delete_Props
begin

text \<open>
  What the operations that add nodes (\<open>AppendUnder\<close>, \<open>EnsurePath\<close>, \<open>CreateStagedAs\<close>,
  \<open>AppendLeafSubtree\<close>) do to the rest of the tree: existing nodes keep their place, path and
  value, child lists only grow at their end.
\<close>

section \<open>Growth\<close>

definition grows :: "Tree \<Rightarrow> Tree \<Rightarrow> bool" where
  "grows t u \<longleftrightarrow> Root u = Root t \<and> fresh t \<le> fresh u \<and>
     (\<forall>n < fresh t. Key u n = Key t n \<and> Value u n = Value t n \<and> Parent u n = Parent t n \<and>
        (\<exists>new. Children u n = Children t n @ new \<and> (\<forall>c \<in> set new. fresh t \<le> c)))"

lemma growsD:
  assumes "grows t u"
  shows "Root u = Root t" "fresh t \<le> fresh u"
    and "n < fresh t \<Longrightarrow> Key u n = Key t n" "n < fresh t \<Longrightarrow> Value u n = Value t n"
    and "n < fresh t \<Longrightarrow> Parent u n = Parent t n"
  using assms unfolding grows_def by blast+

lemma grows_refl [simp]: "grows t t"
  by (simp add: grows_def)

lemma grows_trans [trans]:
  assumes "grows t u" "grows u w"
  shows "grows t w"
proof -
  have "\<exists>new. Children w n = Children t n @ new \<and> (\<forall>c \<in> set new. fresh t \<le> c)" if n: "n < fresh t" for n
  proof -
    obtain xs where xs: "Children u n = Children t n @ xs" "\<forall>c \<in> set xs. fresh t \<le> c"
      using assms(1) n unfolding grows_def by blast
    obtain ys where ys: "Children w n = Children u n @ ys" "\<forall>c \<in> set ys. fresh u \<le> c"
      using assms n unfolding grows_def by (meson less_le_trans)
    have "\<forall>c \<in> set ys. fresh t \<le> c" using ys(2) assms(1) unfolding grows_def by auto
    with xs ys show ?thesis by (intro exI [of _ "xs @ ys"]) auto
  qed
  with assms show ?thesis unfolding grows_def by (metis less_le_trans order_trans)
qed

lemma grows_notifyChanged [simp]: "grows t (notifyChanged u) = grows t u"
  by (simp add: grows_def)

lemma grows_addNode:
  assumes "p < fresh t"
  shows "grows t (addNode p k v t)"
  unfolding grows_def addNode_simps(2,3) addNode_simps(1) [OF assms] by simp

lemma grows_NodePath:
  assumes "wf_tree t" "wf_tree u" "grows t u" "n < fresh t"
  shows "NodePath u n = NodePath t n"
proof -
  have "keysUp k u m = keysUp k t m" if "m < fresh t" for k m
    using that
  proof (induction k arbitrary: m)
    case (Suc k)
    have par: "Parent u m = Parent t m" "Key u m = Key t m"
      using growsD(3,5) [OF assms(3)] Suc.prems by blast+
    show ?case
    proof (cases "Parent t m")
      case (Some q)
      with Suc.IH [OF wf_treeD(5) [OF assms(1) Some]] par show ?thesis by simp
    qed (simp add: par)
  qed simp
  from this [OF assms(4)] have "keysUp (fresh u) u n = keysUp (fresh u) t n" .
  also have "\<dots> = keysUp (fresh t) t n"
    using keysUp_enough [OF assms(1,4)] growsD(2) [OF assms(3)] by blast
  finally show ?thesis unfolding NodePath_def growsD(5) [OF assms(3,4)] by (simp split: option.split)
qed

lemma grows_reachable:
  assumes "wf_tree t" "grows t u" "reachable t n"
  shows "reachable u n"
  using assms(3)
proof induction
  case root
  then show ?case using assms(2) reachable.root [of u] by (simp add: grows_def)
next
  case (child p c)
  have "c \<in> set (Children u p)"
    using assms(2) child.hyps(2) reachable_lt [OF assms(1) child.hyps(1)] by (auto simp: grows_def)
  with child.IH show ?case by (rule reachable.child)
qed

lemma grows_reachable_old:
  assumes "wf_tree t" "wf_tree u" "grows t u" "reachable u n" "n < fresh t"
  shows "reachable t n"
  using assms(4,5)
proof induction
  case root
  then show ?case using assms(3) reachable.root [of t] by (simp add: grows_def)
next
  case (child p c)
  have "Parent t c = Some p" using assms(3) child wf_treeD(8) [OF assms(2)] by (auto simp: grows_def)
  then have p: "p < fresh t" by (rule wf_treeD(5) [OF assms(1)])
  with assms(3) obtain new where "Children u p = Children t p @ new" "\<forall>c \<in> set new. fresh t \<le> c"
    unfolding grows_def by blast
  with child.prems child.hyps(2) have "c \<in> set (Children t p)" by (auto simp: not_le)
  with child.IH [OF p] show ?case by (rule reachable.child)
qed

text \<open>A creation step: well-formed before and after, and only growth.\<close>

definition creates :: "Tree \<Rightarrow> Tree \<Rightarrow> bool" where
  "creates t u \<longleftrightarrow> wf_tree u \<and> grows t u"

lemma creates_refl: "wf_tree t \<Longrightarrow> creates t t"
  by (simp add: creates_def)

lemma creates_trans [trans]: "creates t u \<Longrightarrow> creates u w \<Longrightarrow> creates t w"
  unfolding creates_def using grows_trans by blast

lemma creates_addNode: "wf_tree t \<Longrightarrow> p < fresh t \<Longrightarrow> creates t (addNode p k v t)"
  by (simp add: creates_def wf_addNode grows_addNode)

lemma creates_notifyChanged [simp]: "creates t (notifyChanged u) = creates t u"
  by (simp add: creates_def)

lemma creates_lt: "creates t u \<Longrightarrow> n < fresh t \<Longrightarrow> n < fresh u"
  by (auto simp: creates_def grows_def)

section \<open>The operations\<close>

lemma alloc_append [simp]:
  "allocNode k v t = (n, t') \<longleftrightarrow> n = fresh t \<and> t' = snd (allocNode k v t)"
  "AppendChild p (fresh t) (snd (allocNode k v t)) = addNode p k v t"
  by (auto simp: addNode_def prod_eq_iff)

lemma AppendUnder_eq: "AppendUnder p k v t = (fresh t, notifyChanged (addNode p k v t))"
  by (simp add: AppendUnder_def split_beta Let_def)

lemma AppendUnder_wf:
  "wf_tree t \<Longrightarrow> p < fresh t \<Longrightarrow> wf_tree (snd (AppendUnder p k v t))"
  "fresh (snd (AppendUnder p k v t)) = fresh t + 1"
  by (simp_all add: AppendUnder_eq wf_addNode addNode_simps(2))

lemma addNode_child:
  "p < fresh t \<Longrightarrow> Children (addNode p k v t) p = Children t p @ [fresh t]"
  "p < fresh t \<Longrightarrow> Parent (addNode p k v t) (fresh t) = Some p"
  "p < fresh t \<Longrightarrow> Key (addNode p k v t) (fresh t) = k"
  "p < fresh t \<Longrightarrow> Value (addNode p k v t) (fresh t) = v"
  by (simp_all add: addNode_simps(1))

lemma appendLeaves_step:
  "appendLeaves root ((k, v) # es) t = appendLeaves root es (addNode root k v t)"
  by (simp add: split_beta Let_def)

declare appendLeaves.simps(2) [simp del]

lemma appendLeaves_creates:
  "wf_tree t \<Longrightarrow> root < fresh t \<Longrightarrow> creates t (appendLeaves root es t)"
proof (induction es arbitrary: t)
  case (Cons e es)
  obtain k v where e: "e = (k, v)" by force
  have 1: "creates t (addNode root k v t)" using Cons.prems by (rule creates_addNode)
  then have "creates (addNode root k v t) (appendLeaves root es (addNode root k v t))"
    using Cons.prems(2) by (intro Cons.IH) (auto simp: creates_def intro: creates_lt)
  with 1 show ?case unfolding e appendLeaves_step by (rule creates_trans)
qed (simp add: creates_refl)

lemma findKey_Some:
  "findKey t key cs = Some c \<Longrightarrow> c \<in> set cs \<and> Key t c = key"
  by (induction cs) (auto split: if_splits)

lemma findKey_None: "findKey t key cs = None \<longleftrightarrow> (\<forall>c \<in> set cs. Key t c \<noteq> key)"
  by (induction cs) auto

lemma ensurePath_step:
  "findKey t key (Children t cur) = None \<Longrightarrow>
   ensurePathLocked cur (key # keys) t =
     ensurePathLocked (fresh t) keys (addNode cur key ValueNoValue t)"
  by (simp add: split_beta Let_def)

lemma ensurePath_found:
  "findKey t key (Children t cur) = Some c \<Longrightarrow>
   ensurePathLocked cur (key # keys) t = ensurePathLocked c keys t"
  by simp

declare ensurePathLocked.simps(2) [simp del]

lemma ensurePath_creates:
  "wf_tree t \<Longrightarrow> cur < fresh t \<Longrightarrow> ensurePathLocked cur keys t = (n, u) \<Longrightarrow>
   creates t u \<and> n < fresh u"
proof (induction keys arbitrary: cur t)
  case (Cons key keys)
  show ?case
  proof (cases "findKey t key (Children t cur)")
    case None
    let ?t = "addNode cur key ValueNoValue t"
    have c: "creates t ?t" using Cons.prems(1,2) by (rule creates_addNode)
    moreover have "creates ?t u \<and> n < fresh u"
      using Cons.prems c by (intro Cons.IH) (simp_all add: creates_def ensurePath_step [OF None] addNode_simps(2))
    ultimately show ?thesis by (blast intro: creates_trans)
  next
    case (Some c)
    then have "c < fresh t" using findKey_Some wf_child_lt [OF Cons.prems(1)] by blast
    with Cons show ?thesis by (simp add: ensurePath_found [OF Some])
  qed
qed (auto simp: creates_refl)

lemma AppendLeafSubtree_creates:
  assumes "wf_tree t" "p < fresh t"
  shows "creates t (fst (AppendLeafSubtree p k es t))"
proof -
  let ?t = "addNode p k ValueNoValue t"
  have 1: "creates t ?t" by (rule creates_addNode [OF assms])
  then have "creates ?t (appendLeaves (fresh t) es ?t)"
    by (intro appendLeaves_creates) (simp_all add: creates_def addNode_simps(2))
  with 1 show ?thesis
    by (auto simp: AppendLeafSubtree_def split_beta Let_def intro: creates_trans)
qed

text \<open>The two outcomes of a create.\<close>

lemma CreateStagedAs_cases:
  assumes wf: "wf_tree t" and s: "staging < fresh t"
  obtains e where "CreateStagedAs compile ff staging parentExpr k v auth t = (t, Err e)"
  | q where "CreateStagedAs compile ff staging parentExpr k v auth t =
        (notifyChanged (addNode q k v t), Ok (fresh t))"
      "isDescendantOrSelf t staging q" "q < fresh t" "parentExpr = [] \<longrightarrow> q = staging"
proof (cases "parentExpr = []")
  case True
  with that(2) [of staging] s show ?thesis
    by (simp add: CreateStagedAs_def split_beta Let_def isDescendantOrSelf_def)
next
  case False
  show ?thesis
  proof (cases "resolveExpressionExactlyOne compile ff t parentExpr auth")
    case (Ok q)
    show ?thesis
    proof (cases "isDescendantOrSelf t staging q")
      case True
      have "q < fresh t"
        using True s wf_treeD(6) [OF wf] isDescendant_iff [OF wf]
        by (auto simp: isDescendantOrSelf_def parent_trancl)
      with True False Ok that(2) [of q] show ?thesis
        by (simp add: CreateStagedAs_def split_beta Let_def)
    next
      case no: False
      with False Ok that(1) show ?thesis by (simp add: CreateStagedAs_def)
    qed
  next
    case (Err e)
    with False that(1) show ?thesis by (simp add: CreateStagedAs_def)
  next
    case Panic
    then show ?thesis using resolveExactlyOne_returns by blast
  qed
qed

end
