(* ===== verification/Set_Props.thy ===== *)
theory Set_Props
  imports Undo Delete_Props "HOL-Library.Sublist"
begin

text \<open>
  What a set request does once it is planned: the permissions planning checked, the order of the
  children under relinking, and the nodes a relink drops.
\<close>

section \<open>Permissions\<close>

definition may :: "auth \<Rightarrow> Tree \<Rightarrow> Op \<Rightarrow> nat \<Rightarrow> bool" where
  "may auth t op n = (case auth of None \<Rightarrow> True | Some allowed \<Rightarrow> allowed op (NodePath t n))"

text \<open>A node that may be deleted with everything below it.\<close>

definition deletable :: "auth \<Rightarrow> Tree \<Rightarrow> nat \<Rightarrow> bool" where
  "deletable auth t n \<longleftrightarrow> (\<forall>m. (m, n) \<in> (child_rel t)\<^sup>* \<longrightarrow> may auth t OpDelete m)"

lemma requireOp_iff: "requireOp auth op t n = Ok u \<longleftrightarrow> may auth t op n"
  by (cases u) (simp add: requireOp_def may_def split: option.split)

lemma requireOp_returns: "requireOp auth op t n \<noteq> Panic"
  by (simp add: requireOp_def split: option.split)

lemma requireAll_iff: "requireAll auth op t ns = Ok u \<longleftrightarrow> (\<forall>n \<in> set ns. may auth t op n)"
  by (cases u; induction ns) (auto simp: rbind_Ok_iff requireOp_iff)

lemma requireAll_returns: "requireAll auth op t ns \<noteq> Panic"
  by (induction ns) (auto simp: rbind_Panic_iff requireOp_returns)

lemma requireDeleteAll_iff:
  "wf_tree t \<Longrightarrow> requireDeleteAll auth t ns = Ok u \<longleftrightarrow> (\<forall>n \<in> set ns. deletable auth t n)"
  using requireDeleteAll_Ok [of t _ ns]
  by (cases auth; cases u) (simp_all add: deletable_def may_def requireDeleteAll_def)

section \<open>Order of children\<close>

definition precedes :: "'a list \<Rightarrow> 'a \<Rightarrow> 'a \<Rightarrow> bool" where
  "precedes cs x y \<longleftrightarrow> (\<exists>as bs. cs = as @ bs \<and> x \<in> set as \<and> y \<in> set bs)"

lemma precedes_nth:
  "precedes cs x y \<longleftrightarrow> (\<exists>i j. i < j \<and> j < length cs \<and> cs ! i = x \<and> cs ! j = y)"
proof
  assume "precedes cs x y"
  then obtain as bs where cs: "cs = as @ bs" "x \<in> set as" "y \<in> set bs" by (auto simp: precedes_def)
  then obtain i j where "i < length as" "as ! i = x" "j < length bs" "bs ! j = y"
    by (auto simp: in_set_conv_nth)
  with cs(1) show "\<exists>i j. i < j \<and> j < length cs \<and> cs ! i = x \<and> cs ! j = y"
    by (intro exI [of _ i] exI [of _ "length as + j"]) (simp add: nth_append)
next
  assume "\<exists>i j. i < j \<and> j < length cs \<and> cs ! i = x \<and> cs ! j = y"
  then obtain i j where ij: "i < j" "j < length cs" "cs ! i = x" "cs ! j = y" by blast
  have "x \<in> set (take j cs)" using ij by (auto simp: in_set_conv_nth intro!: exI [of _ i])
  moreover have "y \<in> set (drop j cs)" using ij by (auto simp: in_set_conv_nth intro!: exI [of _ 0])
  ultimately show "precedes cs x y" unfolding precedes_def by (metis append_take_drop_id)
qed

lemma precedes_set: "precedes cs x y \<Longrightarrow> x \<in> set cs \<and> y \<in> set cs"
  by (auto simp: precedes_def)

lemma precedes_antisym: "distinct cs \<Longrightarrow> precedes cs x y \<Longrightarrow> \<not> precedes cs y x \<and> x \<noteq> y"
  unfolding precedes_nth by (metis nth_eq_iff_index_eq less_asym less_trans order.irrefl)

lemma precedes_total:
  assumes "x \<in> set cs" "y \<in> set cs" "x \<noteq> y"
  shows "precedes cs x y \<or> precedes cs y x"
proof -
  obtain i j where "i < length cs" "cs ! i = x" "j < length cs" "cs ! j = y"
    using assms(1,2) by (auto simp: in_set_conv_nth)
  with assms(3) show ?thesis unfolding precedes_nth by (metis linorder_neqE_nat)
qed

lemma precedes_subseq:
  assumes "subseq xs ys" "precedes xs x y"
  shows "precedes ys x y"
proof -
  obtain as bs where xs: "xs = as @ bs" "x \<in> set as" "y \<in> set bs"
    using assms(2) by (auto simp: precedes_def)
  then obtain us vs where "ys = us @ vs" "subseq as us" "subseq bs vs"
    using list_emb_appendD [of "(=)" as bs ys] assms(1) by blast
  moreover from this xs have "x \<in> set us" "y \<in> set vs" by (auto elim!: list_emb_set)
  ultimately show ?thesis unfolding precedes_def by blast
qed

lemma take_precedes:
  assumes "distinct cs" "k < length cs"
  shows "x \<in> set (take k cs) \<longleftrightarrow> precedes cs x (cs ! k)"
proof
  assume "x \<in> set (take k cs)"
  moreover have "cs ! k \<in> set (drop k cs)" using assms(2) by (auto simp: in_set_conv_nth intro!: exI [of _ 0])
  ultimately show "precedes cs x (cs ! k)" unfolding precedes_def by (metis append_take_drop_id)
next
  assume "precedes cs x (cs ! k)"
  then obtain i j where "i < j" "j < length cs" "cs ! i = x" "cs ! j = cs ! k" by (auto simp: precedes_nth)
  with assms show "x \<in> set (take k cs)"
    by (auto simp: in_set_conv_nth nth_eq_iff_index_eq intro!: exI [of _ i])
qed

lemma drop_precedes:
  assumes "distinct cs" "k < length cs"
  shows "x \<in> set (drop (Suc k) cs) \<longleftrightarrow> precedes cs (cs ! k) x"
proof
  assume "x \<in> set (drop (Suc k) cs)"
  then obtain i where "i < length cs - Suc k" "cs ! (Suc k + i) = x" by (auto simp: in_set_conv_nth)
  then show "precedes cs (cs ! k) x"
    unfolding precedes_nth by (intro exI [of _ k] exI [of _ "Suc k + i"]) auto
next
  assume "precedes cs (cs ! k) x"
  then obtain i j where ij: "i < j" "j < length cs" "cs ! i = cs ! k" "cs ! j = x" by (auto simp: precedes_nth)
  with assms have "i = k" by (simp add: nth_eq_iff_index_eq)
  with ij show "x \<in> set (drop (Suc k) cs)"
    by (auto simp: in_set_conv_nth intro!: exI [of _ "j - Suc k"])
qed

lemma between_precedes:
  assumes "distinct cs" "i < length cs" "j < length cs"
  shows "x \<in> set (drop (Suc i) (take j cs)) \<longleftrightarrow> precedes cs (cs ! i) x \<and> precedes cs x (cs ! j)"
proof
  assume "x \<in> set (drop (Suc i) (take j cs))"
  then obtain k where k: "k < length (drop (Suc i) (take j cs))" "drop (Suc i) (take j cs) ! k = x"
    by (metis in_set_conv_nth)
  then have "Suc i + k < j" "Suc i + k < length cs" by auto
  moreover from this k have "cs ! (Suc i + k) = x" by simp
  ultimately have "i < Suc i + k" "Suc i + k < j" "Suc i + k < length cs" "cs ! (Suc i + k) = x" by auto
  then show "precedes cs (cs ! i) x \<and> precedes cs x (cs ! j)"
    using assms(3) unfolding precedes_nth by blast
next
  assume "precedes cs (cs ! i) x \<and> precedes cs x (cs ! j)"
  then obtain a b c d where "a < b" "b < length cs" "cs ! a = cs ! i" "cs ! b = x"
      "c < d" "d < length cs" "cs ! c = x" "cs ! d = cs ! j" unfolding precedes_nth by blast
  with assms have b: "i < b" "b < j" "cs ! b = x" "b < length cs"
    by (auto simp: nth_eq_iff_index_eq dest: less_trans)
  then have "drop (Suc i) (take j cs) ! (b - Suc i) = x" "b - Suc i < length (drop (Suc i) (take j cs))"
    by auto
  then show "x \<in> set (drop (Suc i) (take j cs))" by (metis nth_mem)
qed

lemma precedes_index:
  assumes "distinct (Children t p)" "x \<in> set (Children t p)" "y \<in> set (Children t p)"
  shows "precedes (Children t p) x y \<longleftrightarrow> indexOfChild t p x < indexOfChild t p y"
proof -
  obtain i where i: "i < length (Children t p)" "indexOfChild t p x = int i" "Children t p ! i = x"
    using indexOfChild_nth [OF assms(2)] by blast
  obtain j where j: "j < length (Children t p)" "indexOfChild t p y = int j" "Children t p ! j = y"
    using indexOfChild_nth [OF assms(3)] by blast
  have "x \<in> set (take j (Children t p)) \<longleftrightarrow> i < j"
    using i j assms(1) by (auto simp: in_set_conv_nth nth_eq_iff_index_eq intro: exI [of _ i])
  with take_precedes [OF assms(1) j(1), of x] i j show ?thesis by simp
qed

end
