(* ===== verification/Set_Steps.thy ===== *)
theory Set_Steps
  imports Set_Props
begin

text \<open>
  The effect of the steps a set request is made of: a value write, a relink and a move, and with them
  a whole request.
\<close>

section \<open>Trees after edits without moves\<close>

text \<open>Only values the identity may write differ, and child lists only lost nodes it may delete with
  everything below them.\<close>

definition edited :: "auth \<Rightarrow> Tree \<Rightarrow> Tree \<Rightarrow> bool" where
  "edited auth t u \<longleftrightarrow> Root u = Root t \<and> fresh u = fresh t \<and> Key u = Key t \<and> Parent u = Parent t \<and>
     (\<forall>p. subseq (Children u p) (Children t p) \<and>
        (\<forall>c \<in> set (Children t p) - set (Children u p). deletable auth t c)) \<and>
     (\<forall>n. Value u n \<noteq> Value t n \<longrightarrow> may auth t OpWrite n)"

lemma edited_refl [simp]: "edited auth t t"
  by (simp add: edited_def)

lemma subseq_set: "subseq xs ys \<Longrightarrow> set xs \<subseteq> set ys"
  by (auto elim: list_emb_set)

lemma subseq_keeps_distinct: "subseq xs ys \<Longrightarrow> distinct ys \<Longrightarrow> distinct xs"
  by (induction rule: list_emb.induct) (auto dest: subseq_set)

lemma set_Key: "Key (setChildren n cs t) = Key t" "Key (setParent n p t) = Key t" "Key (setValue n v t) = Key t"
  by auto

lemma editedD:
  assumes "edited auth t u"
  shows "Root u = Root t" "fresh u = fresh t" "Key u n = Key t n" "Parent u n = Parent t n"
    and "subseq (Children u p) (Children t p)" "set (Children u p) \<subseteq> set (Children t p)"
    and "c \<in> set (Children t p) \<Longrightarrow> c \<notin> set (Children u p) \<Longrightarrow> deletable auth t c"
    and "Value u n \<noteq> Value t n \<Longrightarrow> may auth t OpWrite n"
proof -
  show "subseq (Children u p) (Children t p)" using assms by (simp add: edited_def)
  then show "set (Children u p) \<subseteq> set (Children t p)" by (rule subseq_set)
qed (use assms in \<open>auto simp: edited_def dest: fun_cong\<close>)

lemma edited_wf:
  assumes "wf_tree t" "edited auth t u"
  shows "wf_tree u"
proof -
  note E = editedD [OF assms(2)] and W = wf_treeD [OF assms(1)]
  have "parents_acyclic u" using assms(1) unfolding wf_tree_def parents_acyclic_def E(4) by blast
  moreover have "distinct (Children u n) \<and> (\<forall>c \<in> set (Children u n). Parent u c = Some n)" for n
    unfolding E(4) using subseq_keeps_distinct [OF E(5) W(7)] E(6) W(8) by blast
  moreover have "Children u n = [] \<and> Parent u n = None" if "fresh u \<le> n" for n
    using that E(6) [of n] W(3,4) [of n] unfolding E(2,4) by auto
  ultimately show ?thesis using W(1,2,5) unfolding wf_tree_def E(1,2,4) by blast
qed

lemma edited_setChildren:
  assumes "edited auth t u" "subseq cs (Children u p)"
    and "\<And>c. c \<in> set (Children u p) \<Longrightarrow> c \<notin> set cs \<Longrightarrow> deletable auth t c"
  shows "edited auth t (setChildren p cs u)"
proof -
  have ch: "Children (setChildren p cs u) q = (if q = p then cs else Children u q)"
    and val: "Value (setChildren p cs u) q = Value u q" for q by simp_all
  have sub: "subseq cs (Children t p)" using assms(2) editedD(5) [OF assms(1)] by (rule subseq_order.trans)
  have lost: "deletable auth t c" if "c \<in> set (Children t p)" "c \<notin> set cs" for c
    using that assms(3) editedD(7) [OF assms(1)] by blast
  have "subseq (if q = p then cs else Children u q) (Children t q) \<and>
      (\<forall>c \<in> set (Children t q) - set (if q = p then cs else Children u q). deletable auth t c)" for q
    using sub lost editedD(5) [OF assms(1), of q] editedD(7) [OF assms(1), of _ q]
    by (cases "q = p") auto
  then show ?thesis
    using assms(1) unfolding edited_def ch val set_fields set_Key setters(4,7) by blast
qed

lemma edited_setValue:
  assumes "edited auth t u" "may auth t OpWrite n"
  shows "edited auth t (setValue n v u)"
proof -
  have ch: "Children (setValue n v u) m = Children u m" for m by simp
  have "Value (setValue n v u) m = (if m = n then v else Value u m)" for m by simp
  then have "\<forall>m. Value (setValue n v u) m \<noteq> Value t m \<longrightarrow> may auth t OpWrite m"
    using assms editedD(8) [OF assms(1)] by auto
  then show ?thesis using assms(1) unfolding edited_def ch set_fields(2,3) set_Key setters(6,9) by blast
qed

section \<open>What planning checks a relink drops\<close>

lemma droppedByFirstChild_set:
  assumes "distinct (Children t p)" "c \<in> set (Children t p)"
  shows "set (droppedByFirstChild t p (Some c)) = {x. precedes (Children t p) x c}"
proof -
  obtain k where k: "k < length (Children t p)" "indexOfChild t p c = int k" "Children t p ! k = c"
    using indexOfChild_nth [OF assms(2)] by blast
  from take_precedes [OF assms(1) k(1)] k show ?thesis by (auto simp: droppedByFirstChild_def)
qed

lemma droppedByNextSibling_set:
  assumes "distinct (Children t p)" "Parent t n = Some p" "n \<in> set (Children t p)"
  shows "set (droppedByNextSibling t n None) = {x. precedes (Children t p) n x}"
    and "m \<in> set (Children t p) \<Longrightarrow> set (droppedByNextSibling t n (Some m)) =
      {x. precedes (Children t p) n x \<and> precedes (Children t p) x m}"
proof -
  obtain k where k: "k < length (Children t p)" "indexOfChild t p n = int k" "Children t p ! k = n"
    using indexOfChild_nth [OF assms(3)] by blast
  from drop_precedes [OF assms(1) k(1)] k assms(2)
  show "set (droppedByNextSibling t n None) = {x. precedes (Children t p) n x}"
    by (auto simp: droppedByNextSibling_def)
  assume m: "m \<in> set (Children t p)"
  obtain l where l: "l < length (Children t p)" "indexOfChild t p m = int l" "Children t p ! l = m"
    using indexOfChild_nth [OF m] by blast
  have "drop (Suc k) (take l (Children t p)) = []" if "l \<le> Suc k" using that by simp
  with between_precedes [OF assms(1) k(1) l(1)] k l assms(2)
  show "set (droppedByNextSibling t n (Some m)) =
      {x. precedes (Children t p) n x \<and> precedes (Children t p) x m}"
    by (auto simp: droppedByNextSibling_def Let_def nat_add_distrib)
qed

section \<open>Relinks\<close>

lemma edited_relinkFirstChild:
  assumes wf: "wf_tree t" and u: "edited auth t u"
    and ok: "relinkFirstChild p c u = Ok u'"
    and may: "\<forall>x \<in> set (droppedByFirstChild t p c). deletable auth t x"
  shows "edited auth t u'"
proof (cases c)
  case None
  then have "u' = setChildren p [] u" using ok by (simp add: relinkFirstChild_def)
  moreover have "x \<in> set (Children u p) \<Longrightarrow> deletable auth t x" for x
    using may None editedD(6) [OF u] by (auto simp: droppedByFirstChild_def)
  ultimately show ?thesis using edited_setChildren [OF u] by auto
next
  case (Some m)
  then have m: "m \<in> set (Children u p)" and u': "u' = setChildren p (drop (nat (indexOfChild u p m)) (Children u p)) u"
    using ok by (auto simp: relinkFirstChild_def Let_def indexOfChild_neg split: if_splits)
  obtain k where k: "k < length (Children u p)" "indexOfChild u p m = int k" "Children u p ! k = m"
    using indexOfChild_nth [OF m] by blast
  have d: "distinct (Children u p)" by (rule wf_treeD(7) [OF edited_wf [OF wf u]])
  have mt: "m \<in> set (Children t p)" using m editedD(6) [OF u] by blast
  have "deletable auth t x" if "x \<in> set (Children u p)" "x \<notin> set (drop k (Children u p))" for x
  proof -
    have "x \<in> set (take k (Children u p))" using that by (metis Un_iff append_take_drop_id set_append)
    then have "precedes (Children t p) x m"
      using take_precedes [OF d k(1)] k(3) precedes_subseq [OF editedD(5) [OF u]] by blast
    then show ?thesis using may Some droppedByFirstChild_set [OF wf_treeD(7) [OF wf] mt] by blast
  qed
  then show ?thesis
    unfolding u' k(2) nat_int by (intro edited_setChildren [OF u]) (auto intro: subseq_drop_many)
qed

text \<open>A next sibling given in the request comes later than the node.\<close>

definition sibling_later :: "Tree \<Rightarrow> nat \<Rightarrow> nat option \<Rightarrow> bool" where
  "sibling_later t n m \<longleftrightarrow>
     (\<forall>x p. m = Some x \<longrightarrow> Parent t n = Some p \<longrightarrow> indexOfChild t p n < indexOfChild t p x)"

lemma take_drop_subseq: "i \<le> j \<Longrightarrow> subseq (take i xs @ drop j xs) xs"
proof -
  assume "i \<le> j"
  then have "drop j xs = drop (j - i) (drop i xs)" by simp
  then have "subseq (drop j xs) (drop i xs)" by (metis suffix_drop suffix_imp_subseq)
  then show ?thesis by (metis append_take_drop_id subseq_append')
qed

lemma edited_relinkNextSibling:
  assumes wf: "wf_tree t" and u: "edited auth t u"
    and ok: "relinkNextSibling n m u = Ok u'" and later: "sibling_later t n m"
    and may: "\<forall>x \<in> set (droppedByNextSibling t n m). deletable auth t x"
  shows "edited auth t u'"
proof -
  obtain p where p: "Parent u n = Some p" "n \<in> set (Children u p)"
    using ok by (auto simp: relinkNextSibling_def Let_def indexOfChild_neg split: option.splits if_splits)
  have pt: "Parent t n = Some p" "n \<in> set (Children t p)"
    using p editedD(4) [OF u, of n] editedD(6) [OF u] by auto
  have d: "distinct (Children u p)" "distinct (Children t p)"
    by (rule wf_treeD(7) [OF edited_wf [OF wf u]], rule wf_treeD(7) [OF wf])
  obtain k where k: "k < length (Children u p)" "indexOfChild u p n = int k" "Children u p ! k = n"
    using indexOfChild_nth [OF p(2)] by blast
  note orig = precedes_subseq [OF editedD(5) [OF u, of p]]
  show ?thesis
  proof (cases m)
    case None
    then have u': "u' = setChildren p (take (Suc k) (Children u p)) u"
      using ok p k by (simp add: relinkNextSibling_def nat_add_distrib)
    have "deletable auth t x" if "x \<in> set (Children u p)" "x \<notin> set (take (Suc k) (Children u p))" for x
    proof -
      have "x \<in> set (drop (Suc k) (Children u p))" using that by (metis Un_iff append_take_drop_id set_append)
      then have "precedes (Children t p) n x" using drop_precedes [OF d(1) k(1)] k(3) orig by blast
      then show ?thesis using may None droppedByNextSibling_set(1) [OF d(2) pt] by blast
    qed
    then show ?thesis
      unfolding u' by (intro edited_setChildren [OF u]) (auto intro: prefix_imp_subseq take_is_prefix)
  next
    case (Some y)
    then have y: "y \<in> set (Children u p)"
      using ok p k(2) by (auto simp: relinkNextSibling_def Let_def indexOfChild_neg split: if_splits)
    obtain l where l: "l < length (Children u p)" "indexOfChild u p y = int l" "Children u p ! l = y"
      using indexOfChild_nth [OF y] by blast
    have u': "u' = setChildren p (take (Suc k) (Children u p) @ drop l (Children u p)) u"
      using ok p k(2) l(2) Some by (auto simp: relinkNextSibling_def Let_def nat_add_distrib split: if_splits)
    have yt: "y \<in> set (Children t p)" using y editedD(6) [OF u] by blast
    have "precedes (Children t p) n y"
      using later pt(1) Some precedes_index [OF d(2) pt(2) yt] by (simp add: sibling_later_def)
    then have "precedes (Children u p) n y"
      using precedes_total [OF p(2) y] precedes_antisym [OF d(2)] orig by blast
    then have "k < l" using precedes_index [OF d(1) p(2) y] k(2) l(2) by simp
    have "deletable auth t x" if "x \<in> set (Children u p)"
      "x \<notin> set (take (Suc k) (Children u p) @ drop l (Children u p))" for x
    proof -
      have "x \<in> set (drop (Suc k) (Children u p))" "x \<in> set (take l (Children u p))"
        using that by (metis Un_iff append_take_drop_id set_append)+
      then have "precedes (Children t p) n x \<and> precedes (Children t p) x y"
        using drop_precedes [OF d(1) k(1)] take_precedes [OF d(1) l(1)] k(3) l(3) orig by blast
      then show ?thesis using may Some droppedByNextSibling_set(2) [OF d(2) pt yt] by blast
    qed
    then show ?thesis unfolding u'
      using \<open>k < l\<close> by (intro edited_setChildren [OF u] take_drop_subseq) auto
  qed
qed

end
