(* ===== verification/Set_Request.thy ===== *)
theory Set_Request
  imports Set_Steps
begin

text \<open>
  A whole set request: what a successful plan guarantees, and the tree after applying the plans.
\<close>

section \<open>Plans\<close>

definition move_ok :: "auth \<Rightarrow> Tree \<Rightarrow> nat \<Rightarrow> nat \<Rightarrow> bool" where
  "move_ok auth t n np \<longleftrightarrow> reachable t np \<and> may auth t OpWrite np \<and> np \<noteq> n \<and>
     (np, n) \<notin> (parent_rel t)\<^sup>+ \<and> Parent t n \<noteq> None"

definition plan_ok :: "auth \<Rightarrow> Tree \<Rightarrow> setEditPlan \<Rightarrow> bool" where
  "plan_ok auth t p \<longleftrightarrow>
     (\<forall>n \<in> set (pl_targets p). reachable t n) \<and>
     (se_NewValue (pl_edit p) \<noteq> None \<longrightarrow> (\<forall>n \<in> set (pl_targets p). may auth t OpWrite n)) \<and>
     (structural (pl_edit p) \<longrightarrow> (\<exists>n. pl_targets p = [n] \<and> may auth t OpWrite n)) \<and>
     (se_NewFirstChild (pl_edit p) \<noteq> None \<longrightarrow>
        (\<forall>x \<in> set (droppedByFirstChild t (pl_targets p ! 0) (pl_firstChild p)). deletable auth t x)) \<and>
     (se_NewNextSibling (pl_edit p) \<noteq> None \<longrightarrow>
        (\<forall>x \<in> set (droppedByNextSibling t (pl_targets p ! 0) (pl_nextSibling p)). deletable auth t x)) \<and>
     (pl_newParent p = None \<longleftrightarrow> se_NewParent (pl_edit p) = None) \<and>
     (\<forall>np. pl_newParent p = Some np \<longrightarrow> move_ok auth t (pl_targets p ! 0) np)"

lemma plan_ok_move: "plan_ok auth t p \<Longrightarrow> pl_newParent p = None \<longleftrightarrow> se_NewParent (pl_edit p) = None"
  by (simp add: plan_ok_def)

lemma no_moves: "\<forall>p \<in> set ps. pl_newParent p = None \<Longrightarrow> concat (map parent_keys ps) = []"
  by (simp add: parent_keys_def)

lemma evaluate_reachable:
  assumes "segs \<noteq> []" "n \<in> set (evaluateAs ff t (Root t) segs auth)"
  shows "reachable t n"
  using assms evaluateAs_matched matched_reachable [OF _ reachable.root] by blast

lemma exactlyOne_Ok: "exactlyOne ms = Ok n \<longleftrightarrow> ms = [n]"
  by (auto simp: exactlyOne_def split: list.splits)

lemma resolveExactlyOne_reachable:
  assumes "resolveExpressionExactlyOne compile ff t e auth = Ok n"
  shows "reachable t n"
proof -
  obtain segs where segs: "ParseExpression compile e = Ok segs" "evaluateAs ff t (Root t) segs auth = [n]"
    using assms by (auto simp: resolveExpressionExactlyOne_def rbind_Ok_iff exactlyOne_Ok parse_def)
  from segs(2) have "n \<in> set (evaluateAs ff t (Root t) segs auth)" by simp
  then show ?thesis by (rule evaluate_reachable [OF ParseExpression_nonempty [OF segs(1)]])
qed

lemma planNewParent_ok:
  assumes "wf_tree t" "planNewParent compile ff t auth staging targets (Some e) = Ok r"
  shows "\<exists>np. r = Some np \<and> move_ok auth t (targets ! 0) np"
proof -
  obtain s p where "staging = Some s" "isDescendant t s (targets ! 0)"
    "resolveExpressionExactlyOne compile ff t e auth = Ok p" "requireOp auth OpWrite t p = Ok ()"
    "p \<noteq> targets ! 0" "\<not> isDescendant t (targets ! 0) p" "r = Some p"
    using assms(2) by (auto simp: planNewParent_def rbind_Ok_iff split: option.splits if_splits)
  moreover from this(2) have "Parent t (targets ! 0) \<noteq> None"
    unfolding isDescendant_iff [OF assms(1)] parent_trancl by auto
  ultimately show ?thesis
    using resolveExactlyOne_reachable requireOp_iff isDescendant_iff [OF assms(1)]
    unfolding move_ok_def by blast
qed

lemma planEdit_ok:
  assumes wf: "wf_tree t" and p: "planEdit compile ff t staging auth e = Ok p"
  shows "plan_ok auth t p \<and> pl_edit p = e"
proof -
  obtain segs targets fc ns np where parse: "parse compile (se_Target e) = Ok segs"
    and targets: "targets = evaluateAs ff t (Root t) segs auth"
    and one: "structural e \<longrightarrow> length targets = 1"
    and wr: "se_NewValue e \<noteq> None \<longrightarrow> requireAll auth OpWrite t targets = Ok ()"
      "structural e \<longrightarrow> requireOp auth OpWrite t (targets ! 0) = Ok ()"
    and fc: "planFirstChild compile ff t auth targets (se_NewFirstChild e) = Ok fc"
    and ns: "planNextSibling compile ff t auth targets (se_NewNextSibling e) = Ok ns"
    and np: "planNewParent compile ff t auth staging targets (se_NewParent e) = Ok np"
    and p: "p = \<lparr>pl_edit = e, pl_targets = targets, pl_firstChild = fc, pl_nextSibling = ns, pl_newParent = np\<rparr>"
    using p by (auto simp: planEdit_def rbind_Ok_iff Let_def guarded_def split: if_splits)
  have "\<forall>n \<in> set targets. reachable t n"
    using evaluate_reachable [OF ParseExpression_nonempty [of compile "se_Target e" segs]] parse targets
    by (auto simp: parse_def)
  moreover have "se_NewValue e \<noteq> None \<longrightarrow> (\<forall>n \<in> set targets. may auth t OpWrite n)"
    using wr(1) by (simp add: requireAll_iff)
  moreover have "structural e \<longrightarrow> (\<exists>n. targets = [n] \<and> may auth t OpWrite n)"
    using one wr(2) by (cases targets) (auto simp: requireOp_iff)
  moreover have "se_NewFirstChild e \<noteq> None \<longrightarrow>
      (\<forall>x \<in> set (droppedByFirstChild t (targets ! 0) fc). deletable auth t x)"
    using fc requireDeleteAll_iff [OF wf]
    by (auto simp: planFirstChild_def rbind_Ok_iff split: option.splits)
  moreover have "se_NewNextSibling e \<noteq> None \<longrightarrow>
      (\<forall>x \<in> set (droppedByNextSibling t (targets ! 0) ns). deletable auth t x)"
    using ns requireDeleteAll_iff [OF wf]
    by (auto simp: planNextSibling_def rbind_Ok_iff split: option.splits)
  moreover have "(np = None \<longleftrightarrow> se_NewParent e = None) \<and>
      (\<forall>q. np = Some q \<longrightarrow> move_ok auth t (targets ! 0) q)"
  proof (cases "se_NewParent e")
    case None
    with np show ?thesis by (simp add: planNewParent_def)
  next
    case (Some x)
    from planNewParent_ok [OF wf np [unfolded Some]] Some show ?thesis by auto
  qed
  ultimately show ?thesis unfolding plan_ok_def p by simp
qed

lemma planEdits_ok:
  assumes "wf_tree t"
  shows "planEdits compile ff t staging auth es = Ok ps \<Longrightarrow>
    map pl_edit ps = es \<and> (\<forall>p \<in> set ps. plan_ok auth t p)"
proof (induction es arbitrary: ps)
  case (Cons e es)
  then obtain p qs where "planEdit compile ff t staging auth e = Ok p"
    "planEdits compile ff t staging auth es = Ok qs" "ps = p # qs"
    by (auto simp: rbind_Ok_iff)
  with Cons.IH [of qs] planEdit_ok [OF assms, of compile ff staging auth e p] show ?case by simp
qed simp

lemma planPointer_returns:
  "planFirstChild compile ff t auth targets ptr \<noteq> Panic"
  "planNextSibling compile ff t auth targets ptr \<noteq> Panic"
  "planNewParent compile ff t auth staging targets expr \<noteq> Panic"
  by (auto simp: planFirstChild_def planNextSibling_def planNewParent_def resolvePointerAsChild_def
      resolveOne_def rbind_Panic_iff resolveExactlyOne_returns requireDelete_returns requireOp_returns
      split: option.split NodePointer.split)

lemma planEdits_returns: "planEdits compile ff t staging auth es \<noteq> Panic"
proof -
  have "planEdit compile ff t staging auth e \<noteq> Panic" for e
    by (auto simp: planEdit_def rbind_Panic_iff Let_def guarded_def parse_returns requireAll_returns
        requireOp_returns planPointer_returns)
  then show ?thesis by (induction es) (auto simp: rbind_Panic_iff)
qed

section \<open>Applying a plan without a move\<close>

lemma edited_writeValues:
  assumes "edited auth t (ap_tree st)" "\<forall>n \<in> set ns. may auth t OpWrite n"
  shows "edited auth t (ap_tree (writeValues v ns st))"
  using assms
proof (induction v ns st rule: writeValues.induct)
  case (2 v n ns st)
  have "edited auth t (setValue n v (ap_tree st))" using "2.prems" by (intro edited_setValue) auto
  with 2 show ?case by (simp del: setters)
qed simp

lemma edited_mutate:
  assumes "edited auth t (ap_tree st)" "ends_in (mutate f w st) st'"
    and "\<And>u. f (ap_tree st) = Ok u \<Longrightarrow> edited auth t u"
  shows "edited auth t (ap_tree st')"
  using ends_in_mutate [OF assms(2)] assms(1,3) by auto

lemma edited_applyFirstChild:
  assumes "wf_tree t" "edited auth t (ap_tree st)" "plan_ok auth t p" "ends_in (applyFirstChild p st) st'"
  shows "edited auth t (ap_tree st')"
proof (cases "se_NewFirstChild (pl_edit p) = None")
  case False
  let ?n = "pl_targets p ! 0" and ?w = "InTarget (se_Target (pl_edit p)) \<circ> InNewFirstChild"
  let ?st = "snapshotChildren ?n st"
  from assms(4) False obtain st1 where m: "ends_in (mutate (relinkFirstChild ?n (pl_firstChild p)) ?w ?st) st1"
    "st' = st1 \<or> st' = addTouched ?n st1"
    by (auto simp: applyFirstChild_def Let_def ends_in_bind)
  have "edited auth t (ap_tree ?st)" using assms(2) by simp
  from edited_mutate [OF this m(1)] edited_relinkFirstChild [OF assms(1) this] assms(3) False m(2)
  show ?thesis by (auto simp: plan_ok_def)
qed (use assms in \<open>simp add: applyFirstChild_def\<close>)

lemma edited_applyNextSibling:
  assumes "wf_tree t" "edited auth t (ap_tree st)" "plan_ok auth t p" "ends_in (applyNextSibling p st) st'"
    and "sibling_later t (pl_targets p ! 0) (pl_nextSibling p)"
  shows "edited auth t (ap_tree st')"
proof (cases "se_NewNextSibling (pl_edit p) = None")
  case False
  let ?n = "pl_targets p ! 0" and ?w = "InTarget (se_Target (pl_edit p)) \<circ> InNewNextSibling"
  let ?st = "case Parent (ap_tree st) ?n of None \<Rightarrow> st | Some q \<Rightarrow> snapshotChildren q st"
  from assms(4) False obtain st1 where m: "ends_in (mutate (relinkNextSibling ?n (pl_nextSibling p)) ?w ?st) st1"
    "st' = st1 \<or> st' = addTouched ?n st1"
    by (auto simp: applyNextSibling_def Let_def ends_in_bind)
  have "edited auth t (ap_tree ?st)" using assms(2) by (simp split: option.split)
  from edited_mutate [OF this m(1)] edited_relinkNextSibling [OF assms(1) this _ assms(5)] assms(3) False m(2)
  show ?thesis by (auto simp: plan_ok_def)
qed (use assms in \<open>simp add: applyNextSibling_def\<close>)

text \<open>The state before the move of a plan, and that of a plan without one.\<close>

definition beforeMove :: "setEditPlan \<Rightarrow> applyState \<Rightarrow> apply_result" where
  "beforeMove p st = rbind (applyFirstChild p
     (case se_NewValue (pl_edit p) of None \<Rightarrow> st | Some v \<Rightarrow> writeValues v (pl_targets p) st))
     (applyNextSibling p)"

lemma applyPlan_beforeMove: "applyPlan p st = rbind (beforeMove p st) (applyNewParent p)"
  by (cases "applyFirstChild p
     (case se_NewValue (pl_edit p) of None \<Rightarrow> st | Some v \<Rightarrow> writeValues v (pl_targets p) st)")
     (simp_all add: applyPlan_def beforeMove_def Let_def)

lemma edited_beforeMove:
  assumes "wf_tree t" "edited auth t (ap_tree st)" "plan_ok auth t p" "ends_in (beforeMove p st) st'"
    and "sibling_later t (pl_targets p ! 0) (pl_nextSibling p)"
  shows "edited auth t (ap_tree st')"
proof -
  define st1 where
    "st1 = (case se_NewValue (pl_edit p) of None \<Rightarrow> st | Some v \<Rightarrow> writeValues v (pl_targets p) st)"
  have st1: "edited auth t (ap_tree st1)"
    using assms(2,3) edited_writeValues [OF assms(2)] by (auto simp: st1_def plan_ok_def split: option.split)
  have "ends_in (rbind (applyFirstChild p st1) (applyNextSibling p)) st'"
    using assms(4) by (simp add: beforeMove_def st1_def)
  then obtain st2 where "ends_in (applyFirstChild p st1) st2"
      "ends_in (applyNextSibling p st2) st' \<or> st' = st2"
    unfolding ends_in_bind by (metis ends_in.simps(1,2))
  with edited_applyFirstChild [OF assms(1) st1 assms(3)]
    edited_applyNextSibling [OF assms(1) _ assms(3) _ assms(5)] show ?thesis by blast
qed

section \<open>Moving a node\<close>

definition moveNode :: "nat \<Rightarrow> nat \<Rightarrow> nat \<Rightarrow> Tree \<Rightarrow> Tree" where
  "moveNode n q np u =
     (let u = setParent n (Some np) (setChildren q (filter (\<lambda>x. x \<noteq> n) (Children u q)) u)
      in setChildren np (Children u np @ [n]) u)"

lemma moveNode_simps:
  "Parent (moveNode n q np u) m = (if m = n then Some np else Parent u m)"
  "Children (moveNode n q np u) m =
     (let cs = (if m = q then filter (\<lambda>x. x \<noteq> n) (Children u q) else Children u m)
      in if m = np then cs @ [n] else cs)"
  "fresh (moveNode n q np u) = fresh u" "Root (moveNode n q np u) = Root u"
  by (simp_all add: moveNode_def Let_def)

lemma acyclic_move:
  assumes "parents_acyclic u" "(np, n) \<notin> (parent_rel u)\<^sup>*"
  shows "parents_acyclic (moveNode n q np u)"
proof -
  obtain rank :: "nat \<Rightarrow> nat" where rank: "Parent u a = Some b \<Longrightarrow> rank b < rank a" for a b
    using assms(1) unfolding parents_acyclic_def by blast
  let ?below = "\<lambda>m. (m, n) \<in> (parent_rel u)\<^sup>*"
  let ?rank = "\<lambda>m. if ?below m then rank m + rank np + 1 else rank m"
  have "?rank b < ?rank a" if ab: "(if a = n then Some np else Parent u a) = Some b" for a b
  proof (cases "a = n")
    case True
    with ab assms(2) show ?thesis by auto
  next
    case False
    then have p: "Parent u a = Some b" using ab by simp
    have "?below a \<longleftrightarrow> ?below b" using parent_rtrancl [of a n u] False p by simp
    with rank [OF p] show ?thesis by simp
  qed
  then show ?thesis unfolding parents_acyclic_def moveNode_simps by (intro exI [of _ ?rank]) blast
qed

lemma wf_moveNode:
  assumes wf: "wf_tree u" and n: "Parent u n = Some q" "n \<in> set (Children u q)"
    and np: "np < fresh u" "(np, n) \<notin> (parent_rel u)\<^sup>*"
  shows "wf_tree (moveNode n q np u)"
proof -
  note W = wf_treeD [OF wf]
  define kept where "kept m = (if m = q then filter (\<lambda>x. x \<noteq> n) (Children u q) else Children u m)" for m
  have ch: "Children (moveNode n q np u) m = (if m = np then kept m @ [n] else kept m)"
    and par: "Parent (moveNode n q np u) m = (if m = n then Some np else Parent u m)" for m
    by (simp_all add: moveNode_simps Let_def kept_def)
  have gone: "n \<notin> set (kept m)" for m
    using W(8) [of n m] n(1) by (auto simp: kept_def)
  have kept: "distinct (kept m)" "set (kept m) \<subseteq> set (Children u m)" for m
    using W(7) [of m] by (auto simp: kept_def)
  have "distinct (Children (moveNode n q np u) m)" for m
    unfolding ch using kept(1) gone by simp
  moreover have "Parent (moveNode n q np u) c = Some m" if "c \<in> set (Children (moveNode n q np u) m)" for c m
    using that kept(2) [of m] W(8) [of c m] gone [of m] unfolding ch par by (auto split: if_splits)
  moreover have "Children (moveNode n q np u) m = []" if "fresh u \<le> m" for m
    using that kept(2) [of m] W(3) [OF that] np(1) unfolding ch by auto
  moreover have "Parent (moveNode n q np u) m = None" if "fresh u \<le> m" for m
    using that W(4) [OF that] W(6) [OF n(1)] unfolding par by auto
  moreover have "p < fresh u" if "Parent (moveNode n q np u) m = Some p" for m p
    using that W(5) np(1) unfolding par by (auto split: if_splits)
  moreover have "parents_acyclic (moveNode n q np u)"
    using wf np(2) by (intro acyclic_move) (simp_all add: wf_tree_def)
  moreover have "Parent (moveNode n q np u) (Root u) = None"
    using W(2) n(1) unfolding par by auto
  ultimately show ?thesis unfolding wf_tree_def moveNode_simps(3,4) using W(1) by blast
qed

lemma applyNewParent_move:
  assumes wf: "wf_tree u" "ap_tree st = u" and np: "pl_newParent p = Some np"
    and q: "Parent u (pl_targets p ! 0) = Some q" and ok: "applyNewParent p st = Ok st'"
  shows "pl_targets p ! 0 \<in> set (Children u q) \<and> ap_tree st' = moveNode (pl_targets p ! 0) q np u"
proof -
  let ?n = "pl_targets p ! 0"
  have mem: "?n \<in> set (Children u q)"
    using ok np q wf(2) by (auto simp: applyNewParent_def Let_def indexOfChild_neg split: if_splits)
  then have "\<not> indexOfChild u q ?n < 0" by (simp add: indexOfChild_neg)
  moreover have "(removeChild q ?n u :: Tree tree_result) =
      Ok (setChildren q (filter (\<lambda>x. x \<noteq> ?n) (Children u q)) u)"
    using removeChild_filter [OF wf_treeD(7) [OF wf(1)] mem] .
  ultimately have "ap_tree st' = moveNode ?n q np u"
    using ok np q wf(2) by (auto simp: applyNewParent_def Let_def mutate_def moveNode_def simp del: setters)
  with mem show ?thesis by blast
qed

section \<open>The whole request\<close>

lemma applyPlans_edited:
  assumes wf: "wf_tree t"
  shows "edited auth t (ap_tree st) \<Longrightarrow> ends_in (applyPlans ps st) st' \<Longrightarrow>
    \<forall>p \<in> set ps. plan_ok auth t p \<and> pl_newParent p = None \<and>
      sibling_later t (pl_targets p ! 0) (pl_nextSibling p) \<Longrightarrow> edited auth t (ap_tree st')"
proof (induction ps arbitrary: st)
  case (Cons p ps)
  have np: "pl_newParent p = None" and ok: "plan_ok auth t p"
    and later: "sibling_later t (pl_targets p ! 0) (pl_nextSibling p)" using Cons.prems(3) by auto
  have "applyPlan p st = beforeMove p st"
    using np by (cases "beforeMove p st") (simp_all add: applyPlan_beforeMove applyNewParent_def)
  then have "ends_in (rbind (beforeMove p st) (applyPlans ps)) st'" using Cons.prems(2) by simp
  then obtain st1 where "ends_in (beforeMove p st) st1" "ends_in (applyPlans ps st1) st' \<or> st' = st1"
    unfolding ends_in_bind by (metis ends_in.simps(1,2))
  with edited_beforeMove [OF wf Cons.prems(1) ok _ later] Cons.IH Cons.prems(3) show ?case by auto
qed simp

lemma applyPlans_append: "applyPlans (ps @ qs) st = rbind (applyPlans ps st) (applyPlans qs)"
proof (induction ps arbitrary: st)
  case (Cons p ps)
  then show ?case by (cases "applyPlan p st") simp_all
qed simp

text \<open>Success with a move in the last plan at most: an edited tree, or that with one node moved.\<close>

lemma applyPlans_shape:
  assumes wf: "wf_tree t" and ok: "applyPlans ps (startApply t) = Ok st"
    and plans: "\<forall>p \<in> set ps. plan_ok auth t p \<and> sibling_later t (pl_targets p ! 0) (pl_nextSibling p)"
    and moves: "\<forall>p \<in> set (butlast ps). pl_newParent p = None"
  obtains (edited) "edited auth t (ap_tree st)"
  | (moved) p np e q where "p \<in> set ps" "pl_newParent p = Some np" "edited auth t e"
      "move_ok auth t (pl_targets p ! 0) np" "Parent e (pl_targets p ! 0) = Some q"
      "pl_targets p ! 0 \<in> set (Children e q)" "ap_tree st = moveNode (pl_targets p ! 0) q np e"
proof (cases ps rule: rev_cases)
  case Nil
  with ok edited show thesis by (auto simp: startApply_def)
next
  case (snoc qs p)
  obtain st1 where st1: "applyPlans qs (startApply t) = Ok st1" "applyPlan p st1 = Ok st"
    using ok snoc by (auto simp: applyPlans_append rbind_Ok_iff)
  obtain st2 where st2: "beforeMove p st1 = Ok st2" "applyNewParent p st2 = Ok st"
    using st1(2) by (auto simp: applyPlan_beforeMove rbind_Ok_iff)
  have "\<forall>p \<in> set qs. plan_ok auth t p \<and> pl_newParent p = None \<and>
      sibling_later t (pl_targets p ! 0) (pl_nextSibling p)"
    using plans moves unfolding snoc by simp
  moreover have "edited auth t (ap_tree (startApply t))" by (simp add: startApply_def)
  moreover have "ends_in (applyPlans qs (startApply t)) st1" by (simp only: st1(1) ends_in.simps)
  ultimately have e1: "edited auth t (ap_tree st1)" using applyPlans_edited [OF wf] by blast
  have p: "plan_ok auth t p" "sibling_later t (pl_targets p ! 0) (pl_nextSibling p)" "p \<in> set ps"
    using plans unfolding snoc by simp_all
  have e2: "edited auth t (ap_tree st2)"
    by (rule edited_beforeMove [OF wf e1 p(1) _ p(2)]) (simp only: st2(1) ends_in.simps)
  show thesis
  proof (cases "pl_newParent p")
    case None
    with st2(2) e2 edited show thesis by (simp add: applyNewParent_def)
  next
    case (Some np)
    then have move: "move_ok auth t (pl_targets p ! 0) np" using p(1) unfolding plan_ok_def by blast
    then obtain q where q: "Parent (ap_tree st2) (pl_targets p ! 0) = Some q"
      using editedD(4) [OF e2] by (auto simp: move_ok_def)
    from applyNewParent_move [OF edited_wf [OF wf e2] refl Some q st2(2)] moved [OF p(3) Some e2 move q]
    show thesis by blast
  qed
qed

lemma applyPlans_wf:
  assumes wf: "wf_tree t" and ok: "applyPlans ps (startApply t) = Ok st"
    and plans: "\<forall>p \<in> set ps. plan_ok auth t p \<and> sibling_later t (pl_targets p ! 0) (pl_nextSibling p)"
    and moves: "\<forall>p \<in> set (butlast ps). pl_newParent p = None"
  shows "wf_tree (ap_tree st)"
  using assms
proof (cases rule: applyPlans_shape)
  case edited
  then show ?thesis by (rule edited_wf [OF wf])
next
  case (moved p np e q)
  have "parent_rel e = parent_rel t" by (simp add: parent_rel_def editedD(4) [OF moved(3)])
  then have "(np, pl_targets p ! 0) \<notin> (parent_rel e)\<^sup>*" "np < fresh e"
    using moved(4) reachable_lt [OF wf] editedD(2) [OF moved(3)] by (auto simp: move_ok_def rtrancl_eq_or_trancl)
  with wf_moveNode [OF edited_wf [OF wf moved(3)] moved(5,6)] moved(7) show ?thesis by simp
qed

text \<open>Only the last edit moves a node: then only the last plan does.\<close>

lemma last_moves:
  assumes "map pl_edit ps = es \<and> (\<forall>p \<in> set ps. plan_ok auth t p)"
    and "\<forall>e \<in> set (butlast es). se_NewParent e = None"
  shows "\<forall>p \<in> set (butlast ps). pl_newParent p = None"
proof
  fix p
  assume p: "p \<in> set (butlast ps)"
  have "pl_edit p \<in> set (butlast es)" using p assms(1) by (metis image_eqI list.set_map map_butlast)
  moreover have "plan_ok auth t p" using p assms(1) in_set_butlastD by fast
  ultimately show "pl_newParent p = None" using assms(2) plan_ok_move by blast
qed

text \<open>A node that left the tree was, with all it was below, dropped by some relink.\<close>

lemma edited_vanished:
  assumes e: "edited auth t u" and n: "reachable t n" "\<not> reachable u n"
  shows "may auth t OpDelete n"
proof -
  have "\<exists>c. (n, c) \<in> (child_rel t)\<^sup>* \<and> deletable auth t c"
    using n
  proof (induction rule: reachable.induct)
    case root
    then show ?case using reachable.root [of u] editedD(1) [OF e] by simp
  next
    case (child p c)
    show ?case
    proof (cases "reachable u p")
      case True
      then have "c \<notin> set (Children u p)" using child.prems reachable.child by blast
      then show ?thesis using editedD(7) [OF e child.hyps(2)] by blast
    next
      case False
      have "(c, p) \<in> child_rel t" using child.hyps(2) by (simp add: child_rel_def)
      with child.IH [OF False] show ?thesis by (meson converse_rtrancl_into_rtrancl)
    qed
  qed
  then show ?thesis unfolding deletable_def by blast
qed

end
