(* ===== verification/Set_Values.thy ===== *)
theory Set_Values
  imports Set_Request
begin

text \<open>
  Set requests that only write values: their effect as a list of writes.
\<close>

definition edit_writes :: "compiler \<Rightarrow> (f64 \<Rightarrow> string) \<Rightarrow> Tree \<Rightarrow> auth \<Rightarrow> SetEdit \<Rightarrow> (nat \<times> NodeValue) list" where
  "edit_writes compile ff t auth e =
     (case (se_NewValue e, FindAllAs compile ff t (se_Target e) auth) of
        (Some v, Ok ns) \<Rightarrow> map (\<lambda>n. (n, v)) ns | _ \<Rightarrow> [])"

definition value_writes :: "compiler \<Rightarrow> (f64 \<Rightarrow> string) \<Rightarrow> Tree \<Rightarrow> auth \<Rightarrow> SetEdit list \<Rightarrow> (nat \<times> NodeValue) list" where
  "value_writes compile ff t auth es = concat (map (edit_writes compile ff t auth) es)"

definition plan_writes :: "setEditPlan \<Rightarrow> (nat \<times> NodeValue) list" where
  "plan_writes p = (case se_NewValue (pl_edit p) of None \<Rightarrow> [] | Some v \<Rightarrow> map (\<lambda>n. (n, v)) (pl_targets p))"

lemma plan_edit_writes:
  assumes "planEdit compile ff t staging auth e = Ok p"
  shows "plan_writes p = edit_writes compile ff t auth e" "pl_edit p = e"
proof -
  obtain segs where "parse compile (se_Target e) = Ok segs" "pl_edit p = e"
    "pl_targets p = evaluateAs ff t (Root t) segs auth"
    using assms by (auto simp: planEdit_def rbind_Ok_iff Let_def split: if_splits)
  then show "plan_writes p = edit_writes compile ff t auth e" "pl_edit p = e"
    by (simp_all add: plan_writes_def edit_writes_def FindAllAs_def split: option.split)
qed

lemma plans_value_writes:
  "planEdits compile ff t staging auth es = Ok ps \<Longrightarrow>
   map pl_edit ps = es \<and> concat (map plan_writes ps) = value_writes compile ff t auth es"
proof (induction es arbitrary: ps)
  case (Cons e es)
  then obtain p qs where "planEdit compile ff t staging auth e = Ok p"
    "planEdits compile ff t staging auth es = Ok qs" "ps = p # qs"
    by (auto simp: rbind_Ok_iff)
  with Cons.IH [of qs] plan_edit_writes [of compile ff t staging auth e p]
  show ?case by (simp add: value_writes_def)
qed (simp add: value_writes_def)

text \<open>Writing in order: the later write to a node wins; \<open>touched\<close> lists each node once.\<close>

definition wrote :: "applyState \<Rightarrow> (nat \<times> NodeValue) list \<Rightarrow> applyState \<Rightarrow> bool" where
  "wrote st ws st' \<longleftrightarrow> Value (ap_tree st') = restore (Value (ap_tree st)) ws \<and>
     Children (ap_tree st') = Children (ap_tree st) \<and> Parent (ap_tree st') = Parent (ap_tree st) \<and>
     same_frame (ap_tree st) (ap_tree st') \<and>
     set (ap_touched st') = set (ap_touched st) \<union> fst ` set ws \<and>
     (distinct (ap_touched st) \<longrightarrow> distinct (ap_touched st'))"

lemma restore_append: "restore now (us @ vs) = restore (restore now us) vs"
  by (rule ext) (auto simp: restore_def map_add_def split: option.split)

lemma wrote_refl: "wrote st [] st"
  by (simp add: wrote_def restore_simps(1))

lemma wrote_trans: "wrote st us st1 \<Longrightarrow> wrote st1 vs st2 \<Longrightarrow> wrote st (us @ vs) st2"
  unfolding wrote_def restore_append same_frame_def by (simp add: Un_assoc image_Un)

lemma wrote_writeValues: "wrote st (map (\<lambda>n. (n, v)) ns) (writeValues v ns st)"
proof (induction v ns st rule: writeValues.induct)
  case (1 v st)
  show ?case by (simp add: wrote_refl)
next
  case (2 v n ns st)
  let ?st = "addTouched n (st\<lparr>ap_valueUndos := ap_valueUndos st @ [(n, Value (ap_tree st) n)],
      ap_tree := setValue n v (ap_tree st)\<rparr>)"
  have "distinct (ap_touched st) \<longrightarrow> distinct (ap_touched ?st)" by (auto simp: addTouched_def)
  then have "wrote st [(n, v)] ?st"
    unfolding wrote_def addTouched_simps restore_simps(3) restore_simps(1)
    by (simp add: set_fields del: setters)
  from wrote_trans [OF this 2] show ?case by simp
qed

lemma wrote_applyPlan:
  assumes "\<not> structural (pl_edit p)" "pl_newParent p = None" "applyPlan p st = Ok st'"
  shows "wrote st (plan_writes p) st'"
  using assms wrote_writeValues wrote_refl
  by (auto simp: applyPlan_def structural_def applyFirstChild_def applyNextSibling_def applyNewParent_def
      Let_def plan_writes_def split: option.splits)

lemma wrote_applyPlans:
  "\<forall>p \<in> set ps. \<not> structural (pl_edit p) \<and> pl_newParent p = None \<Longrightarrow> applyPlans ps st = Ok st' \<Longrightarrow>
   wrote st (concat (map plan_writes ps)) st'"
proof (induction ps arbitrary: st)
  case (Cons p ps)
  then obtain st1 where "applyPlan p st = Ok st1" "applyPlans ps st1 = Ok st'" by (auto simp: rbind_Ok_iff)
  with Cons wrote_applyPlan [of p st st1] show ?case by (auto intro: wrote_trans)
qed (simp add: wrote_refl)

text \<open>Such a request never fails once it is planned.\<close>

lemma value_plans_succeed:
  "\<forall>p \<in> set ps. \<not> structural (pl_edit p) \<and> pl_newParent p = None \<Longrightarrow> \<exists>st'. applyPlans ps st = Ok st'"
proof (induction ps arbitrary: st)
  case (Cons p ps)
  then have "\<exists>st1. applyPlan p st = Ok st1"
    by (auto simp: applyPlan_def structural_def applyFirstChild_def applyNextSibling_def applyNewParent_def
        Let_def)
  with Cons show ?case by auto
qed simp

end
