(* ===== verification/Tree_Example.thy ===== *)
theory Tree_Example
  imports Creation Set_Values
begin

text \<open>
  A small tree with three children \<open>a\<close>, \<open>b\<close>, \<open>c\<close> of the root and a compiler of literal patterns, on
  which the properties of the tree are instantiated.
\<close>

definition trio :: Tree where
  "trio = foldl (\<lambda>t k. snd (AppendUnder 0 k ValueNoValue t)) NewTree [''a'', ''b'', ''c'']"

definition lit :: compiler where
  "lit p = Some (\<lambda>s. p = anchored s)"

definition edit :: "string \<Rightarrow> SetEdit" where
  "edit e = \<lparr>se_Target = e, se_NewValue = None, se_NewFirstChild = None, se_NewNextSibling = None,
     se_NewParent = None\<rparr>"

definition request :: "SetEdit list \<Rightarrow> SetReq" where
  "request es = \<lparr>set_SequenceNumber = 1, set_Edits = es\<rparr>"

lemma trio_nodes:
  "nodes trio = (\<lambda>n. \<lparr>tn_Key = (if n = 1 then ''a'' else if n = 2 then ''b'' else if n = 3 then ''c'' else ''/''),
      tn_Value = ValueNoValue, tn_Children = (if n = 0 then [1, 2, 3] else []),
      tn_Parent = (if n \<in> {1, 2, 3} then Some 0 else None),
      tn_id = (if n = 1 then 1 else if n = 2 then 2 else if n = 3 then 3 else 0)\<rparr>)"
  "fresh trio = 4" "Root trio = 0"
  by (auto simp: trio_def AppendUnder_def allocNode_def AppendChild_def NewTree_def notifyChanged_def
      update_def setChildren_def setParent_def Let_def fun_eq_iff)

lemma anchored_inj [simp]: "anchored x = anchored y \<longleftrightarrow> x = y"
  by (simp add: anchored_def)

lemma lit_parse: "x \<in> {''a'', ''b'', ''c''} \<Longrightarrow> parse lit x = Ok [\<lparr>KeyRe = (\<lambda>s. x = s), ValueRe = None\<rparr>]"
  by (auto simp: parse_def ParseExpression_def splitUnescaped_def parsePart_def splitFirstUnescaped_def lit_def)

lemma lit_eval: "evaluateAs ff trio 0 [\<lparr>KeyRe = (\<lambda>s. x = s), ValueRe = None\<rparr>] None =
   filter (\<lambda>n. x = Key trio n) [1,2,3]"
  by (simp add: evaluateAs_def segmentKeeps_def canRead_def trio_nodes)

lemma lit_resolve: "resolveExpressionExactlyOne lit ff trio ''a'' None = Ok 1"
  "resolveExpressionExactlyOne lit ff trio ''b'' None = Ok 2"
  "resolveExpressionExactlyOne lit ff trio ''c'' None = Ok 3"
  by (simp_all add: resolveExpressionExactlyOne_def lit_parse lit_eval trio_nodes exactlyOne_def)

lemma lit_no_desc: "isDescendant trio 0 1" "isDescendant trio 0 2" "\<not> isDescendant trio 1 2" "\<not> isDescendant trio 2 1"
  by (simp_all add: isDescendant_def trio_nodes eval_nat_numeral)

lemmas plan_run = planEdit_def edit_def lit_parse lit_eval trio_nodes structural_def guarded_def
  requireOp_def planFirstChild_def planNextSibling_def planNewParent_def resolvePointerAsChild_def
  resolveOne_def lit_resolve requireDeleteAll_def droppedByFirstChild_def droppedByNextSibling_def
  indexOfChild_def Let_def lit_no_desc

lemmas set_run = plan_run request_def SetAs_def applySetPlans_def startApply_def applyPlan_def applyFirstChild_def
  applyNextSibling_def applyNewParent_def mutate_def relinkFirstChild_def relinkNextSibling_def
  removeChild_def snapshotChildren_def addTouched_def rollback_def lit_no_desc [simplified]

lemma trio_wf: "wf_tree trio"
proof -
  have "fresh NewTree = 1" by (simp add: NewTree_def)
  then show ?thesis by (simp add: trio_def AppendUnder_wf NewTree_wf)
qed

end
