(* ===== verification/Tree_Write_Properties.thy ===== *)
theory Tree_Write_Properties
  imports Tree_Example
begin

text \<open>
  What changing the tree gives: creation, deletion and set requests keep the tree a tree, respect the
  caller's rights and are atomic, under the conditions stated; and the change broadcast.
\<close>

section \<open>Creation\<close>

text \<open>Creating nodes keeps the tree well-formed and leaves every existing node in place: its key,
  value, parent, path and reachability, with new children only after the old ones.\<close>

theorem creation_only_grows:
  assumes "wf_tree t" "p < fresh t"
    and "u \<in> {snd (AppendUnder p k v t), snd (EnsurePath keys t), snd (EnsurePath0 p keys t),
      fst (CreateStagedAs compile ff p parentExpr k v auth t), fst (AppendLeafSubtree p k es t)}"
  shows "wf_tree u \<and> grows t u \<and>
    (\<forall>n < fresh t. NodePath u n = NodePath t n \<and> IsReachable u n = IsReachable t n)"
proof -
  have "creates t (snd (AppendUnder p k v t))"
    using creates_addNode [OF assms(1,2)] by (simp add: AppendUnder_eq)
  moreover have "creates t (snd (ensurePathLocked cur keys t))" if "cur < fresh t" for cur
    using ensurePath_creates [OF assms(1) that, of keys] by (cases "ensurePathLocked cur keys t") simp
  then have "creates t (snd (EnsurePath keys t))" "creates t (snd (EnsurePath0 p keys t))"
    using assms(2) wf_treeD(1) [OF assms(1)] by (simp_all add: EnsurePath_def EnsurePath0_def)
  moreover have "creates t (fst (CreateStagedAs compile ff p parentExpr k v auth t))"
    by (rule CreateStagedAs_cases [OF assms(1,2), of compile ff parentExpr k v auth])
      (simp_all add: creates_refl assms(1) creates_addNode)
  moreover have "creates t (fst (AppendLeafSubtree p k es t))"
    using AppendLeafSubtree_creates [OF assms(1,2)] .
  ultimately have "creates t u" using assms(3) by auto
  then have u: "wf_tree u" "grows t u" by (simp_all add: creates_def)
  have "NodePath u n = NodePath t n \<and> IsReachable u n = IsReachable t n" if "n < fresh t" for n
    using grows_NodePath [OF assms(1) u that] IsReachable_iff [OF u(1)] IsReachable_iff [OF assms(1)]
      grows_reachable [OF assms(1) u(2)] grows_reachable_old [OF assms(1) u _ that] by blast
  with u show ?thesis by blast
qed

theorem creation_only_grows_witness:
  "wf_tree (fst (AppendLeafSubtree 1 ''k'' [(''x'', ValueNoValue)] trio)) \<and>
   NodePath (fst (AppendLeafSubtree 1 ''k'' [(''x'', ValueNoValue)] trio)) 2 = NodePath trio 2"
  using creation_only_grows [OF trio_wf, where p = 1 and k = "''k''" and es = "[(''x'', ValueNoValue)]"
      and u = "fst (AppendLeafSubtree 1 ''k'' [(''x'', ValueNoValue)] trio)"]
  by (simp add: trio_nodes)

text \<open>A create either fails and changes nothing, or adds exactly one node, with the given key and
  value, as the last child of the staging node or of a node staged below it; it never panics.\<close>

theorem create_stays_staged:
  assumes "wf_tree t" "staging < fresh t"
    and "CreateStagedAs compile ff staging parentExpr k v auth t = (u, r)"
  shows "r \<noteq> Panic \<and> (\<forall>e. r = Err e \<longrightarrow> u = t) \<and>
    (\<forall>n. r = Ok n \<longrightarrow> n = fresh t \<and> fresh u = fresh t + 1 \<and> Key u n = k \<and> Value u n = v \<and>
       (\<exists>q. Parent u n = Some q \<and> isDescendantOrSelf t staging q \<and>
          Children u q = Children t q @ [n] \<and> (parentExpr = [] \<longrightarrow> q = staging)))"
  using CreateStagedAs_cases [OF assms(1,2), of compile ff parentExpr k v auth]
proof cases
  case (1 e)
  with assms(3) show ?thesis by auto
next
  case (2 q)
  then have "u = notifyChanged (addNode q k v t)" "r = Ok (fresh t)" using assms(3) by simp_all
  with 2 show ?thesis by (simp add: addNode_child addNode_simps(2))
qed

theorem create_stays_staged_witness:
  "case CreateStagedAs lit (\<lambda>r. []) 0 ''b'' ''k'' ValueNoValue None trio of
     (u, r) \<Rightarrow> r = Ok 4 \<and> Key u 4 = ''k'' \<and> Parent u 4 = Some 2 \<and> Children u 2 = [4]"
proof -
  obtain u r where c: "CreateStagedAs lit (\<lambda>r. []) 0 ''b'' ''k'' ValueNoValue None trio = (u, r)" by fastforce
  then have r: "r = Ok 4"
    by (simp add: CreateStagedAs_def lit_resolve isDescendantOrSelf_def lit_no_desc split_beta Let_def trio_nodes)
  have "Parent u 4 = Some 2"
    using c by (auto simp: CreateStagedAs_def lit_resolve isDescendantOrSelf_def lit_no_desc split_beta Let_def
        addNode_child(2) trio_nodes allocNode_def AppendChild_def update_def setParent_def setChildren_def)
  with create_stays_staged [OF trio_wf _ c] r show ?thesis by (auto simp: c trio_nodes)
qed

section \<open>Deletion\<close>

text \<open>C5. A delete never panics and never half-happens: on an error nothing changed; otherwise exactly the
  matched nodes and what is below them leave the tree, the identity was allowed to delete every node
  that left, and no key, value or parent changed. The tree stays well-formed.\<close>

theorem delete_exact:
  assumes wf: "wf_tree t" and d: "DeleteAs compile ff exprs auth t = (u, r)"
  shows "wf_tree u \<and> r \<noteq> Panic \<and> (\<forall>e. r = Err e \<longrightarrow> u = t) \<and>
    (\<forall>ms. r = Ok ms \<longrightarrow> distinct ms \<and> set ms = deleted_by compile ff t auth exprs \<and>
      (\<forall>n. IsReachable u n \<longleftrightarrow> IsReachable t n \<and> \<not> (\<exists>m \<in> set ms. isDescendantOrSelf t m n)) \<and>
      (\<forall>n. IsReachable t n \<and> \<not> IsReachable u n \<longrightarrow> may auth t OpDelete n) \<and>
      (\<forall>n. Key u n = Key t n \<and> Value u n = Value t n \<and> Parent u n = Parent t n))"
proof (rule DeleteAs_cases [OF wf, of compile ff exprs auth])
  fix e
  assume "DeleteAs compile ff exprs auth t = (t, Err e)"
  with wf d show ?thesis by auto
next
  fix ms
  assume eq: "DeleteAs compile ff exprs auth t =
      (if ms = [] then t else notifyChanged (dropNodes (set ms) t), Ok ms)"
    and ms: "set ms = deleted_by compile ff t auth exprs" "distinct ms"
    and may: "requireDeleteAll auth t ms = Ok ()"
  let ?d = "dropNodes (set ms) t"
  have wfd: "wf_tree ?d" by (rule wf_dropNodes [OF wf])
  have u: "r = Ok ms" "wf_tree u" "Key u n = Key t n" "Value u n = Value t n" "Parent u n = Parent t n" for n
    using d eq wf wfd by (auto split: if_splits)
  have root: "Root t \<notin> set ms" using deleted_by_parent(2) [OF wf] ms(1) by blast
  have below: "isDescendantOrSelf t m n \<longleftrightarrow> (n, m) \<in> (parent_rel t)\<^sup>*" for m n
    by (auto simp: isDescendantOrSelf_def isDescendant_iff [OF wf] rtrancl_eq_or_trancl)
  have reach: "IsReachable u n \<longleftrightarrow> IsReachable t n \<and> \<not> (\<exists>m \<in> set ms. isDescendantOrSelf t m n)" for n
    using d eq wf wfd dropNodes_reachable [OF wf root, of n] below
    by (cases "ms = []") (auto simp: IsReachable_iff)
  have "may auth t OpDelete n" if n: "IsReachable t n" "\<not> IsReachable u n" for n
  proof -
    obtain m where m: "m \<in> set ms" "(n, m) \<in> (parent_rel t)\<^sup>*" using n reach below by blast
    have "(n, m) \<in> (child_rel t)\<^sup>*"
      using reachable_chain [OF wf m(2)] n(1) IsReachable_iff [OF wf] by blast
    with may m(1) show ?thesis using requireDeleteAll_iff [OF wf] unfolding deletable_def by blast
  qed
  with u reach ms show ?thesis by blast
qed

lemma trio_deleted: "DeleteAs lit (\<lambda>r. []) [''b''] None trio = (notifyChanged (dropNodes {2} trio), Ok [2])"
proof -
  have "deleteMatches lit (\<lambda>r. []) trio None [''b''] [] = Ok [2]"
    by (simp add: lit_parse lit_eval trio_nodes)
  moreover have "removeAllMatched [2] trio = Ok (dropNodes {2} trio)"
    using removeAllMatched_drop [OF trio_wf, of "[2]"] by (simp add: trio_nodes)
  ultimately show ?thesis by (simp add: DeleteAs_def requireDeleteAll_def)
qed

theorem delete_exact_witness:
  "IsReachable trio 2 \<and> \<not> IsReachable (fst (DeleteAs lit (\<lambda>r. []) [''b''] None trio)) 2 \<and>
   IsReachable (fst (DeleteAs lit (\<lambda>r. []) [''b''] None trio)) 3"
proof -
  have "IsReachable trio 2" "IsReachable trio 3" "\<not> isDescendantOrSelf trio 2 3"
    by (simp_all add: IsReachable_def isDescendantOrSelf_def isDescendant_def trio_nodes indexOfChild_def eval_nat_numeral)
  with delete_exact [OF trio_wf trio_deleted] trio_deleted show ?thesis
    by (auto simp: isDescendantOrSelf_def)
qed

section \<open>Set\<close>

text \<open>The plans of a request, if it can be planned.\<close>

definition planned :: "compiler \<Rightarrow> (f64 \<Rightarrow> string) \<Rightarrow> Tree \<Rightarrow> nat option \<Rightarrow> auth \<Rightarrow> SetReq \<Rightarrow> setEditPlan list \<Rightarrow> bool" where
  "planned compile ff t staging auth s ps \<longleftrightarrow> planEdits compile ff t staging auth (set_Edits s) = Ok ps"

lemma SetAs_cases:
  assumes "SetAs compile ff s staging auth t = (u, r)"
  obtains e where "r = Err e" "u = t" "\<nexists>ps. planned compile ff t staging auth s ps"
  | ps e st where "planned compile ff t staging auth s ps" "applyPlans ps (startApply t) = Err (e, st)"
      "u = rollback st" "r = Err e"
  | ps st where "planned compile ff t staging auth s ps" "applyPlans ps (startApply t) = Ok st"
      "u = (if ap_touched st = [] then ap_tree st else notifyChanged (ap_tree st))" "r = Ok (ap_touched st)"
  using assms planEdits_returns [of compile ff t staging auth "set_Edits s"] applyPlans_returns [of _ "startApply t"]
  by (auto simp: SetAs_def applySetPlans_def planned_def split: result.splits prod.splits if_splits)

lemma planned_ok: "wf_tree t \<Longrightarrow> planned compile ff t staging auth s ps \<Longrightarrow>
    map pl_edit ps = set_Edits s \<and> (\<forall>p \<in> set ps. plan_ok auth t p)"
  unfolding planned_def by (rule planEdits_ok)



text \<open>Where the siblings given in a request come later than the node they are to follow.\<close>

definition siblings_later :: "compiler \<Rightarrow> (f64 \<Rightarrow> string) \<Rightarrow> Tree \<Rightarrow> nat option \<Rightarrow> auth \<Rightarrow> SetReq \<Rightarrow> bool" where
  "siblings_later compile ff t staging auth s \<longleftrightarrow> (\<forall>ps. planned compile ff t staging auth s ps \<longrightarrow>
     (\<forall>p \<in> set ps. sibling_later t (pl_targets p ! 0) (pl_nextSibling p)))"


lemma trio_relink_plan:
  "planned lit (\<lambda>r. []) trio None None (request [(edit ''a'')\<lparr>se_NewNextSibling := Some (PointerAbsolute ''c'')\<rparr>]) ps \<Longrightarrow>
   \<forall>p \<in> set ps. pl_targets p = [1] \<and> pl_nextSibling p = Some 3"
  by (auto simp: planned_def request_def plan_run)




text \<open>C25. A request of value edits writes every matched node and nothing else: it succeeds whenever it
  can be planned, each node gets the value of the last edit that matches it in the tree as it was,
  and the nodes reported are those written, each once.\<close>

theorem value_set_exact:
  assumes s: "SetAs compile ff s staging auth t = (u, r)" and wf: "wf_tree t"
    and p: "planned compile ff t staging auth s ps"
    and vals: "\<forall>e \<in> set (set_Edits s). \<not> structural e"
  shows "\<exists>touched. r = Ok touched \<and> distinct touched \<and>
    set touched = fst ` set (value_writes compile ff t auth (set_Edits s)) \<and>
    (\<forall>n. Value u n = (case map_of (rev (value_writes compile ff t auth (set_Edits s))) n of
        None \<Rightarrow> Value t n | Some v \<Rightarrow> v)) \<and>
    (\<forall>n. Key u n = Key t n \<and> Children u n = Children t n \<and> Parent u n = Parent t n)"
proof -
  note ok = planned_ok [OF wf p]
  have ps: "\<forall>p \<in> set ps. \<not> structural (pl_edit p) \<and> pl_newParent p = None"
  proof
    fix q
    assume q: "q \<in> set ps"
    then have "pl_edit q \<in> set (set_Edits s)" using ok by (metis image_eqI list.set_map)
    then have "\<not> structural (pl_edit q)" using vals by blast
    then show "\<not> structural (pl_edit q) \<and> pl_newParent q = None"
      using plan_ok_move [of auth t q] q ok by (auto simp: structural_def)
  qed
  obtain st where st: "applyPlans ps (startApply t) = Ok st" using value_plans_succeed [OF ps] by blast
  have writes: "concat (map plan_writes ps) = value_writes compile ff t auth (set_Edits s)"
    using plans_value_writes p unfolding planned_def by blast
  have w: "wrote (startApply t) (value_writes compile ff t auth (set_Edits s)) st"
    using wrote_applyPlans [OF ps st] unfolding writes .
  have u: "r = Ok (ap_touched st)" "nodes u = nodes (ap_tree st)"
    using s p st by (auto simp: SetAs_def planned_def applySetPlans_def split: if_splits)
  have "Value (ap_tree st) = restore (Value t) (value_writes compile ff t auth (set_Edits s))"
    using w by (simp add: wrote_def startApply_def)
  then have "Value (ap_tree st) n = restore (Value t) (value_writes compile ff t auth (set_Edits s)) n" for n
    by (rule fun_cong)
  moreover have "Children (ap_tree st) n = Children t n \<and> Parent (ap_tree st) n = Parent t n \<and>
      Key (ap_tree st) n = Key t n" for n
    using w by (auto simp: wrote_def startApply_def same_frame_def dest: fun_cong)
  moreover have "distinct (ap_touched st)"
    "set (ap_touched st) = fst ` set (value_writes compile ff t auth (set_Edits s))"
    using w by (simp_all add: wrote_def startApply_def)
  ultimately show ?thesis unfolding u(2) using u(1) by (simp add: restore_def)
qed

theorem value_set_exact_witness:
  "\<exists>u. SetAs lit (\<lambda>r. []) (request [(edit ''a'')\<lparr>se_NewValue := Some (ValueInteger32 1)\<rparr>,
      (edit ''a'')\<lparr>se_NewValue := Some (ValueInteger32 2)\<rparr>]) None None trio = (u, Ok [1]) \<and>
    Value u 1 = ValueInteger32 2 \<and> Value u 2 = ValueNoValue"
proof -
  let ?s = "request [(edit ''a'')\<lparr>se_NewValue := Some (ValueInteger32 1)\<rparr>,
      (edit ''a'')\<lparr>se_NewValue := Some (ValueInteger32 2)\<rparr>]"
  obtain u r where s: "SetAs lit (\<lambda>r. []) ?s None None trio = (u, r)" by fastforce
  then have r: "r = Ok [1]" by (auto simp: set_run)
  obtain ps where ps: "planned lit (\<lambda>r. []) trio None None ?s ps"
    by (simp add: planned_def request_def plan_run)
  have vals: "\<forall>e \<in> set (set_Edits ?s). \<not> structural e" by (simp add: request_def structural_def edit_def)
  have w: "value_writes lit (\<lambda>r. []) trio None (set_Edits ?s) = [(1, ValueInteger32 1), (1, ValueInteger32 2)]"
    by (simp add: value_writes_def edit_writes_def request_def edit_def FindAllAs_def lit_parse lit_eval trio_nodes)
  from value_set_exact [OF s trio_wf ps vals] s r show ?thesis unfolding w by (auto simp: trio_nodes)
qed

section \<open>Where the conditions are needed\<close>

text \<open>A failed set is not always undone: values are restored in the order they were recorded, so a
  node written by two edits of the request gets the first edit's value, not its own.\<close>

lemma rollback_keeps_first_write:
  "case SetAs lit (\<lambda>r. []) (request
      [(edit ''a'')\<lparr>se_NewValue := Some (ValueInteger32 1)\<rparr>,
       (edit ''a'')\<lparr>se_NewValue := Some (ValueInteger32 2), se_NewFirstChild := Some (PointerAbsolute ''b'')\<rparr>])
      None None trio of
    (u, r) \<Rightarrow> r = Err (InTarget ''a'' (InNewFirstChild (NotAChild ''b''))) \<and>
      Value trio 1 = ValueNoValue \<and> Value u 1 = ValueInteger32 1"
  by (simp add: set_run)

text \<open>Two moves in one request can detach a cycle: each is checked against the tree before the
  request, so moving two staged nodes below each other succeeds and leaves both unreachable, each
  the other's parent.\<close>

lemma two_moves_make_a_cycle:
  "case SetAs lit (\<lambda>r. []) (request
      [(edit ''a'')\<lparr>se_NewParent := Some ''b''\<rparr>, (edit ''b'')\<lparr>se_NewParent := Some ''a''\<rparr>])
      (Some 0) None trio of
    (u, r) \<Rightarrow> r = Ok [1, 2] \<and> Parent u 1 = Some 2 \<and> Parent u 2 = Some 1 \<and> Children u 0 = [3]"
  by (simp add: set_run)

text \<open>Naming an earlier node as the next sibling is accepted, although no relink can mean that, and
  repeats the nodes from there on in the child list.\<close>

lemma earlier_sibling_duplicates:
  "case SetAs lit (\<lambda>r. []) (request [(edit ''b'')\<lparr>se_NewNextSibling := Some (PointerAbsolute ''a'')\<rparr>])
      None None trio of
    (u, r) \<Rightarrow> r = Ok [2] \<and> Children u 0 = [1, 2, 1, 2, 3]"
  by (simp add: set_run)


section \<open>The change broadcast\<close>

text \<open>The states a tree's broadcast goes through: each notification closes the current channel.\<close>

primrec notifications :: "nat \<Rightarrow> Tree \<Rightarrow> Tree" where
  "notifications 0 t = t"
| "notifications (Suc k) t = notifyChanged (notifications k t)"

lemma notifications_state:
  "changeGen (notifications k t) = changeGen t + word_of_nat k" "changeCh (notifications k t) = changeCh t + k"
  by (induction k) (simp_all add: notifyChanged_def)

text \<open>\<open>ChangedSince\<close> misses no change: asked with the generation of an earlier state, the channel
  it returns is ready at once if the tree changed in between, and otherwise becomes ready with the
  first change after, as long as the 64-bit generation has not come round.\<close>

theorem changed_since_misses_nothing:
  assumes "k < 2 ^ 64"
  shows "(let (ch, gen) = ChangedSince (notifications k t) (changeGen t) in
    gen = changeGen (notifications k t) \<and>
    (ready (notifications (k + j) t) ch \<longleftrightarrow> 0 < k \<or> 0 < j))"
proof -
  have "(word_of_nat k :: u64) = 0 \<longleftrightarrow> k = 0"
  proof
    assume "(word_of_nat k :: u64) = 0"
    then have "unat (word_of_nat k :: u64) = 0" by simp
    with assms show "k = 0" by (simp add: unat_of_nat)
  qed simp
  then show ?thesis
    by (auto simp: ChangedSince_def notifications_state simp del: notifications.simps)
qed

theorem changed_since_misses_nothing_witness:
  "ready (notifications 1 NewTree) (fst (ChangedSince (notifications 1 NewTree) (changeGen NewTree))) \<and>
   \<not> ready (notifications 0 NewTree) (fst (ChangedSince (notifications 0 NewTree) (changeGen NewTree)))"
  using changed_since_misses_nothing [of 1 NewTree 0] changed_since_misses_nothing [of 0 NewTree 0]
  by (simp add: split_beta)

end
