(* ===== verification/Aggregate.thy ===== *)
theory Aggregate
  imports Wire_Types "HOL-Library.Multiset"
begin

text \<open>
  Aggregation of samples (\<open>internal/query/aggregate.go\<close> and \<open>AsFloat64\<close> of \<open>internal/wire/types.go\<close>).
  Comparisons of \<open>float64\<close> are modelled on the bit patterns; arithmetic, square root, rounding and
  conversions are the argument \<open>fl\<close>.
\<close>

section \<open>Comparing floats\<close>

text \<open>The order of the finite and infinite values: sign and magnitude.\<close>

definition f64_key :: "f64 \<Rightarrow> int" where
  "f64_key x = (let m = uint (x AND 0x7fffffffffffffff) in if bit x 63 then - m else m)"

definition f64_lt :: "f64 \<Rightarrow> f64 \<Rightarrow> bool" where
  "f64_lt x y \<longleftrightarrow> \<not> f64_is_nan x \<and> \<not> f64_is_nan y \<and> f64_key x < f64_key y"

record float_ops =
  fl_add :: "f64 \<Rightarrow> f64 \<Rightarrow> f64"
  fl_sub :: "f64 \<Rightarrow> f64 \<Rightarrow> f64"
  fl_mul :: "f64 \<Rightarrow> f64 \<Rightarrow> f64"
  fl_div :: "f64 \<Rightarrow> f64 \<Rightarrow> f64"
  fl_sqrt :: "f64 \<Rightarrow> f64"
  fl_of_int :: "int \<Rightarrow> f64"
  fl_floor :: "f64 \<Rightarrow> int"
  fl_ceil :: "f64 \<Rightarrow> int"

fun AsFloat64 :: "float_ops \<Rightarrow> NodeValue \<Rightarrow> ('e, f64) result" where
  "AsFloat64 fl (ValueInteger32 x) = Ok (fl_of_int fl (sint x))"
| "AsFloat64 fl (ValueUnsigned32 x) = Ok (fl_of_int fl (uint x))"
| "AsFloat64 fl (ValueCounter32 x) = Ok (fl_of_int fl (uint x))"
| "AsFloat64 fl (ValueCounter64 x) = Ok (fl_of_int fl (uint x))"
| "AsFloat64 fl (ValueTimeTicks x) = Ok (fl_of_int fl (uint x))"
| "AsFloat64 fl (ValueReal x) = Ok x"
| "AsFloat64 fl _ = Panic"

section \<open>The aggregation functions\<close>

text \<open>\<open>m := v[0]\<close>, then the loop over \<open>v[1:]\<close>; the callers never pass an empty list.\<close>

fun minLoop :: "f64 \<Rightarrow> f64 list \<Rightarrow> f64" where
  "minLoop m [] = m"
| "minLoop m (x # xs) = minLoop (if f64_lt x m then x else m) xs"

fun maxLoop :: "f64 \<Rightarrow> f64 list \<Rightarrow> f64" where
  "maxLoop m [] = m"
| "maxLoop m (x # xs) = maxLoop (if f64_lt m x then x else m) xs"

definition minOf :: "f64 list \<Rightarrow> f64" where "minOf v = minLoop (hd v) (tl v)"
definition maxOf :: "f64 list \<Rightarrow> f64" where "maxOf v = maxLoop (hd v) (tl v)"

definition mean :: "float_ops \<Rightarrow> f64 list \<Rightarrow> f64" where
  "mean fl v = fl_div fl (foldl (fl_add fl) 0 v) (fl_of_int fl (int (length v)))"

definition stdDev :: "float_ops \<Rightarrow> f64 list \<Rightarrow> f64" where
  "stdDev fl v =
     (if length v < 2 then 0
      else
        let m = mean fl v;
            sumSq = foldl (\<lambda>s x. let d = fl_sub fl x m in fl_add fl s (fl_mul fl d d)) 0 v
        in fl_sqrt fl (fl_div fl sumSq (fl_of_int fl (int (length v)))))"

text \<open>\<open>sort.Float64s\<close>: ascending, NaNs first; values that compare equal keep their order here, which
  the library leaves open.\<close>

definition f64_less :: "f64 \<Rightarrow> f64 \<Rightarrow> bool" where
  "f64_less x y \<longleftrightarrow> f64_lt x y \<or> (f64_is_nan x \<and> \<not> f64_is_nan y)"

fun insertFloat :: "f64 \<Rightarrow> f64 list \<Rightarrow> f64 list" where
  "insertFloat x [] = [x]"
| "insertFloat x (y # ys) = (if f64_less y x then y # insertFloat x ys else x # y # ys)"

definition Float64s :: "f64 list \<Rightarrow> f64 list" where
  "Float64s v = foldr insertFloat v []"

text \<open>\<open>sorted[i]\<close>: out of range it panics.\<close>

definition index_at :: "'a list \<Rightarrow> int \<Rightarrow> ('e, 'a) result" where
  "index_at xs i = (if 0 \<le> i \<and> i < int (length xs) then Ok (xs ! nat i) else Panic)"

definition percentile :: "float_ops \<Rightarrow> f64 list \<Rightarrow> f64 \<Rightarrow> ('e, f64) result" where
  "percentile fl v p =
     (let sorted = Float64s v in
      if length sorted = 1 then index_at sorted 0
      else
        let rank = fl_mul fl (fl_div fl p (fl_of_int fl 100)) (fl_of_int fl (int (length sorted) - 1));
            lo = fl_floor fl rank; hi = fl_ceil fl rank
        in if lo = hi then index_at sorted lo
           else
             let frac = fl_sub fl rank (fl_of_int fl lo) in
             rbind (index_at sorted lo) (\<lambda>a. rbind (index_at sorted hi) (\<lambda>b.
             Ok (fl_add fl a (fl_mul fl frac (fl_sub fl b a))))))"

datatype agg_error = NoSamples | NotNumeric

fun asFloats :: "float_ops \<Rightarrow> NodeValue list \<Rightarrow> (agg_error, f64 list) result" where
  "asFloats fl [] = Ok []"
| "asFloats fl (s # ss) =
     (if \<not> IsNumeric s then Err NotNumeric
      else rbind (AsFloat64 fl s) (\<lambda>x. rbind (asFloats fl ss) (\<lambda>xs. Ok (x # xs))))"

definition Aggregate :: "float_ops \<Rightarrow> AggregationMethod \<Rightarrow> NodeValue list \<Rightarrow> (agg_error, NodeValue) result" where
  "Aggregate fl kind samples =
     (if length samples = 0 then Err NoSamples
      else rbind (asFloats fl samples) (\<lambda>values.
        case kind of
          AggMin \<Rightarrow> Ok (ValueReal (minOf values))
        | AggMax \<Rightarrow> Ok (ValueReal (maxOf values))
        | AggMean \<Rightarrow> Ok (ValueReal (mean fl values))
        | AggStdDev \<Rightarrow> Ok (ValueReal (stdDev fl values))
        | AggPercentile p \<Rightarrow>
            rbind (percentile fl values (fl_of_int fl (sint p))) (\<lambda>x. Ok (ValueReal x))))"

section \<open>Facts\<close>

lemma f64_lt_irrefl [simp]: "\<not> f64_lt x x"
  by (simp add: f64_lt_def)

lemma f64_le_trans:
  "\<not> f64_is_nan y \<Longrightarrow> \<not> f64_lt y x \<Longrightarrow> \<not> f64_lt z y \<Longrightarrow> \<not> f64_lt z x"
  by (auto simp: f64_lt_def)

lemma minLoop_least:
  "\<not> f64_is_nan m \<Longrightarrow> minLoop m xs \<in> set (m # xs) \<and> \<not> f64_is_nan (minLoop m xs) \<and>
   \<not> f64_lt m (minLoop m xs) \<and> (\<forall>x \<in> set xs. \<not> f64_lt x (minLoop m xs))"
proof (induction m xs rule: minLoop.induct)
  case (2 m x xs)
  let ?m = "if f64_lt x m then x else m"
  have "\<not> f64_is_nan ?m" using 2(2) by (simp add: f64_lt_def)
  with 2(1) show ?case using 2(2) by (auto simp: f64_lt_def split: if_splits)
qed simp

lemma maxLoop_greatest:
  "\<not> f64_is_nan m \<Longrightarrow> maxLoop m xs \<in> set (m # xs) \<and> \<not> f64_is_nan (maxLoop m xs) \<and>
   \<not> f64_lt (maxLoop m xs) m \<and> (\<forall>x \<in> set xs. \<not> f64_lt (maxLoop m xs) x)"
proof (induction m xs rule: maxLoop.induct)
  case (2 m x xs)
  let ?m = "if f64_lt m x then x else m"
  have "\<not> f64_is_nan ?m" using 2(2) by (simp add: f64_lt_def)
  with 2(1) show ?case using 2(2) by (auto simp: f64_lt_def split: if_splits)
qed simp

lemma minLoop_nan: "f64_is_nan m \<Longrightarrow> minLoop m xs = m"
  by (induction m xs rule: minLoop.induct) (auto simp: f64_lt_def)

lemma maxLoop_nan: "f64_is_nan m \<Longrightarrow> maxLoop m xs = m"
  by (induction m xs rule: maxLoop.induct) (auto simp: f64_lt_def)

lemma mset_insertFloat: "mset (insertFloat x xs) = add_mset x (mset xs)"
  by (induction x xs rule: insertFloat.induct) auto

lemma mset_Float64s: "mset (Float64s v) = mset v"
  by (induction v) (auto simp: Float64s_def mset_insertFloat)

lemma length_Float64s [simp]: "length (Float64s v) = length v"
  by (metis mset_Float64s size_mset)

lemma sorted_insertFloat:
  "sorted_wrt (\<lambda>a b. \<not> f64_less b a) xs \<Longrightarrow> sorted_wrt (\<lambda>a b. \<not> f64_less b a) (insertFloat x xs)"
proof (induction x xs rule: insertFloat.induct)
  case (2 x y ys)
  have set_ins: "set (insertFloat x ys) = insert x (set ys)"
    using mset_insertFloat [of x ys] by (metis set_mset_add_mset_insert set_mset_mset)
  show ?case
  proof (cases "f64_less y x")
    case True
    then have "\<not> f64_less x y" by (auto simp: f64_less_def f64_lt_def)
    with 2 True set_ins show ?thesis by auto
  next
    case False
    have "\<not> f64_less z x" if "z \<in> set ys" for z
      using 2(2) that False by (auto simp: f64_less_def f64_lt_def)
    with 2(2) False show ?thesis by auto
  qed
qed simp

lemma sorted_Float64s: "sorted_wrt (\<lambda>a b. \<not> f64_less b a) (Float64s v)"
  by (induction v) (auto simp: Float64s_def intro: sorted_insertFloat)

lemma asFloats_ok:
  "(\<forall>s \<in> set ss. IsNumeric s) \<Longrightarrow> \<exists>xs. asFloats fl ss = Ok xs \<and> length xs = length ss"
proof (induction ss)
  case (Cons s ss)
  then obtain xs where "asFloats fl ss = Ok xs" "length xs = length ss" by auto
  with Cons.prems show ?case by (cases s) auto
qed simp

lemma asFloats_err: "(\<exists>s \<in> set ss. \<not> IsNumeric s) \<Longrightarrow> asFloats fl ss = Err NotNumeric"
proof (induction ss)
  case (Cons s ss)
  then show ?case by (cases s) auto
qed simp

end
