(* ===== verification/Query_Runner.thy ===== *)
theory Query_Runner
  imports Aggregate "HOL-Library.AList"
begin

text \<open>
  The collection, aggregation and transfer pipeline of one query (\<open>internal/query/query.go\<close>). A Go map
  is an association list with one entry per key; the order in which the code ranges over it is
  the order of the list. The runner's goroutine is a sequence of events.
\<close>

section \<open>Validation\<close>

datatype query_error =
    NegativeTransferInterval
  | IntervalNotPositive
  | TransferIntervalNotPositive
  | AggregationTogether
  | AggregationIntervalNotPositive

definition ValidateQuery :: "QueryReq \<Rightarrow> (query_error, unit) result" where
  "ValidateQuery q =
     (if sint (q_TransferInterval q) < 0 then Err NegativeTransferInterval
      else
        rbind (case q_CollectionMode q of
                 CollectOnce \<Rightarrow> Ok ()
               | CollectInterval n \<Rightarrow>
                   if sint n \<le> 0 then Err IntervalNotPositive
                   else if sint (q_TransferInterval q) \<le> 0 then Err TransferIntervalNotPositive
                   else Ok ()
               | CollectOnChange \<Rightarrow>
                   if sint (q_TransferInterval q) \<le> 0 then Err TransferIntervalNotPositive else Ok ()) (\<lambda>_.
        if (q_AggregationInterval q \<noteq> None) \<noteq> (q_AggregationMethod q \<noteq> None) then Err AggregationTogether
        else case q_AggregationInterval q of
               None \<Rightarrow> Ok ()
             | Some n \<Rightarrow> if sint n \<le> 0 then Err AggregationIntervalNotPositive else Ok ()))"

section \<open>State\<close>

type_synonym results = "(string \<times> NodeValue list) list"

record Sample =
  sp_ID :: string
  sp_Key :: string
  sp_Value :: NodeValue

record Runner =
  rn_query :: QueryReq
  rn_collected :: results
  rn_pending :: results
  rn_lastValues :: "(string \<times> NodeValue) list"

definition NewRunner :: "QueryReq \<Rightarrow> Runner" where
  "NewRunner q = \<lparr>rn_query = q, rn_collected = [], rn_pending = [], rn_lastValues = []\<rparr>"

text \<open>\<open>m[key] = append(m[key], vs...)\<close>\<close>

definition entries :: "results \<Rightarrow> string \<Rightarrow> NodeValue list" where
  "entries m key = (case map_of m key of None \<Rightarrow> [] | Some vs \<Rightarrow> vs)"

definition appendTo :: "string \<Rightarrow> NodeValue list \<Rightarrow> results \<Rightarrow> results" where
  "appendTo key vs m = AList.update key (entries m key @ vs) m"

section \<open>Operations\<close>

text \<open>What the sampler returned is the argument: \<open>None\<close> for an error.\<close>

fun collectLoop :: "Sample list \<Rightarrow> results \<Rightarrow> results" where
  "collectLoop [] m = m"
| "collectLoop (s # ss) m = collectLoop ss (appendTo (sp_Key s) [sp_Value s] m)"

definition collect :: "Sample list option \<Rightarrow> Runner \<Rightarrow> Runner" where
  "collect sampled r =
     (case sampled of None \<Rightarrow> r | Some ss \<Rightarrow> r\<lparr>rn_collected := collectLoop ss (rn_collected r)\<rparr>)"

definition sampleID :: "Sample \<Rightarrow> string" where
  "sampleID s = (if sp_ID s = [] then sp_Key s else sp_ID s)"

fun changesLoop :: "Sample list \<Rightarrow> Runner \<Rightarrow> Runner" where
  "changesLoop [] r = r"
| "changesLoop (s # ss) r =
     (let unchanged = (case map_of (rn_lastValues r) (sampleID s) of
                         None \<Rightarrow> False | Some prev \<Rightarrow> NodeValue_Equal prev (sp_Value s))
      in changesLoop ss
           (if unchanged then r
            else r\<lparr>rn_lastValues := AList.update (sampleID s) (sp_Value s) (rn_lastValues r),
                   rn_collected := appendTo (sp_Key s) [sp_Value s] (rn_collected r)\<rparr>))"

definition collectChanges :: "Sample list option \<Rightarrow> Runner \<Rightarrow> Runner" where
  "collectChanges sampled r = (case sampled of None \<Rightarrow> r | Some ss \<Rightarrow> changesLoop ss r)"

fun aggregateLoop :: "float_ops \<Rightarrow> AggregationMethod \<Rightarrow> results \<Rightarrow> results \<Rightarrow> ('e, results) result" where
  "aggregateLoop fl kind [] pending = Ok pending"
| "aggregateLoop fl kind ((key, samples) # rest) pending =
     (case Aggregate fl kind samples of
        Ok agg \<Rightarrow> aggregateLoop fl kind rest (appendTo key [agg] pending)
      | Err e \<Rightarrow> aggregateLoop fl kind rest pending
      | Panic \<Rightarrow> Panic)"

text \<open>\<open>*r.query.AggregationMethod\<close>: a nil method would be dereferenced once there is a sample.\<close>

definition aggregate :: "float_ops \<Rightarrow> Runner \<Rightarrow> ('e, Runner) result" where
  "aggregate fl r =
     (case q_AggregationMethod (rn_query r) of
        None \<Rightarrow> if rn_collected r = [] then Ok r else Panic
      | Some kind \<Rightarrow>
          rbind (aggregateLoop fl kind (rn_collected r) (rn_pending r)) (\<lambda>pending.
          Ok (r\<lparr>rn_collected := [], rn_pending := pending\<rparr>)))"

fun promoteLoop :: "results \<Rightarrow> results \<Rightarrow> results" where
  "promoteLoop [] pending = pending"
| "promoteLoop ((key, samples) # rest) pending = promoteLoop rest (appendTo key samples pending)"

definition promoteCollectedToPending :: "Runner \<Rightarrow> Runner" where
  "promoteCollectedToPending r =
     r\<lparr>rn_pending := promoteLoop (rn_collected r) (rn_pending r), rn_collected := []\<rparr>"

text \<open>The batch handed to the sink, if any; the sink's error is discarded.\<close>

definition transfer :: "Runner \<Rightarrow> Runner \<times> results option" where
  "transfer r =
     (r\<lparr>rn_pending := []\<rparr>, if length (rn_pending r) = 0 then None else Some (rn_pending r))"

section \<open>The goroutine\<close>

text \<open>\<open>time.NewTicker(time.Duration(n) * time.Second)\<close>: a 64-bit product, which must be positive.\<close>

definition tickerDuration :: "i64 \<Rightarrow> i64" where
  "tickerDuration n = n * 1000000000"

definition NewTicker :: "i64 \<Rightarrow> ('e, i64) result" where
  "NewTicker d = (if sint d \<le> 0 then Panic else Ok d)"

definition startTickers :: "QueryReq \<Rightarrow> ('e, unit) result" where
  "startTickers q =
     rbind (case q_CollectionMode q of
              CollectInterval n \<Rightarrow> rbind (NewTicker (tickerDuration n)) (\<lambda>_. Ok ())
            | _ \<Rightarrow> Ok ()) (\<lambda>_.
     rbind (case q_AggregationInterval q of
              None \<Rightarrow> Ok () | Some n \<Rightarrow> rbind (NewTicker (tickerDuration n)) (\<lambda>_. Ok ())) (\<lambda>_.
     rbind (NewTicker (tickerDuration (q_TransferInterval q))) (\<lambda>_. Ok ())))"

text \<open>The cases of the two select loops: a collection tick or a change, with what was sampled then, an
  aggregation tick, a transfer tick.\<close>

datatype query_event = Collect "Sample list option" | AggTick | TransferTick

definition promoteUnlessAggregated :: "Runner \<Rightarrow> Runner" where
  "promoteUnlessAggregated r =
     (if q_AggregationMethod (rn_query r) = None then promoteCollectedToPending r else r)"

text \<open>A step; an aggregation tick needs a ticker.\<close>

definition runStep :: "float_ops \<Rightarrow> query_event \<Rightarrow> Runner \<Rightarrow> ('e, Runner \<times> results option) result" where
  "runStep fl ev r =
     (case ev of
        Collect sampled \<Rightarrow>
          (let r = (if q_CollectionMode (rn_query r) = CollectOnChange then collectChanges sampled r
                    else collect sampled r)
           in Ok (promoteUnlessAggregated r, None))
      | AggTick \<Rightarrow>
          if q_AggregationInterval (rn_query r) = None then Ok (r, None)
          else rbind (aggregate fl r) (\<lambda>r. Ok (r, None))
      | TransferTick \<Rightarrow> Ok (transfer r))"

fun runSteps :: "float_ops \<Rightarrow> query_event list \<Rightarrow> Runner \<Rightarrow> ('e, Runner \<times> results list) result" where
  "runSteps fl [] r = Ok (r, [])"
| "runSteps fl (ev # evs) r =
     rbind (runStep fl ev r) (\<lambda>(r, out). rbind (runSteps fl evs r) (\<lambda>(r, outs).
     Ok (r, (case out of None \<Rightarrow> outs | Some b \<Rightarrow> b # outs))))"

text \<open>\<open>Start\<close>: a once query runs the pipeline here; an onChange query begins with its baseline.\<close>

definition runOnce :: "float_ops \<Rightarrow> Sample list option \<Rightarrow> Runner \<Rightarrow> ('e, Runner \<times> results option) result" where
  "runOnce fl sampled r =
     (let r = collect sampled r in
      rbind (if q_AggregationMethod (rn_query r) \<noteq> None then aggregate fl r
             else Ok (promoteCollectedToPending r)) (\<lambda>r. Ok (transfer r)))"

definition onChangeBaseline :: "Sample list option \<Rightarrow> Runner \<Rightarrow> Runner \<times> results option" where
  "onChangeBaseline sampled r = transfer (promoteUnlessAggregated (collectChanges sampled r))"

end
