(* ===== verification/Query_Props.thy ===== *)
theory Query_Props
  imports Query_Runner
begin

text \<open>
  What the pipeline of a query accumulates and delivers, per key.
\<close>

section \<open>Maps of lists\<close>

definition one_entry :: "results \<Rightarrow> bool" where
  "one_entry m \<longleftrightarrow> distinct (map fst m)"

lemma entries_appendTo: "entries (appendTo k vs m) j = (if j = k then entries m k @ vs else entries m j)"
  by (simp add: appendTo_def entries_def update_conv')

lemma one_entry_appendTo [simp]: "one_entry m \<Longrightarrow> one_entry (appendTo k vs m)"
  by (simp add: appendTo_def one_entry_def distinct_update)

lemma entries_Nil [simp]: "entries [] k = []"
  by (simp add: entries_def)

lemma entries_Cons: "entries ((k, vs) # m) j = (if j = k then vs else entries m j)"
  by (simp add: entries_def)

lemma entries_absent: "k \<notin> fst ` set m \<Longrightarrow> entries m k = []"
  by (simp add: entries_def map_of_eq_None_iff [THEN iffD2])

lemma one_entry_Nil [simp]: "one_entry []"
  by (simp add: one_entry_def)

definition values_of :: "string \<Rightarrow> Sample list \<Rightarrow> NodeValue list" where
  "values_of k ss = map sp_Value (filter (\<lambda>s. sp_Key s = k) ss)"

lemma values_of_simps [simp]:
  "values_of k [] = []"
  "values_of k (s # ss) = (if sp_Key s = k then [sp_Value s] else []) @ values_of k ss"
  "values_of k (ss @ ts) = values_of k ss @ values_of k ts"
  by (simp_all add: values_of_def)

lemma collectLoop_entries:
  "entries (collectLoop ss m) k = entries m k @ values_of k ss"
  "one_entry m \<Longrightarrow> one_entry (collectLoop ss m)"
  by (induction ss m rule: collectLoop.induct) (auto simp: entries_appendTo)

lemma promoteLoop_entries:
  "one_entry m \<Longrightarrow> entries (promoteLoop m p) k = entries p k @ entries m k"
proof (induction m p rule: promoteLoop.induct)
  case (2 key samples rest p)
  then have "one_entry rest" "entries rest key = []"
    by (auto simp: one_entry_def intro: entries_absent)
  with 2 show ?case by (auto simp: entries_appendTo entries_Cons)
qed simp

lemma promoteLoop_one: "one_entry p \<Longrightarrow> one_entry (promoteLoop m p)"
  by (induction m p rule: promoteLoop.induct) auto

section \<open>Queries without aggregation\<close>

text \<open>What a runner without aggregation holds and has delivered for a key.\<close>

definition plain :: "Runner \<Rightarrow> bool" where
  "plain r \<longleftrightarrow> q_AggregationMethod (rn_query r) = None \<and> q_AggregationInterval (rn_query r) = None \<and>
     rn_collected r = [] \<and> one_entry (rn_pending r)"

definition event_samples :: "query_event \<Rightarrow> Sample list" where
  "event_samples ev = (case ev of Collect (Some ss) \<Rightarrow> ss | _ \<Rightarrow> [])"

definition delivered_values :: "string \<Rightarrow> results list \<Rightarrow> NodeValue list" where
  "delivered_values k outs = concat (map (\<lambda>b. entries b k) outs)"

lemma collect_simps:
  "rn_query (collect sampled r) = rn_query r" "rn_pending (collect sampled r) = rn_pending r"
  "entries (rn_collected (collect sampled r)) k =
     entries (rn_collected r) k @ values_of k (event_samples (Collect sampled))"
  "one_entry (rn_collected r) \<Longrightarrow> one_entry (rn_collected (collect sampled r))"
  by (auto simp: collect_def event_samples_def collectLoop_entries split: option.splits)

lemma plain_promote:
  assumes "q_AggregationMethod (rn_query r) = None" "q_AggregationInterval (rn_query r) = None"
    and "one_entry (rn_collected r)" "one_entry (rn_pending r)"
  shows "plain (promoteUnlessAggregated r)" "rn_query (promoteUnlessAggregated r) = rn_query r"
    and "entries (rn_pending (promoteUnlessAggregated r)) k = entries (rn_pending r) k @ entries (rn_collected r) k"
    and "rn_lastValues (promoteUnlessAggregated r) = rn_lastValues r"
  using assms by (simp_all add: plain_def promoteUnlessAggregated_def promoteCollectedToPending_def
      promoteLoop_entries promoteLoop_one)

lemma transfer_delivers:
  assumes "transfer r = (r', out)"
  shows "rn_pending r' = []" "rn_collected r' = rn_collected r" "rn_query r' = rn_query r"
    and "delivered_values k (case out of None \<Rightarrow> [] | Some b \<Rightarrow> [b]) = entries (rn_pending r) k"
    and "rn_lastValues r' = rn_lastValues r"
  using assms by (auto simp: transfer_def delivered_values_def split: if_splits)

lemma plain_step:
  assumes "plain r" "q_CollectionMode (rn_query r) \<noteq> CollectOnChange"
  shows "\<exists>r' out. runStep fl ev r = Ok (r', out) \<and> plain r' \<and> rn_query r' = rn_query r \<and>
    (\<forall>k. delivered_values k (case out of None \<Rightarrow> [] | Some b \<Rightarrow> [b]) @ entries (rn_pending r') k =
       entries (rn_pending r) k @ values_of k (event_samples ev))"
proof (cases ev)
  case (Collect sampled)
  let ?c = "collect sampled r"
  have c: "q_AggregationMethod (rn_query ?c) = None" "q_AggregationInterval (rn_query ?c) = None"
    "one_entry (rn_collected ?c)" "one_entry (rn_pending ?c)"
    using assms(1) by (simp_all add: plain_def collect_simps)
  have "runStep fl ev r = Ok (promoteUnlessAggregated ?c, None)"
    using Collect assms(2) by (simp add: runStep_def)
  moreover have "entries (rn_pending (promoteUnlessAggregated ?c)) k =
      entries (rn_pending r) k @ values_of k (event_samples ev)" for k
    using assms(1) Collect by (simp add: plain_promote(3) [OF c] collect_simps plain_def)
  ultimately show ?thesis
    using plain_promote(1,2) [OF c] collect_simps(1)
    by (intro exI [of _ "promoteUnlessAggregated ?c"] exI [of _ None]) (simp add: delivered_values_def)
next
  case AggTick
  with assms(1) show ?thesis by (simp add: runStep_def plain_def event_samples_def delivered_values_def)
next
  case TransferTick
  obtain r' out where t: "transfer r = (r', out)" by fastforce
  with assms(1) TransferTick transfer_delivers [OF t] show ?thesis
    by (simp add: runStep_def plain_def event_samples_def)
qed

lemma delivered_append:
  "delivered_values k (xs @ ys) = delivered_values k xs @ delivered_values k ys"
  by (simp add: delivered_values_def)

lemma plain_steps:
  "plain r \<Longrightarrow> q_CollectionMode (rn_query r) \<noteq> CollectOnChange \<Longrightarrow>
   \<exists>r' outs. runSteps fl evs r = (Ok (r', outs) :: ('e, Runner \<times> results list) result) \<and> plain r' \<and>
     (\<forall>k. delivered_values k outs @ entries (rn_pending r') k =
        entries (rn_pending r) k @ values_of k (concat (map event_samples evs)))"
proof (induction evs arbitrary: r)
  case (Cons ev evs)
  obtain r1 out where s: "runStep fl ev r = (Ok (r1, out) :: ('e, Runner \<times> results option) result)" "plain r1" "rn_query r1 = rn_query r"
    and d: "\<And>k. delivered_values k (case out of None \<Rightarrow> [] | Some b \<Rightarrow> [b]) @ entries (rn_pending r1) k =
       entries (rn_pending r) k @ values_of k (event_samples ev)"
    using plain_step [OF Cons.prems, of fl ev] by blast
  have "q_CollectionMode (rn_query r1) \<noteq> CollectOnChange" using Cons.prems(2) s(3) by simp
  then obtain r' outs where r': "runSteps fl evs r1 = (Ok (r', outs) :: ('e, Runner \<times> results list) result)" "plain r'"
    and e: "\<And>k. delivered_values k outs @ entries (rn_pending r') k =
        entries (rn_pending r1) k @ values_of k (concat (map event_samples evs))"
    using Cons.IH [OF s(2)] by blast
  let ?outs = "(case out of None \<Rightarrow> [] | Some b \<Rightarrow> [b]) @ outs"
  have "delivered_values k ?outs @ entries (rn_pending r') k =
      entries (rn_pending r) k @ values_of k (concat (map event_samples (ev # evs)))" for k
    using d [of k] e [of k] by (simp add: delivered_append)
  moreover have "runSteps fl (ev # evs) r = (Ok (r', ?outs) :: ('e, Runner \<times> results list) result)" using s r' by (simp split: option.split)
  ultimately show ?case using r'(2) by blast
qed (simp add: delivered_values_def)

section \<open>Changes only\<close>

text \<open>The specification of onChange: a sample is reported unless its value equals the last one reported
  for its node.\<close>

definition lastReported :: "Sample list \<Rightarrow> string \<Rightarrow> NodeValue option" where
  "lastReported ss i = map_of (rev (map (\<lambda>s. (sampleID s, sp_Value s)) ss)) i"

fun reportedAfter :: "Sample list \<Rightarrow> Sample list \<Rightarrow> Sample list" where
  "reportedAfter earlier [] = earlier"
| "reportedAfter earlier (s # ss) =
     (case lastReported earlier (sampleID s) of
        None \<Rightarrow> reportedAfter (earlier @ [s]) ss
      | Some prev \<Rightarrow>
          if NodeValue_Equal prev (sp_Value s) then reportedAfter earlier ss
          else reportedAfter (earlier @ [s]) ss)"

lemma lastReported_snoc:
  "lastReported (ss @ [s]) = (lastReported ss)(sampleID s \<mapsto> sp_Value s)"
  by (rule ext) (simp add: lastReported_def)

lemma reportedAfter_append: "reportedAfter earlier (ss @ ts) = reportedAfter (reportedAfter earlier ss) ts"
  by (induction earlier ss rule: reportedAfter.induct) (auto split: option.split)

definition tracks :: "Sample list \<Rightarrow> Runner \<Rightarrow> bool" where
  "tracks earlier r \<longleftrightarrow> map_of (rn_lastValues r) = lastReported earlier"

lemma changesLoop_tracks:
  "tracks earlier r \<Longrightarrow> one_entry (rn_collected r) \<Longrightarrow>
   \<exists>new. reportedAfter earlier ss = earlier @ new \<and> tracks (earlier @ new) (changesLoop ss r) \<and>
     one_entry (rn_collected (changesLoop ss r)) \<and> rn_query (changesLoop ss r) = rn_query r \<and>
     rn_pending (changesLoop ss r) = rn_pending r \<and>
     (\<forall>k. entries (rn_collected (changesLoop ss r)) k = entries (rn_collected r) k @ values_of k new)"
proof (induction ss arbitrary: earlier r)
  case (Cons s ss)
  define r1 where "r1 = r\<lparr>rn_lastValues := AList.update (sampleID s) (sp_Value s) (rn_lastValues r),
      rn_collected := appendTo (sp_Key s) [sp_Value s] (rn_collected r)\<rparr>"
  define same where "same = (case lastReported earlier (sampleID s) of
      None \<Rightarrow> False | Some prev \<Rightarrow> NodeValue_Equal prev (sp_Value s))"
  have step: "changesLoop (s # ss) r = changesLoop ss (if same then r else r1)"
    using Cons.prems(1) by (simp add: same_def r1_def tracks_def Let_def)
  have rep: "reportedAfter earlier (s # ss) = reportedAfter (if same then earlier else earlier @ [s]) ss"
    by (auto simp: same_def split: option.split)
  show ?case
  proof (cases same)
    case True
    with Cons.IH [OF Cons.prems] step rep show ?thesis by simp
  next
    case False
    have "tracks (earlier @ [s]) r1" "one_entry (rn_collected r1)"
      using Cons.prems by (simp_all add: tracks_def r1_def lastReported_snoc update_conv')
    from Cons.IH [OF this] obtain new where new: "reportedAfter (earlier @ [s]) ss = earlier @ [s] @ new"
      "tracks (earlier @ [s] @ new) (changesLoop ss r1)" "one_entry (rn_collected (changesLoop ss r1))"
      "rn_query (changesLoop ss r1) = rn_query r1" "rn_pending (changesLoop ss r1) = rn_pending r1"
      "\<forall>k. entries (rn_collected (changesLoop ss r1)) k = entries (rn_collected r1) k @ values_of k new"
      by auto
    then show ?thesis
      using False step rep
      by (intro exI [of _ "s # new"]) (auto simp: r1_def entries_appendTo)
  qed
qed simp

lemma changesLoop_query: "rn_query (changesLoop ss r) = rn_query r"
  by (induction ss r rule: changesLoop.induct) (auto simp: Let_def)

lemma collectChanges_query [simp]: "rn_query (collectChanges sampled r) = rn_query r"
  by (simp add: collectChanges_def changesLoop_query split: option.split)

text \<open>An onChange query without aggregation: what it holds and has delivered are the reported samples.\<close>

lemma collectChanges_step:
  assumes "plain r" "tracks earlier r"
  shows "\<exists>new. reportedAfter earlier (event_samples (Collect sampled)) = earlier @ new \<and>
    tracks (earlier @ new) (promoteUnlessAggregated (collectChanges sampled r)) \<and> plain (promoteUnlessAggregated (collectChanges sampled r)) \<and> rn_query (promoteUnlessAggregated (collectChanges sampled r)) = rn_query r \<and>
    (\<forall>k. entries (rn_pending (promoteUnlessAggregated (collectChanges sampled r))) k = entries (rn_pending r) k @ values_of k new)"
proof (cases sampled)
  case None
  have c: "q_AggregationMethod (rn_query r) = None" "q_AggregationInterval (rn_query r) = None"
    "one_entry (rn_collected r)" "one_entry (rn_pending r)"
    using assms(1) by (simp_all add: plain_def)
  with None assms(1,2) plain_promote [OF c] show ?thesis
    by (simp add: collectChanges_def event_samples_def tracks_def plain_def)
next
  case (Some ss)
  let ?c = "changesLoop ss r"
  have "one_entry (rn_collected r)" using assms(1) by (simp add: plain_def)
  from changesLoop_tracks [OF assms(2) this, of ss] obtain new where
    new: "reportedAfter earlier ss = earlier @ new" "tracks (earlier @ new) ?c"
    "one_entry (rn_collected ?c)" "rn_query ?c = rn_query r" "rn_pending ?c = rn_pending r"
    "\<forall>k. entries (rn_collected ?c) k = entries (rn_collected r) k @ values_of k new" by blast
  have c: "q_AggregationMethod (rn_query ?c) = None" "q_AggregationInterval (rn_query ?c) = None"
    "one_entry (rn_collected ?c)" "one_entry (rn_pending ?c)"
    using assms(1) new by (simp_all add: plain_def)
  from plain_promote [OF c] new Some assms(1) show ?thesis
    by (intro exI [of _ new]) (simp add: collectChanges_def event_samples_def tracks_def plain_def)
qed

lemma change_steps:
  "plain r \<Longrightarrow> tracks earlier r \<Longrightarrow> q_CollectionMode (rn_query r) = CollectOnChange \<Longrightarrow>
   \<exists>r' outs new. runSteps fl evs r = (Ok (r', outs) :: ('e, Runner \<times> results list) result) \<and>
     reportedAfter earlier (concat (map event_samples evs)) = earlier @ new \<and>
     (\<forall>k. delivered_values k outs @ entries (rn_pending r') k = entries (rn_pending r) k @ values_of k new)"
proof (induction evs arbitrary: r earlier)
  case Nil
  then show ?case by (simp add: delivered_values_def)
next
  case (Cons ev evs)
  obtain r1 out new where s: "runStep fl ev r = (Ok (r1, out) :: ('e, Runner \<times> results option) result)"
    "plain r1" "tracks (earlier @ new) r1" "rn_query r1 = rn_query r"
    "reportedAfter earlier (event_samples ev) = earlier @ new"
    and d: "\<And>k. delivered_values k (case out of None \<Rightarrow> [] | Some b \<Rightarrow> [b]) @ entries (rn_pending r1) k =
       entries (rn_pending r) k @ values_of k new"
  proof (cases ev)
    case (Collect sampled)
    from collectChanges_step [OF Cons.prems(1,2), of sampled] obtain new where
      "reportedAfter earlier (event_samples ev) = earlier @ new"
      "tracks (earlier @ new) (promoteUnlessAggregated (collectChanges sampled r))"
      "plain (promoteUnlessAggregated (collectChanges sampled r))"
      "rn_query (promoteUnlessAggregated (collectChanges sampled r)) = rn_query r"
      "\<forall>k. entries (rn_pending (promoteUnlessAggregated (collectChanges sampled r))) k =
         entries (rn_pending r) k @ values_of k new" unfolding Collect by blast
    with Collect Cons.prems(3) show thesis
      by (intro that [of "promoteUnlessAggregated (collectChanges sampled r)" None new])
        (simp_all add: runStep_def delivered_values_def)
  next
    case AggTick
    with Cons.prems show thesis
      by (intro that [of r None "[]"]) (simp_all add: runStep_def plain_def event_samples_def delivered_values_def)
  next
    case TransferTick
    obtain r' out where t: "transfer r = (r', out)" by fastforce
    with Cons.prems TransferTick transfer_delivers [OF t] show thesis
      by (intro that [of r' out "[]"]) (simp_all add: runStep_def plain_def event_samples_def tracks_def)
  qed
  have "q_CollectionMode (rn_query r1) = CollectOnChange" using Cons.prems(3) s(4) by simp
  from Cons.IH [OF s(2,3) this] obtain r' outs more where
    r': "runSteps fl evs r1 = (Ok (r', outs) :: ('e, Runner \<times> results list) result)"
    "reportedAfter (earlier @ new) (concat (map event_samples evs)) = (earlier @ new) @ more"
    and e: "\<And>k. delivered_values k outs @ entries (rn_pending r') k = entries (rn_pending r1) k @ values_of k more"
    by blast
  let ?outs = "(case out of None \<Rightarrow> [] | Some b \<Rightarrow> [b]) @ outs"
  have "delivered_values k ?outs @ entries (rn_pending r') k = entries (rn_pending r) k @ values_of k (new @ more)" for k
    using d [of k] e [of k] by (simp add: delivered_append)
  moreover have "runSteps fl (ev # evs) r = (Ok (r', ?outs) :: ('e, Runner \<times> results list) result)"
    using s(1) r'(1) by (simp split: option.split)
  moreover have "reportedAfter earlier (concat (map event_samples (ev # evs))) = earlier @ (new @ more)"
    using s(5) r'(2) by (simp add: reportedAfter_append)
  ultimately show ?case by blast
qed

text \<open>What the specification reports: no node's value is reported twice in a row.\<close>

definition no_repeat :: "Sample list \<Rightarrow> bool" where
  "no_repeat ss \<longleftrightarrow> (\<forall>as s bs. ss = as @ s # bs \<longrightarrow>
     (case lastReported as (sampleID s) of None \<Rightarrow> True | Some prev \<Rightarrow> \<not> NodeValue_Equal prev (sp_Value s)))"

lemma no_repeat_snoc:
  assumes "no_repeat ss"
    and "case lastReported ss (sampleID s) of None \<Rightarrow> True | Some prev \<Rightarrow> \<not> NodeValue_Equal prev (sp_Value s)"
  shows "no_repeat (ss @ [s])"
  unfolding no_repeat_def
proof (intro allI impI)
  fix as x bs
  assume eq: "ss @ [s] = as @ x # bs"
  show "case lastReported as (sampleID x) of None \<Rightarrow> True | Some prev \<Rightarrow> \<not> NodeValue_Equal prev (sp_Value x)"
  proof (cases bs rule: rev_cases)
    case Nil
    with eq have x: "as = ss" "x = s" by simp_all
    show ?thesis unfolding x by (rule assms(2))
  next
    case (snoc cs y)
    with eq have "ss = as @ x # cs" by simp
    with assms(1) show ?thesis unfolding no_repeat_def by blast
  qed
qed

lemma reportedAfter_no_repeat: "no_repeat earlier \<Longrightarrow> no_repeat (reportedAfter earlier ss)"
proof (induction earlier ss rule: reportedAfter.induct)
  case (2 earlier s ss)
  then show ?case
    using no_repeat_snoc [OF 2(4), of s] by (simp split: option.split)
qed simp

end
