(* ===== verification/Query_Properties.thy ===== *)
theory Query_Properties
  imports Query_Props Node_Store Codec_Node
begin

text \<open>
  What a query delivers: every sample once and in order, changes only, correct aggregates; and the
  requests that make the pipeline panic.
\<close>

section \<open>Delivery\<close>

text \<open>A query without aggregation delivers every sampled value exactly once, in the order sampled,
  per key: what the sink was given and what is still pending add up to all samples, whatever the
  order of collection and transfer ticks. No step fails.\<close>

lemma samples_once:
  assumes "q_AggregationMethod q = None" "q_AggregationInterval q = None"
    and "q_CollectionMode q \<noteq> CollectOnChange"
  shows "\<exists>r outs. runSteps fl evs (NewRunner q) = (Ok (r, outs) :: (agg_error, Runner \<times> results list) result) \<and>
    (\<forall>k. delivered_values k outs @ entries (rn_pending r) k = values_of k (concat (map event_samples evs)))"
proof -
  have "plain (NewRunner q)" using assms by (simp add: plain_def NewRunner_def)
  from plain_steps [OF this, of fl evs] assms(3) show ?thesis by (auto simp: NewRunner_def)
qed

text \<open>An onChange query delivers exactly the changes: the samples that differ from the value last
  reported for their node, each once and in order; so no node's value is reported twice in a row.\<close>

lemma changes_once:
  assumes "q_AggregationMethod q = None" "q_AggregationInterval q = None"
    and "q_CollectionMode q = CollectOnChange"
  shows "\<exists>r outs. runSteps fl evs (NewRunner q) = (Ok (r, outs) :: (agg_error, Runner \<times> results list) result) \<and>
    no_repeat (reportedAfter [] (concat (map event_samples evs))) \<and>
    (\<forall>k. delivered_values k outs @ entries (rn_pending r) k =
       values_of k (reportedAfter [] (concat (map event_samples evs))))"
proof -
  have "plain (NewRunner q)" "tracks [] (NewRunner q)"
    using assms by (simp_all add: plain_def NewRunner_def tracks_def lastReported_def fun_eq_iff)
  from change_steps [OF this, of fl evs] assms(3)
  have "\<exists>r outs. runSteps fl evs (NewRunner q) = (Ok (r, outs) :: (agg_error, Runner \<times> results list) result) \<and>
    (\<forall>k. delivered_values k outs @ entries (rn_pending r) k =
       values_of k (reportedAfter [] (concat (map event_samples evs))))"
    by (auto simp: NewRunner_def)
  moreover have "no_repeat (reportedAfter [] (concat (map event_samples evs)))"
    by (rule reportedAfter_no_repeat) (simp add: no_repeat_def)
  ultimately show ?thesis by blast
qed

text \<open>C33. A query without aggregation delivers every sampled value exactly once, in the order sampled, per key:
  what the sink was given and what is still pending add up, whatever the order of collection and transfer
  ticks, to all samples or, for an onChange query, to the changes: the samples that differ from the value last
  reported for their node, so no value of a node is reported twice in a row. No step fails.\<close>

theorem samples_delivered_once:
  fixes q evs
  defines "sampled \<equiv> concat (map event_samples evs)"
  assumes "q_AggregationMethod q = None" "q_AggregationInterval q = None"
  shows "\<exists>r outs. runSteps fl evs (NewRunner q) = (Ok (r, outs) :: (agg_error, Runner \<times> results list) result) \<and>
    (\<forall>k. delivered_values k outs @ entries (rn_pending r) k = values_of k
       (if q_CollectionMode q = CollectOnChange then reportedAfter [] sampled else sampled)) \<and>
    no_repeat (reportedAfter [] sampled)"
proof -
  have "no_repeat (reportedAfter [] sampled)"
    by (rule reportedAfter_no_repeat) (simp add: no_repeat_def)
  then show ?thesis
    using samples_once [of q fl evs] changes_once [of q fl evs] assms(2,3) unfolding sampled_def
    by (cases "q_CollectionMode q = CollectOnChange") auto
qed

section \<open>Aggregation\<close>


lemma decoded_percentile:
  "decodeAggregationMethod data = Ok (AggPercentile p) \<Longrightarrow> 0 \<le> sint p \<and> sint p \<le> 100"
  by (auto simp: decodeAggregationMethod_def rbind_Ok_iff split: if_splits result.splits)

text \<open>The range of a percentile is checked when a query is decoded and nowhere else: a decoded
  percentile lies between 0 and 100, validation accepts every value, and the aggregate of two or more
  numeric samples panics exactly when the rank computed from the percentile rounds to a place outside
  the sorted samples (as it does beyond 100), where otherwise it returns.\<close>

theorem percentile_panics_iff:
  fixes fl :: float_ops
  assumes rounding: "\<And>x. fl_floor fl x \<le> fl_ceil fl x" and samples: "2 \<le> length ss" "\<forall>s \<in> set ss. IsNumeric s"
  shows "ValidateQuery (q\<lparr>q_AggregationMethod := Some (AggPercentile p)\<rparr>) =
      ValidateQuery (q\<lparr>q_AggregationMethod := Some (AggPercentile 50)\<rparr>) \<and>
    (decodeAggregationMethod data = Ok (AggPercentile p) \<longrightarrow> 0 \<le> sint p \<and> sint p \<le> 100) \<and>
    (let rank = fl_mul fl (fl_div fl (fl_of_int fl (sint p)) (fl_of_int fl 100))
        (fl_of_int fl (int (length ss) - 1))
     in Aggregate fl (AggPercentile p) ss = Panic \<longleftrightarrow> fl_floor fl rank < 0 \<or> int (length ss) \<le> fl_ceil fl rank)"
proof (intro conjI impI)
  show "ValidateQuery (q\<lparr>q_AggregationMethod := Some (AggPercentile p)\<rparr>) =
      ValidateQuery (q\<lparr>q_AggregationMethod := Some (AggPercentile 50)\<rparr>)"
    by (simp add: ValidateQuery_def)
  show "0 \<le> sint p" "sint p \<le> 100" if "decodeAggregationMethod data = Ok (AggPercentile p)"
    using decoded_percentile [OF that] by simp_all
  obtain xs where xs: "asFloats fl ss = Ok xs" "length xs = length ss" using asFloats_ok [OF samples(2)] by blast
  define rank where "rank = fl_mul fl (fl_div fl (fl_of_int fl (sint p)) (fl_of_int fl 100))
        (fl_of_int fl (int (length ss) - 1))"
  have ne: "ss \<noteq> []" using samples(1) by auto
  have p: "Aggregate fl (AggPercentile p) ss = Panic \<longleftrightarrow>
      (percentile fl xs (fl_of_int fl (sint p)) :: (agg_error, f64) result) = Panic"
    using ne xs by (simp add: Aggregate_def rbind_Panic_iff)
  have "(percentile fl xs (fl_of_int fl (sint p)) :: (agg_error, f64) result) = Panic \<longleftrightarrow>
      fl_floor fl rank < 0 \<or> int (length ss) \<le> fl_ceil fl rank"
    using samples(1) xs(2) rounding [of rank]
    by (auto simp: percentile_def Let_def rank_def [symmetric] index_at_def)
  with p show "let rank = fl_mul fl (fl_div fl (fl_of_int fl (sint p)) (fl_of_int fl 100))
        (fl_of_int fl (int (length ss) - 1))
     in Aggregate fl (AggPercentile p) ss = Panic \<longleftrightarrow> fl_floor fl rank < 0 \<or> int (length ss) \<le> fl_ceil fl rank"
    by (simp add: rank_def Let_def)
qed

text \<open>Whole-number arithmetic, enough to compute the rank of the 200th percentile of two samples.\<close>

definition whole :: float_ops where
  "whole = \<lparr>fl_add = (+), fl_sub = (-), fl_mul = (*), fl_div = (\<lambda>x y. word_of_int (sint x div sint y)),
     fl_sqrt = (\<lambda>x. x), fl_of_int = word_of_int, fl_floor = sint, fl_ceil = sint\<rparr>"

theorem percentile_panics_iff_witness:
  "Aggregate whole (AggPercentile 200) [ValueInteger32 1, ValueInteger32 2] = Panic \<and>
   Aggregate whole (AggPercentile 100) [ValueInteger32 1, ValueInteger32 2] \<noteq> Panic"
  using percentile_panics_iff [of whole "[ValueInteger32 1, ValueInteger32 2]", where p = 200]
    percentile_panics_iff [of whole "[ValueInteger32 1, ValueInteger32 2]", where p = 100]
  by (simp add: whole_def)

section \<open>Starting a query\<close>

text \<open>An interval whose nanoseconds do not fit 64 bits.\<close>

definition too_long :: "QueryReq \<Rightarrow> bool" where
  "too_long q \<longleftrightarrow> 9223372036 < sint (q_TransferInterval q) \<or>
     (\<exists>n. q_CollectionMode q = CollectInterval n \<and> 9223372036 < sint n) \<or>
     (\<exists>n. q_AggregationInterval q = Some n \<and> 9223372036 < sint n)"

lemma tickers_start:
  assumes "ValidateQuery q = Ok ()" "q_CollectionMode q \<noteq> CollectOnce" "\<not> too_long q"
  shows "startTickers q = Ok ()"
proof -
  have tick: "NewTicker (tickerDuration n) = Ok (tickerDuration n)" if "0 < sint n" "sint n \<le> 9223372036" for n
  proof -
    have "tickerDuration n = of_int (sint n * 1000000000)" by (simp add: tickerDuration_def)
    then have "sint (tickerDuration n) = sint n * 1000000000"
      using that sint_of_int_i64 [of "sint n * 1000000000"] by simp
    then show ?thesis using that by (simp add: NewTicker_def)
  qed
  have "0 < sint (q_TransferInterval q)" "\<And>n. q_CollectionMode q = CollectInterval n \<Longrightarrow> 0 < sint n"
    "\<And>n. q_AggregationInterval q = Some n \<Longrightarrow> 0 < sint n"
    using assms(1,2) by (auto simp: ValidateQuery_def rbind_Ok_iff split: if_splits CollectionMode.splits option.splits)
  with assms(3) show ?thesis
    by (auto simp: startTickers_def too_long_def not_less tick split: CollectionMode.split option.split)
qed

text \<open>C36. A validated recurring query starts its tickers as long as its intervals are at most 9223372036
  seconds; beyond, the conversion to nanoseconds wraps, and a query that validation accepts makes
  \<open>NewTicker\<close> panic.\<close>

theorem validated_query_starts:
  assumes "ValidateQuery q = Ok ()" "q_CollectionMode q \<noteq> CollectOnce"
    and "sint (q_TransferInterval q) \<le> 9223372036"
    and "\<And>n. q_CollectionMode q = CollectInterval n \<Longrightarrow> sint n \<le> 9223372036"
    and "\<And>n. q_AggregationInterval q = Some n \<Longrightarrow> sint n \<le> 9223372036"
  shows "startTickers q = (Ok () :: (query_error, unit) result) \<and>
    (let big = \<lparr>q_SequenceNumber = 1, q_NodeExpression = ''x'', q_CollectionMode = CollectInterval 10000000000,
        q_AggregationInterval = None, q_AggregationMethod = None, q_TransferInterval = 1\<rparr>
     in ValidateQuery big = Ok () \<and> startTickers big = (Panic :: (query_error, unit) result))"
proof
  show "startTickers q = (Ok () :: (query_error, unit) result)"
    using assms by (intro tickers_start) (auto simp: too_long_def not_less)
  show "let big = \<lparr>q_SequenceNumber = 1, q_NodeExpression = ''x'', q_CollectionMode = CollectInterval 10000000000,
        q_AggregationInterval = None, q_AggregationMethod = None, q_TransferInterval = 1\<rparr>
     in ValidateQuery big = Ok () \<and> startTickers big = (Panic :: (query_error, unit) result)"
    by (simp add: ValidateQuery_def startTickers_def NewTicker_def tickerDuration_def)
qed

theorem validated_query_starts_witness:
  "startTickers \<lparr>q_SequenceNumber = 1, q_NodeExpression = ''x'', q_CollectionMode = CollectInterval 5,
     q_AggregationInterval = None, q_AggregationMethod = None, q_TransferInterval = 9223372036\<rparr> =
   (Ok () :: (query_error, unit) result)"
  using validated_query_starts [of "\<lparr>q_SequenceNumber = 1, q_NodeExpression = ''x'',
      q_CollectionMode = CollectInterval 5, q_AggregationInterval = None, q_AggregationMethod = None,
      q_TransferInterval = 9223372036\<rparr>"]
  by (simp add: ValidateQuery_def)

text \<open>The same two samples of one node: delivered twice by an interval query, once by an onChange query.\<close>

definition once_query :: "CollectionMode \<Rightarrow> QueryReq" where
  "once_query mode = \<lparr>q_SequenceNumber = 1, q_NodeExpression = ''x'', q_CollectionMode = mode,
     q_AggregationInterval = None, q_AggregationMethod = None, q_TransferInterval = 1\<rparr>"

definition twice :: "query_event list" where
  "twice = [Collect (Some [\<lparr>sp_ID = ''1'', sp_Key = ''k'', sp_Value = ValueInteger32 7\<rparr>,
     \<lparr>sp_ID = ''1'', sp_Key = ''k'', sp_Value = ValueInteger32 7\<rparr>]), TransferTick]"

theorem samples_delivered_once_witness:
  "(\<exists>r outs. runSteps whole twice (NewRunner (once_query (CollectInterval 5))) =
      (Ok (r, outs) :: (agg_error, Runner \<times> results list) result) \<and>
      delivered_values ''k'' outs @ entries (rn_pending r) ''k'' = [ValueInteger32 7, ValueInteger32 7]) \<and>
   (\<exists>r outs. runSteps whole twice (NewRunner (once_query CollectOnChange)) =
      (Ok (r, outs) :: (agg_error, Runner \<times> results list) result) \<and>
      delivered_values ''k'' outs @ entries (rn_pending r) ''k'' = [ValueInteger32 7])"
proof -
  have q: "q_AggregationMethod (once_query mode) = None" "q_AggregationInterval (once_query mode) = None"
    "q_CollectionMode (once_query mode) = mode" for mode by (simp_all add: once_query_def)
  have s: "values_of ''k'' (concat (map event_samples twice)) = [ValueInteger32 7, ValueInteger32 7]"
    "values_of ''k'' (reportedAfter [] (concat (map event_samples twice))) = [ValueInteger32 7]"
    by (simp_all add: twice_def event_samples_def lastReported_def sampleID_def)
  have mode: "CollectInterval 5 \<noteq> CollectOnChange" by simp
  from samples_delivered_once [OF q(1,2) [of "CollectInterval 5"], of whole twice]
  have "\<exists>r outs. runSteps whole twice (NewRunner (once_query (CollectInterval 5))) =
      (Ok (r, outs) :: (agg_error, Runner \<times> results list) result) \<and>
      delivered_values ''k'' outs @ entries (rn_pending r) ''k'' = [ValueInteger32 7, ValueInteger32 7]"
    unfolding q(3) if_not_P [OF mode] s(1) [symmetric] by blast
  moreover from samples_delivered_once [OF q(1,2) [of CollectOnChange], of whole twice]
  have "\<exists>r outs. runSteps whole twice (NewRunner (once_query CollectOnChange)) =
      (Ok (r, outs) :: (agg_error, Runner \<times> results list) result) \<and>
      delivered_values ''k'' outs @ entries (rn_pending r) ''k'' = [ValueInteger32 7]"
    unfolding q(3) if_P [OF refl] s(2) [symmetric] by blast
  ultimately show ?thesis by blast
qed


end
