(* ===== verification/Change_Loop.thy ===== *)
theory Change_Loop
  imports Query_Props Node_Store
begin

text \<open>
  The goroutine of an onChange query beside everything else that changes the tree
  (\<open>runOnChange\<close> of \<open>internal/query/query.go\<close>, \<open>ChangedSince\<close> of \<open>internal/tree/tree.go\<close>): where it
  samples, where it asks for the generation, and which ready case its \<open>select\<close> takes.
\<close>

section \<open>State and steps\<close>

text \<open>The goroutine is about to take its baseline; has delivered it; is at the head of its loop; or is in the
  \<open>select\<close>, with the channel \<open>ChangedSince\<close> returned.\<close>

datatype phase = Baseline | Delivered | LoopHead | Selecting channel

record changeLoop =
  cl_tree :: Tree
  cl_runner :: Runner
  cl_gen :: u64
  cl_phase :: phase

datatype loop_event = OtherChange | TakeBaseline | FirstGeneration | Fetch | OnChanged | OnAggregate | OnTransfer

text \<open>
  \<open>sample\<close> is what the query's expression samples in a tree, \<open>deliver\<close> what handing a batch to the sink makes of it.
  \<open>other\<close> is a change by anyone else. A ticker may be ready at any time.
\<close>

definition deliverTo :: "(results \<Rightarrow> Tree \<Rightarrow> Tree) \<Rightarrow> results option \<Rightarrow> Tree \<Rightarrow> Tree" where
  "deliverTo deliver batch t = (case batch of None \<Rightarrow> t | Some b \<Rightarrow> notifyChanged (deliver b t))"

inductive change_step :: "float_ops \<Rightarrow> (Tree \<Rightarrow> Sample list option) \<Rightarrow> (results \<Rightarrow> Tree \<Rightarrow> Tree) \<Rightarrow>
    loop_event \<Rightarrow> changeLoop \<Rightarrow> changeLoop \<Rightarrow> bool"
  for fl sample deliver where
  other: "changeGen t = changeGen (cl_tree s) \<Longrightarrow> changeCh t = changeCh (cl_tree s) \<Longrightarrow>
    change_step fl sample deliver OtherChange s (s\<lparr>cl_tree := notifyChanged t\<rparr>)"
| baseline: "cl_phase s = Baseline \<Longrightarrow> onChangeBaseline (sample (cl_tree s)) (cl_runner s) = (r, batch) \<Longrightarrow>
    change_step fl sample deliver TakeBaseline s
      (s\<lparr>cl_runner := r, cl_tree := deliverTo deliver batch (cl_tree s), cl_phase := Delivered\<rparr>)"
| first: "cl_phase s = Delivered \<Longrightarrow> startTickers (rn_query (cl_runner s)) = (Ok () :: (unit, unit) result) \<Longrightarrow>
    change_step fl sample deliver FirstGeneration s
      (s\<lparr>cl_gen := snd (ChangedSince (cl_tree s) 0), cl_phase := LoopHead\<rparr>)"
| fetch: "cl_phase s = LoopHead \<Longrightarrow> ChangedSince (cl_tree s) (cl_gen s) = (ch, g) \<Longrightarrow>
    change_step fl sample deliver Fetch s (s\<lparr>cl_gen := g, cl_phase := Selecting ch\<rparr>)"
| changed: "cl_phase s = Selecting ch \<Longrightarrow> ready (cl_tree s) ch \<Longrightarrow>
    runStep fl (Collect (sample (cl_tree s))) (cl_runner s) = (Ok (r, None) :: (unit, Runner \<times> results option) result) \<Longrightarrow>
    change_step fl sample deliver OnChanged s (s\<lparr>cl_runner := r, cl_phase := LoopHead\<rparr>)"
| aggregate: "cl_phase s = Selecting ch \<Longrightarrow> q_AggregationInterval (rn_query (cl_runner s)) \<noteq> None \<Longrightarrow>
    runStep fl AggTick (cl_runner s) = (Ok (r, batch) :: (unit, Runner \<times> results option) result) \<Longrightarrow>
    change_step fl sample deliver OnAggregate s (s\<lparr>cl_runner := r, cl_phase := LoopHead\<rparr>)"
| transfer: "cl_phase s = Selecting ch \<Longrightarrow>
    runStep fl TransferTick (cl_runner s) = (Ok (r, batch) :: (unit, Runner \<times> results option) result) \<Longrightarrow>
    change_step fl sample deliver OnTransfer s
      (s\<lparr>cl_runner := r, cl_tree := deliverTo deliver batch (cl_tree s), cl_phase := LoopHead\<rparr>)"

inductive_cases change_stepE: "change_step fl sample deliver ev s s'"

text \<open>Runs of \<open>n\<close> steps that all satisfy a condition on the event and the state it happens in.\<close>

inductive change_run :: "float_ops \<Rightarrow> (Tree \<Rightarrow> Sample list option) \<Rightarrow> (results \<Rightarrow> Tree \<Rightarrow> Tree) \<Rightarrow>
    (loop_event \<Rightarrow> changeLoop \<Rightarrow> bool) \<Rightarrow> changeLoop \<Rightarrow> nat \<Rightarrow> changeLoop \<Rightarrow> bool"
  for fl sample deliver may s where
  stop: "change_run fl sample deliver may s 0 s"
| step: "change_run fl sample deliver may s n u \<Longrightarrow> may ev u \<Longrightarrow> change_step fl sample deliver ev u w \<Longrightarrow>
    change_run fl sample deliver may s (Suc n) w"

section \<open>What has been reported\<close>

text \<open>Every node sampled has a last reported value, and it is the value it has.\<close>

definition reported :: "Runner \<Rightarrow> Sample list option \<Rightarrow> bool" where
  "reported r sampled \<longleftrightarrow> (\<forall>ss. sampled = Some ss \<longrightarrow> (\<forall>x \<in> set ss.
     \<exists>v. map_of (rn_lastValues r) (sampleID x) = Some v \<and> (v = sp_Value x \<or> NodeValue_Equal v (sp_Value x))))"

lemma changesLoop_others: "i \<notin> sampleID ` set ss \<Longrightarrow> map_of (rn_lastValues (changesLoop ss r)) i = map_of (rn_lastValues r) i"
  by (induction ss arbitrary: r) (auto simp: Let_def update_conv')

lemma changesLoop_reports:
  "distinct (map sampleID ss) \<Longrightarrow> x \<in> set ss \<Longrightarrow>
   \<exists>v. map_of (rn_lastValues (changesLoop ss r)) (sampleID x) = Some v \<and> (v = sp_Value x \<or> NodeValue_Equal v (sp_Value x))"
proof (induction ss arbitrary: r)
  case (Cons y ss)
  show ?case
  proof (cases "x = y")
    case True
    then have "sampleID x \<notin> sampleID ` set ss" using Cons.prems(1) by simp
    with True show ?thesis
      by (auto simp: Let_def changesLoop_others update_conv' split: option.splits)
  next
    case False
    with Cons.prems Cons.IH show ?thesis by (simp add: Let_def)
  qed
qed simp

lemma collectChanges_reports:
  assumes "\<And>ss. sampled = Some ss \<Longrightarrow> distinct (map sampleID ss)"
  shows "reported (collectChanges sampled r) sampled"
  using assms by (auto simp: reported_def collectChanges_def intro: changesLoop_reports)

lemma same_lastValues: "rn_lastValues r' = rn_lastValues r \<Longrightarrow> reported r' x = reported r x"
  by (simp add: reported_def)

lemma promoteUnless_simps [simp]:
  "rn_lastValues (promoteUnlessAggregated r) = rn_lastValues r" "rn_query (promoteUnlessAggregated r) = rn_query r"
  by (simp_all add: promoteUnlessAggregated_def promoteCollectedToPending_def)

lemma transfer_simps [simp]:
  "rn_lastValues (fst (transfer r)) = rn_lastValues r" "rn_query (fst (transfer r)) = rn_query r"
  by (simp_all add: transfer_def)

lemma tick_keeps:
  assumes "runStep fl ev r = Ok (r', batch)" "ev = AggTick \<or> ev = TransferTick"
  shows "rn_lastValues r' = rn_lastValues r" "rn_query r' = rn_query r"
proof -
  have "r' = fst (transfer r)" if "ev = TransferTick" using assms(1) that by (simp add: runStep_def prod_eq_iff)
  then show "rn_lastValues r' = rn_lastValues r" "rn_query r' = rn_query r"
    using assms transfer_simps [of r]
    by (auto simp: runStep_def aggregate_def rbind_Ok_iff split: if_splits option.splits)
qed

section \<open>Noticing changes\<close>

text \<open>No change falls between the baseline and the first generation asked for, and no tick is taken when the
  tree was already found changed.\<close>

fun quiet :: "loop_event \<Rightarrow> changeLoop \<Rightarrow> bool" where
  "quiet ev s \<longleftrightarrow> \<not> (ev = OtherChange \<and> cl_phase s = Delivered) \<and>
     \<not> ((ev = OnAggregate \<or> ev = OnTransfer) \<and> cl_phase s = Selecting Already)"

definition blocked :: "changeLoop \<Rightarrow> bool" where
  "blocked s \<longleftrightarrow> (case cl_phase s of Selecting ch \<Rightarrow> \<not> ready (cl_tree s) ch | _ \<Rightarrow> False)"

text \<open>The generation asked for last is an earlier one, or the current one and then a condition holds.\<close>

definition asked :: "nat \<Rightarrow> u64 \<Rightarrow> bool \<Rightarrow> bool" where
  "asked c g P \<longleftrightarrow> (\<exists>m. g = of_nat m \<and> (m < c \<or> m = c \<and> P))"

lemma asked_Suc: "asked c g P \<Longrightarrow> asked (Suc c) g Q"
  unfolding asked_def using less_SucI by blast

lemma asked_le: "asked c g P \<Longrightarrow> c \<le> c' \<Longrightarrow> (P \<Longrightarrow> Q) \<Longrightarrow> asked c' g Q"
  by (metis asked_def nat_less_le order_less_le_trans)

lemma asked_now: "P \<Longrightarrow> asked c (of_nat c) P"
  by (auto simp: asked_def)

text \<open>Either what is in the tree has been reported, or the loop still learns that it changed.\<close>

definition noticed :: "(Tree \<Rightarrow> Sample list option) \<Rightarrow> changeLoop \<Rightarrow> bool" where
  "noticed sample s \<longleftrightarrow>
     q_CollectionMode (rn_query (cl_runner s)) = CollectOnChange \<and>
     changeGen (cl_tree s) = of_nat (changeCh (cl_tree s)) \<and>
     (case cl_phase s of
        Baseline \<Rightarrow> True
      | Delivered \<Rightarrow> reported (cl_runner s) (sample (cl_tree s))
      | LoopHead \<Rightarrow> asked (changeCh (cl_tree s)) (cl_gen s) (reported (cl_runner s) (sample (cl_tree s)))
      | Selecting Already \<Rightarrow> asked (changeCh (cl_tree s)) (cl_gen s) True
      | Selecting (Chan m) \<Rightarrow> m \<le> changeCh (cl_tree s) \<and> cl_gen s = of_nat m \<and>
          (m < changeCh (cl_tree s) \<or> reported (cl_runner s) (sample (cl_tree s))))"

lemma noticed_stale:
  assumes "q_CollectionMode (rn_query (cl_runner s)) = CollectOnChange" "changeGen (cl_tree s) = of_nat (changeCh (cl_tree s))"
  shows "noticed sample (s\<lparr>cl_gen := changeGen (cl_tree s), cl_phase := Selecting Already\<rparr>)"
proof -
  have "asked (changeCh (cl_tree s)) (changeGen (cl_tree s)) True" unfolding assms(2) by (rule asked_now) simp
  with assms show ?thesis by (simp add: noticed_def)
qed

definition sink_ok :: "(Tree \<Rightarrow> Sample list option) \<Rightarrow> (results \<Rightarrow> Tree \<Rightarrow> Tree) \<Rightarrow> bool" where
  "sink_ok sample deliver \<longleftrightarrow> (\<forall>b t. changeGen (deliver b t) = changeGen t \<and> changeCh (deliver b t) = changeCh t \<and>
     sample (notifyChanged (deliver b t)) = sample t)"

lemma notifyChanged_simps_counts:
  "changeGen (notifyChanged t) = changeGen t + 1" "changeCh (notifyChanged t) = Suc (changeCh t)"
  by (simp_all add: notifyChanged_def)

lemma deliverTo_counts:
  assumes "sink_ok sample deliver"
  shows "sample (deliverTo deliver batch t) = sample t" "changeCh t \<le> changeCh (deliverTo deliver batch t)"
    "changeCh (deliverTo deliver batch t) \<le> Suc (changeCh t)"
    "changeGen t = of_nat (changeCh t) \<Longrightarrow> changeGen (deliverTo deliver batch t) = of_nat (changeCh (deliverTo deliver batch t))"
  using assms by (cases batch; simp add: sink_ok_def deliverTo_def notifyChanged_simps_counts)+

lemma change_step_counts:
  assumes "change_step fl sample deliver ev s w" "sink_ok sample deliver"
  shows "changeCh (cl_tree w) \<le> Suc (changeCh (cl_tree s))"
  using assms(1) deliverTo_counts(3) [OF assms(2)]
  by cases (simp_all add: notifyChanged_simps_counts)

lemma of_nat_u64_eq: "m \<le> c \<Longrightarrow> c < 2 ^ 64 \<Longrightarrow> (of_nat m :: u64) = of_nat c \<longleftrightarrow> m = c"
proof
  assume "m \<le> c" "c < 2 ^ 64" "(of_nat m :: u64) = of_nat c"
  then have "unat (of_nat m :: u64) = unat (of_nat c :: u64)" "m < 2 ^ 64" by simp_all
  with \<open>c < 2 ^ 64\<close> show "m = c" by (simp add: unat_of_nat)
qed simp

lemma change_step_noticed:
  assumes step: "change_step fl sample deliver ev s w" and inv: "noticed sample s" and q: "quiet ev s"
    and sink: "sink_ok sample deliver" and ids: "\<And>t ss. sample t = Some ss \<Longrightarrow> distinct (map sampleID ss)"
    and bound: "changeCh (cl_tree s) < 2 ^ 64"
  shows "noticed sample w"
  using step
proof cases
  case (other t)
  then show ?thesis using inv q
    by (auto simp: noticed_def notifyChanged_simps_counts elim: asked_Suc split: phase.splits channel.splits)
next
  case (baseline r batch)
  let ?c = "collectChanges (sample (cl_tree s)) (cl_runner s)"
  have r: "r = fst (transfer (promoteUnlessAggregated ?c))" using baseline(4) by (simp add: onChangeBaseline_def)
  have "rn_lastValues r = rn_lastValues ?c" "rn_query r = rn_query (cl_runner s)" by (simp_all add: r)
  moreover have "reported ?c (sample (cl_tree s))" using ids by (rule collectChanges_reports)
  ultimately have "reported r (sample (cl_tree s))" "rn_query r = rn_query (cl_runner s)"
    using same_lastValues by blast+
  with baseline inv deliverTo_counts [OF sink] show ?thesis by (simp add: noticed_def)
next
  case first
  have "snd (ChangedSince (cl_tree s) 0) = changeGen (cl_tree s)" by (simp add: ChangedSince_def)
  with first inv asked_now [of _ "changeCh (cl_tree s)"] show ?thesis by (auto simp: noticed_def)
next
  case (fetch ch g)
  then have asked: "asked (changeCh (cl_tree s)) (cl_gen s) (reported (cl_runner s) (sample (cl_tree s)))"
    and gen: "changeGen (cl_tree s) = of_nat (changeCh (cl_tree s))" using inv by (auto simp: noticed_def)
  show ?thesis
  proof (cases "cl_gen s = changeGen (cl_tree s)")
    case True
    obtain m where m: "cl_gen s = of_nat m" "m < changeCh (cl_tree s) \<or> m = changeCh (cl_tree s) \<and> reported (cl_runner s) (sample (cl_tree s))"
      using asked by (auto simp: asked_def)
    moreover have "m = changeCh (cl_tree s)" using of_nat_u64_eq [of m, OF _ bound] m True gen by (metis le_refl less_imp_le)
    ultimately have "reported (cl_runner s) (sample (cl_tree s))" by blast
    with True fetch inv gen show ?thesis by (auto simp: noticed_def ChangedSince_def)
  next
    case False
    then have w: "w = s\<lparr>cl_gen := changeGen (cl_tree s), cl_phase := Selecting Already\<rparr>"
      using fetch by (simp add: ChangedSince_def)
    show ?thesis unfolding w using inv by (intro noticed_stale) (simp_all add: noticed_def)
  qed
next
  case (changed ch r)
  have "reported r (sample (cl_tree s))" "rn_query r = rn_query (cl_runner s)"
    using changed(5) inv collectChanges_reports [of "sample (cl_tree s)" "cl_runner s"] ids
    by (auto simp: runStep_def noticed_def Let_def same_lastValues [of "promoteUnlessAggregated _" "collectChanges (sample (cl_tree s)) (cl_runner s)"])
  moreover have "asked (changeCh (cl_tree s)) (cl_gen s) True"
    using inv changed(3) by (auto simp: noticed_def asked_def split: channel.splits)
  ultimately show ?thesis using changed inv by (auto simp: noticed_def elim: asked_le)
next
  case (aggregate ch r batch)
  then obtain m where ch: "ch = Chan m" using q by (cases ch) auto
  have r: "rn_query r = rn_query (cl_runner s)" "reported r = reported (cl_runner s)"
    using tick_keeps [OF aggregate(5)] same_lastValues [of r "cl_runner s"] by blast+
  then show ?thesis using aggregate inv ch by (auto simp: noticed_def asked_def)
next
  case (transfer ch r batch)
  then obtain m where ch: "ch = Chan m" using q by (cases ch) auto
  have r: "rn_query r = rn_query (cl_runner s)" "reported r = reported (cl_runner s)"
    using tick_keeps [OF transfer(4)] same_lastValues [of r "cl_runner s"] by blast+
  note t = deliverTo_counts [OF sink, where batch = batch and t = "cl_tree s"]
  have "asked (changeCh (cl_tree s)) (cl_gen s) (reported r (sample (cl_tree s)))"
    using transfer(3) inv ch r by (auto simp: noticed_def asked_def)
  from asked_le [OF this t(2)] show ?thesis using transfer inv r t by (auto simp: noticed_def)
qed

lemma change_run_noticed:
  assumes "change_run fl sample deliver quiet s n u" "noticed sample s" "sink_ok sample deliver"
    and "\<And>t ss. sample t = Some ss \<Longrightarrow> distinct (map sampleID ss)" "changeCh (cl_tree s) + n < 2 ^ 64"
  shows "noticed sample u \<and> changeCh (cl_tree u) \<le> changeCh (cl_tree s) + n"
  using assms(1,5)
proof induction
  case (step n u ev w)
  then have "noticed sample u" "changeCh (cl_tree u) \<le> changeCh (cl_tree s) + n" by simp_all
  with step change_step_noticed [OF step.hyps(3) _ step.hyps(2) assms(3,4)] change_step_counts [OF step.hyps(3) assms(3)]
  show ?case by fastforce
qed (use assms(2) in simp)

end
