(* ===== verification/Change_Properties.thy ===== *)
theory Change_Properties
  imports Change_Loop Query_Properties
begin

text \<open>Which changes an onChange query notices.\<close>

section \<open>The two races\<close>

definition watched :: "Tree \<Rightarrow> Sample list option" where
  "watched t = Some [\<lparr>sp_ID = ''1'', sp_Key = ''x'', sp_Value = Value t 1\<rparr>]"

definition watch_query :: QueryReq where
  "watch_query = \<lparr>q_SequenceNumber = 1, q_NodeExpression = ''/x'', q_CollectionMode = CollectOnChange,
     q_AggregationInterval = None, q_AggregationMethod = None, q_TransferInterval = 1\<rparr>"

definition watch_tree :: Tree where
  "watch_tree = snd (AppendUnder 0 ''x'' (ValueInteger32 0) NewTree)"

definition watch_start :: changeLoop where
  "watch_start = \<lparr>cl_tree = watch_tree, cl_runner = NewRunner watch_query, cl_gen = 0, cl_phase = Baseline\<rparr>"

definition watch_runner :: Runner where
  "watch_runner = fst (onChangeBaseline (watched watch_tree) (NewRunner watch_query))"

definition after_baseline :: changeLoop where
  "after_baseline = \<lparr>cl_tree = notifyChanged watch_tree, cl_runner = watch_runner, cl_gen = 0, cl_phase = Delivered\<rparr>"

lemma watch_tree_values:
  "Value watch_tree 1 = ValueInteger32 0" "changeGen watch_tree = 1" "changeCh watch_tree = 1"
  by code_simp+

lemma watch_baseline:
  "onChangeBaseline (watched watch_tree) (NewRunner watch_query) = (watch_runner, Some [(''x'', [ValueInteger32 0])])"
  "rn_query watch_runner = watch_query" "rn_pending watch_runner = []"
  "rn_lastValues watch_runner = [(''1'', ValueInteger32 0)]"
proof -
  have w: "watched watch_tree = Some [\<lparr>sp_ID = ''1'', sp_Key = ''x'', sp_Value = ValueInteger32 0\<rparr>]"
    unfolding watched_def watch_tree_values ..
  show "onChangeBaseline (watched watch_tree) (NewRunner watch_query) = (watch_runner, Some [(''x'', [ValueInteger32 0])])"
    "rn_query watch_runner = watch_query" "rn_pending watch_runner = []"
    "rn_lastValues watch_runner = [(''1'', ValueInteger32 0)]"
    unfolding watch_runner_def w by code_simp+
qed

lemma baseline_step: "change_step fl watched (\<lambda>_ t. t) TakeBaseline watch_start after_baseline"
  using change_step.baseline [of watch_start watched watch_runner "Some [(''x'', [ValueInteger32 0])]" fl "\<lambda>_ t. t"]
  by (simp add: watch_start_def after_baseline_def watch_baseline deliverTo_def)

abbreviation set1 :: "Tree \<Rightarrow> Tree" where "set1 \<equiv> setValue 1 (ValueInteger32 1)"

lemma set1_counts: "changeGen (set1 t) = changeGen t" "changeCh (set1 t) = changeCh t"
  unfolding setValue_def by simp_all

text \<open>The loop on that query with nothing pending, and its steps.\<close>

abbreviation watching :: "Tree \<Rightarrow> u64 \<Rightarrow> phase \<Rightarrow> changeLoop" where
  "watching t g p \<equiv> \<lparr>cl_tree = t, cl_runner = watch_runner, cl_gen = g, cl_phase = p\<rparr>"

abbreviation watch_step :: "loop_event \<Rightarrow> changeLoop \<Rightarrow> changeLoop \<Rightarrow> bool" where
  "watch_step \<equiv> change_step whole watched (\<lambda>_ t. t)"

lemma watch_steps:
  "watch_step OtherChange (watching t g p) (watching (notifyChanged (set1 t)) g p)"
  "watch_step FirstGeneration (watching t g Delivered) (watching t (changeGen t) LoopHead)"
  "g = changeGen t \<Longrightarrow> watch_step Fetch (watching t g LoopHead) (watching t g (Selecting (Chan (changeCh t))))"
  "g \<noteq> changeGen t \<Longrightarrow> watch_step Fetch (watching t g LoopHead) (watching t (changeGen t) (Selecting Already))"
  "watch_step OnTransfer (watching t g (Selecting ch)) (watching t g LoopHead)"
proof -
  show "watch_step OtherChange (watching t g p) (watching (notifyChanged (set1 t)) g p)"
    using change_step.other [of "set1 t" "watching t g p" whole watched "\<lambda>_ t. t"] by (simp add: set1_counts del: One_nat_def)
  have "startTickers watch_query = (Ok () :: (unit, unit) result)" by code_simp
  then show "watch_step FirstGeneration (watching t g Delivered) (watching t (changeGen t) LoopHead)"
    using change_step.first [of "watching t g Delivered" whole watched "\<lambda>_ t. t"]
    by (simp add: watch_baseline ChangedSince_def split: if_splits)
  show "watch_step Fetch (watching t g LoopHead) (watching t g (Selecting (Chan (changeCh t))))" if "g = changeGen t"
    using change_step.fetch [of "watching t g LoopHead" "Chan (changeCh t)" g whole watched "\<lambda>_ t. t"] that
    by (simp add: ChangedSince_def)
  show "watch_step Fetch (watching t g LoopHead) (watching t (changeGen t) (Selecting Already))" if "g \<noteq> changeGen t"
    using change_step.fetch [of "watching t g LoopHead" Already "changeGen t" whole watched "\<lambda>_ t. t"] that
    by (simp add: ChangedSince_def)
  have "runStep whole TransferTick watch_runner = (Ok (watch_runner, None) :: (unit, Runner \<times> results option) result)"
    by (simp add: runStep_def transfer_def watch_baseline)
  then show "watch_step OnTransfer (watching t g (Selecting ch)) (watching t g LoopHead)"
    using change_step.transfer [of "watching t g (Selecting ch)" ch whole watch_runner None watched "\<lambda>_ t. t"]
    by (simp add: deliverTo_def)
qed

lemma watch_missed:
  assumes "Value t 1 = ValueInteger32 1"
  shows "blocked (watching t g (Selecting (Chan (changeCh t)))) \<and> \<not> reported watch_runner (watched t)"
  using assms by (simp add: blocked_def reported_def watched_def watch_baseline sampleID_def)

text \<open>Both races lose changes: a value set right after the baseline is delivered, or set before a transfer tick
  is taken over a channel that was found changed already, is not reported, and the loop waits for some later change.\<close>

lemma changes_missed:
  "(\<exists>n u. change_run whole watched (\<lambda>_ t. t) (\<lambda>ev s. ev \<noteq> OnTransfer \<and> ev \<noteq> OnAggregate) watch_start n u \<and>
      blocked u \<and> \<not> reported (cl_runner u) (watched (cl_tree u))) \<and>
   (\<exists>n u. change_run whole watched (\<lambda>_ t. t) (\<lambda>ev s. \<not> (ev = OtherChange \<and> cl_phase s = Delivered)) watch_start n u \<and>
      blocked u \<and> \<not> reported (cl_runner u) (watched (cl_tree u)))"
proof -
  let ?t = "notifyChanged watch_tree" and ?u = "notifyChanged (set1 (notifyChanged watch_tree))"
  note go = change_run.step [of whole watched "\<lambda>_ t. t"]
  note base = change_run.stop [THEN go, OF _ baseline_step, unfolded after_baseline_def]
  have gens: "changeGen ?t = 2" "changeGen ?u = 3" "Value ?u 1 = ValueInteger32 1"
    unfolding notifyChanged_simps_counts set1_counts watch_tree_values by simp_all
  show ?thesis
  proof (intro conjI exI)
    show "change_run whole watched (\<lambda>_ t. t) (\<lambda>ev s. ev \<noteq> OnTransfer \<and> ev \<noteq> OnAggregate) watch_start (Suc (Suc (Suc (Suc 0))))
        (watching ?u (changeGen ?u) (Selecting (Chan (changeCh ?u))))"
      by (rule go [OF go [OF go [OF base _ watch_steps(1)] _ watch_steps(2)] _ watch_steps(3)]) simp_all
    show "blocked (watching ?u (changeGen ?u) (Selecting (Chan (changeCh ?u))))"
      "\<not> reported (cl_runner (watching ?u (changeGen ?u) (Selecting (Chan (changeCh ?u)))))
        (watched (cl_tree (watching ?u (changeGen ?u) (Selecting (Chan (changeCh ?u))))))"
      using watch_missed [OF gens(3)] by simp_all
    show "change_run whole watched (\<lambda>_ t. t) (\<lambda>ev s. \<not> (ev = OtherChange \<and> cl_phase s = Delivered)) watch_start (Suc (Suc (Suc (Suc (Suc (Suc 0))))))
        (watching ?u (changeGen ?u) (Selecting (Chan (changeCh ?u))))"
      by (rule go [OF go [OF go [OF go [OF go [OF base _ watch_steps(2)] _ watch_steps(1)] _ watch_steps(4)] _ watch_steps(5)]
          _ watch_steps(3)]) (simp_all add: gens del: One_nat_def)
    show "blocked (watching ?u (changeGen ?u) (Selecting (Chan (changeCh ?u))))"
      "\<not> reported (cl_runner (watching ?u (changeGen ?u) (Selecting (Chan (changeCh ?u)))))
        (watched (cl_tree (watching ?u (changeGen ?u) (Selecting (Chan (changeCh ?u))))))"
      using watch_missed [OF gens(3)] by simp_all
  qed
qed

section \<open>What is noticed\<close>

text \<open>C35. An onChange query notices every change, but for two races: if no change falls between taking the
  baseline and first asking for the generation, and no tick is taken in a \<open>select\<close> whose channel was
  found changed already, then whenever the loop waits with nothing ready, every node sampled was last
  reported with the value it has (fewer than \<open>2^64\<close> changes; results are not delivered where the query looks).
  Neither exclusion can be dropped: without the first, and without the second, the loop can wait with a value set
  that it has not reported.\<close>

theorem changes_noticed_unless_raced:
  assumes run: "change_run fl sample deliver quiet s n u" "blocked u"
    and start: "cl_phase s = Baseline" "q_CollectionMode (rn_query (cl_runner s)) = CollectOnChange"
      "changeGen (cl_tree s) = of_nat (changeCh (cl_tree s))" "changeCh (cl_tree s) + n < 2 ^ 64"
    and env: "sink_ok sample deliver" "\<And>t ss. sample t = Some ss \<Longrightarrow> distinct (map sampleID ss)"
  shows "reported (cl_runner u) (sample (cl_tree u)) \<and>
    (\<exists>n u. change_run whole watched (\<lambda>_ t. t) (\<lambda>ev s. ev \<noteq> OnTransfer \<and> ev \<noteq> OnAggregate) watch_start n u \<and>
      blocked u \<and> \<not> reported (cl_runner u) (watched (cl_tree u))) \<and>
    (\<exists>n u. change_run whole watched (\<lambda>_ t. t) (\<lambda>ev s. \<not> (ev = OtherChange \<and> cl_phase s = Delivered)) watch_start n u \<and>
      blocked u \<and> \<not> reported (cl_runner u) (watched (cl_tree u)))"
proof -
  have "noticed sample s" using start(1-3) by (simp add: noticed_def)
  with run(1) env start(4) have "noticed sample u" using change_run_noticed by blast
  with run(2) have "reported (cl_runner u) (sample (cl_tree u))"
    by (auto simp: noticed_def blocked_def split: phase.splits channel.splits)
  with changes_missed show ?thesis by blast
qed

text \<open>The baseline, then a wait: the value is the one reported.\<close>

theorem changes_noticed_unless_raced_witness:
  "reported watch_runner (watched (notifyChanged watch_tree))"
proof -
  let ?t = "notifyChanged watch_tree"
  have "changeGen ?t = 2" by (simp add: notifyChanged_def watch_tree_values)
  note go = change_run.step [of whole watched "\<lambda>_ t. t" quiet]
  have run: "change_run whole watched (\<lambda>_ t. t) quiet watch_start (Suc (Suc (Suc 0)))
      (watching ?t (changeGen ?t) (Selecting (Chan (changeCh ?t))))"
    by (rule go [OF go [OF go [OF change_run.stop _ baseline_step [unfolded after_baseline_def]] _ watch_steps(2)] _ watch_steps(3)])
      (simp_all add: watch_start_def)
  from changes_noticed_unless_raced [OF run] show ?thesis
    by (simp add: watch_start_def NewRunner_def watch_query_def watch_tree_values blocked_def sink_ok_def watched_def notifyChanged_def)
qed

end
