(* ===== verification/Continuation_Queue.thy ===== *)
theory Continuation_Queue
  imports Match_Expr
begin

text \<open>
  The client's queue of pending continuations (\<open>cmd/client/continuation.go\<close>).
\<close>

section \<open>State\<close>

record pendingContinuation =
  pc_expr :: string
  pc_base :: string
  pc_idx :: int

record coveredRange =
  cr_start :: int
  cr_end :: int

record continuationQueue =
  cq_pending :: "pendingContinuation list"
  cq_seen :: "string set"
  cq_covered :: "string \<Rightarrow> coveredRange list"

definition newContinuationQueue :: continuationQueue where
  "newContinuationQueue = \<lparr>cq_pending = [], cq_seen = {}, cq_covered = (\<lambda>_. [])\<rparr>"

section \<open>Operations\<close>

fun coveredLoop :: "int \<Rightarrow> coveredRange list \<Rightarrow> bool" where
  "coveredLoop idx [] = False"
| "coveredLoop idx (r # rs) = (if cr_start r \<le> idx \<and> idx < cr_end r then True else coveredLoop idx rs)"

definition isCovered :: "continuationQueue \<Rightarrow> string \<Rightarrow> int \<Rightarrow> bool" where
  "isCovered q base idx = coveredLoop idx (cq_covered q base)"

definition Add :: "string \<Rightarrow> continuationQueue \<Rightarrow> bool \<times> continuationQueue" where
  "Add expr q =
     (if expr \<in> cq_seen q then (False, q)
      else
        let q = q\<lparr>cq_seen := insert expr (cq_seen q)\<rparr>; (base, idx) = SplitResumeSuffix expr in
        if isCovered q base idx then (False, q)
        else (True, q\<lparr>cq_pending := cq_pending q @ [\<lparr>pc_expr = expr, pc_base = base, pc_idx = idx\<rparr>]\<rparr>))"

text \<open>The inner loop of \<open>Next\<close>: the first entry with the smallest index.\<close>

definition bestLoop :: "pendingContinuation list \<Rightarrow> nat" where
  "bestLoop ps = foldl (\<lambda>best i. if pc_idx (ps ! i) < pc_idx (ps ! best) then i else best) 0 [1..<length ps]"

lemma bestLoop_prefix:
  assumes "0 < k" "k \<le> length ps"
  defines "b \<equiv> foldl (\<lambda>best i. if pc_idx (ps ! i) < pc_idx (ps ! best) then i else best) 0 [1..<k]"
  shows "b < k \<and> (\<forall>i < k. pc_idx (ps ! b) \<le> pc_idx (ps ! i)) \<and> (\<forall>i < b. pc_idx (ps ! b) < pc_idx (ps ! i))"
  using assms(1,2) unfolding b_def
proof (induction k)
  case (Suc k)
  show ?case
  proof (cases "k = 0")
    case False
    with Suc show ?thesis by (auto simp: less_Suc_eq)
  qed simp
qed simp

lemma bestLoop_best:
  assumes "ps \<noteq> []"
  shows "bestLoop ps < length ps" "i < length ps \<Longrightarrow> pc_idx (ps ! bestLoop ps) \<le> pc_idx (ps ! i)"
    and "i < bestLoop ps \<Longrightarrow> pc_idx (ps ! bestLoop ps) < pc_idx (ps ! i)"
  using bestLoop_prefix [of "length ps" ps] assms unfolding bestLoop_def by auto

function Next :: "continuationQueue \<Rightarrow> string option \<times> continuationQueue" where
  "Next q =
     (if 0 < length (cq_pending q) then
        let best = bestLoop (cq_pending q); nxt = cq_pending q ! best;
            q = q\<lparr>cq_pending := take best (cq_pending q) @ drop (best + 1) (cq_pending q)\<rparr>
        in if isCovered q (pc_base nxt) (pc_idx nxt) then Next q
           else (Some (pc_expr nxt), q)
      else (None, q))"
  by pat_completeness auto
termination
  by (relation "measure (\<lambda>q. length (cq_pending q))") (auto dest: bestLoop_best(1))

declare Next.simps [simp del]

definition MarkCovered :: "string \<Rightarrow> int \<Rightarrow> continuationQueue \<Rightarrow> continuationQueue" where
  "MarkCovered expr count q =
     (if count \<le> 0 then q
      else
        let (base, resumeIndex) = SplitResumeSuffix expr in
        q\<lparr>cq_covered := (cq_covered q)(base := cq_covered q base @
            [\<lparr>cr_start = resumeIndex, cr_end = sint (of_int (resumeIndex + count) :: i64)\<rparr>])\<rparr>)"

section \<open>What the queue keeps\<close>

text \<open>Pending entries carry their own split; everything seen is pending or covered.\<close>

definition exprCovered :: "continuationQueue \<Rightarrow> string \<Rightarrow> bool" where
  "exprCovered q x = isCovered q (fst (SplitResumeSuffix x)) (snd (SplitResumeSuffix x))"

definition queue_ok :: "string set \<Rightarrow> continuationQueue \<Rightarrow> bool" where
  "queue_ok busy q \<longleftrightarrow>
     (\<forall>p \<in> set (cq_pending q). SplitResumeSuffix (pc_expr p) = (pc_base p, pc_idx p) \<and> pc_expr p \<in> cq_seen q) \<and>
     (\<forall>x \<in> cq_seen q. x \<in> busy \<or> exprCovered q x \<or> (\<exists>p \<in> set (cq_pending q). pc_expr p = x))"

lemma coveredLoop_iff: "coveredLoop idx rs \<longleftrightarrow> (\<exists>r \<in> set rs. cr_start r \<le> idx \<and> idx < cr_end r)"
  by (induction rs) auto

lemma new_queue_ok: "queue_ok {} newContinuationQueue"
  by (simp add: queue_ok_def newContinuationQueue_def)

lemma isCovered_more [simp]:
  "isCovered (q\<lparr>cq_seen := s\<rparr>) b i = isCovered q b i" "isCovered (q\<lparr>cq_pending := ps\<rparr>) b i = isCovered q b i"
  by (simp_all add: isCovered_def)

lemma exprCovered_more [simp]:
  "exprCovered (q\<lparr>cq_seen := s\<rparr>) x = exprCovered q x" "exprCovered (q\<lparr>cq_pending := ps\<rparr>) x = exprCovered q x"
  by (simp_all add: exprCovered_def)

lemma Add_cases:
  obtains "expr \<in> cq_seen q" "Add expr q = (False, q)"
  | "expr \<notin> cq_seen q" "exprCovered q expr" "Add expr q = (False, q\<lparr>cq_seen := insert expr (cq_seen q)\<rparr>)"
  | "expr \<notin> cq_seen q" "\<not> exprCovered q expr" "Add expr q =
      (True, q\<lparr>cq_seen := insert expr (cq_seen q), cq_pending := cq_pending q @
        [\<lparr>pc_expr = expr, pc_base = fst (SplitResumeSuffix expr), pc_idx = snd (SplitResumeSuffix expr)\<rparr>]\<rparr>)"
  by (cases "SplitResumeSuffix expr") (auto simp: Add_def Let_def exprCovered_def)

lemma Add_ok:
  assumes "queue_ok busy q" "Add expr q = (b, q')"
  shows "queue_ok busy q'" "cq_covered q' = cq_covered q" "cq_seen q' = insert expr (cq_seen q)"
    and "length (cq_pending q') = length (cq_pending q) + of_bool b"
proof -
  have "queue_ok busy q' \<and> cq_covered q' = cq_covered q \<and> cq_seen q' = insert expr (cq_seen q) \<and>
      length (cq_pending q') = length (cq_pending q) + of_bool b"
  proof (cases rule: Add_cases [of expr q])
    case 1
    with assms show ?thesis by auto
  next
    case 2
    then have q': "b = False" "q' = q\<lparr>cq_seen := insert expr (cq_seen q)\<rparr>" using assms(2) by auto
    have "queue_ok busy q'" using assms(1) 2(2) unfolding q' queue_ok_def by simp
    then show ?thesis by (simp add: q')
  next
    case 3
    then have q': "b = True" "q' = q\<lparr>cq_seen := insert expr (cq_seen q), cq_pending := cq_pending q @
        [\<lparr>pc_expr = expr, pc_base = fst (SplitResumeSuffix expr), pc_idx = snd (SplitResumeSuffix expr)\<rparr>]\<rparr>"
      using assms(2) by auto
    have "queue_ok busy q'" using assms(1) unfolding q' queue_ok_def by (simp add: ball_Un bex_Un) blast
    then show ?thesis by (simp add: q')
  qed
  then show "queue_ok busy q'" "cq_covered q' = cq_covered q" "cq_seen q' = insert expr (cq_seen q)"
    "length (cq_pending q') = length (cq_pending q) + of_bool b" by auto
qed

lemma remove_nth_set:
  assumes "k < length xs"
  shows "set xs = insert (xs ! k) (set (take k xs @ drop (k + 1) xs))"
  by (subst id_take_nth_drop [OF assms]) auto

text \<open>What \<open>Next\<close> returns was pending, is not covered, and has the smallest index of the uncovered.\<close>

lemma Next_ok:
  assumes "queue_ok B q" "Next q = (r, q')"
  shows "cq_covered q' = cq_covered q \<and> cq_seen q' = cq_seen q \<and>
    (case r of
       None \<Rightarrow> queue_ok B q' \<and> cq_pending q' = []
     | Some x \<Rightarrow> queue_ok (insert x B) q' \<and> x \<in> cq_seen q \<and> \<not> exprCovered q x \<and>
         length (cq_pending q') < length (cq_pending q) \<and>
         (\<forall>p \<in> set (cq_pending q). \<not> isCovered q (pc_base p) (pc_idx p) \<longrightarrow>
            snd (SplitResumeSuffix x) \<le> pc_idx p))"
  using assms
proof (induction q rule: Next.induct)
  case (1 q)
  show ?case
  proof (cases "cq_pending q = []")
    case True
    with 1 show ?thesis by (simp add: Next.simps [of q])
  next
    case False
    define best where "best = bestLoop (cq_pending q)"
    define nxt where "nxt = cq_pending q ! best"
    define q1 where "q1 = q\<lparr>cq_pending := take best (cq_pending q) @ drop (best + 1) (cq_pending q)\<rparr>"
    have best: "best < length (cq_pending q)" using bestLoop_best(1) [OF False] by (simp add: best_def)
    have pend: "set (cq_pending q) = insert nxt (set (cq_pending q1))"
      using remove_nth_set [OF best] by (simp add: nxt_def q1_def)
    have split: "SplitResumeSuffix (pc_expr nxt) = (pc_base nxt, pc_idx nxt)" "pc_expr nxt \<in> cq_seen q"
      using "1.prems"(1) pend by (auto simp: queue_ok_def)
    have cov: "isCovered q1 b i = isCovered q b i" "exprCovered q1 x = exprCovered q x" for b i x
      by (simp_all add: q1_def exprCovered_def)
    have fields: "cq_seen q1 = cq_seen q" "cq_covered q1 = cq_covered q"
      "length (cq_pending q1) < length (cq_pending q)"
      using best by (simp_all add: q1_def)
    have ok: "queue_ok (insert (pc_expr nxt) B) q1"
      using "1.prems"(1) unfolding queue_ok_def pend fields(1) cov by auto
    have least: "pc_idx nxt \<le> pc_idx p" if "p \<in> set (cq_pending q)" for p
      using that bestLoop_best(2) [OF False] by (auto simp: nxt_def best_def in_set_conv_nth)
    have next_eq: "Next q = (if isCovered q1 (pc_base nxt) (pc_idx nxt) then Next q1 else (Some (pc_expr nxt), q1))"
      using False by (simp add: Next.simps [of q] best_def nxt_def q1_def Let_def)
    show ?thesis
    proof (cases "isCovered q1 (pc_base nxt) (pc_idx nxt)")
      case True
      have "exprCovered q1 (pc_expr nxt)" using True split(1) by (simp add: exprCovered_def)
      then have ok1: "queue_ok B q1" using ok unfolding queue_ok_def by auto
      have "0 < length (cq_pending q)" using False by simp
      note IH = "1.IH" [OF this best_def nxt_def q1_def True ok1]
      have "Next q1 = (r, q')" using "1.prems"(2) next_eq True by simp
      from IH [OF this] show ?thesis using True pend fields cov by (auto split: option.splits)
    next
      case no: False
      then have eq: "r = Some (pc_expr nxt)" "q' = q1" using "1.prems"(2) next_eq by simp_all
      have "\<not> exprCovered q (pc_expr nxt)" using no split(1) cov by (simp add: exprCovered_def)
      with eq ok split fields least show ?thesis by simp
    qed
  qed
qed

text \<open>The lengths need no invariant.\<close>

lemma Add_length: "Add expr q = (b, q') \<Longrightarrow> length (cq_pending q') = length (cq_pending q) + of_bool b"
  by (cases rule: Add_cases [of expr q]) auto

lemma Next_length: "Next q = (Some x, q') \<Longrightarrow> length (cq_pending q') < length (cq_pending q)"
proof (induction q rule: Next.induct)
  case (1 q)
  have "bestLoop (cq_pending q) < length (cq_pending q)" if "cq_pending q \<noteq> []"
    using that by (rule bestLoop_best)
  with 1 show ?case by (subst (asm) (2) Next.simps) (fastforce simp: Let_def split: if_splits)
qed

text \<open>A range is recorded as meant as long as its end does not overflow.\<close>

definition range_end_fits :: "string \<Rightarrow> int \<Rightarrow> bool" where
  "range_end_fits x n \<longleftrightarrow> - (2 ^ 63) \<le> snd (SplitResumeSuffix x) + n \<and> snd (SplitResumeSuffix x) + n < 2 ^ 63"

lemma MarkCovered_covers:
  assumes "range_end_fits x n"
  shows "isCovered (MarkCovered x n q) b i \<longleftrightarrow> isCovered q b i \<or>
     (0 < n \<and> b = fst (SplitResumeSuffix x) \<and> snd (SplitResumeSuffix x) \<le> i \<and> i < snd (SplitResumeSuffix x) + n)"
  using assms sint_of_int_i64 [of "snd (SplitResumeSuffix x) + n"]
  by (cases "SplitResumeSuffix x") (auto simp: MarkCovered_def isCovered_def coveredLoop_iff range_end_fits_def)

lemma MarkCovered_ok:
  assumes "queue_ok (insert x B) q" "0 < n" "range_end_fits x n"
  shows "queue_ok B (MarkCovered x n q)"
proof -
  have [simp]: "cq_seen (MarkCovered x n q) = cq_seen q" "cq_pending (MarkCovered x n q) = cq_pending q"
    by (simp_all add: MarkCovered_def split_beta)
  have "exprCovered (MarkCovered x n q) y \<longleftrightarrow> exprCovered q y \<or>
      (fst (SplitResumeSuffix y) = fst (SplitResumeSuffix x) \<and>
       snd (SplitResumeSuffix x) \<le> snd (SplitResumeSuffix y) \<and>
       snd (SplitResumeSuffix y) < snd (SplitResumeSuffix x) + n)" for y
    using assms(2) by (auto simp: exprCovered_def MarkCovered_covers [OF assms(3)])
  with assms show ?thesis unfolding queue_ok_def by auto
qed

end
