(* ===== verification/Client_Follow.thy ===== *)
theory Client_Follow
  imports Continuation_Queue Wire_Types
begin

text \<open>
  How the client follows continuations (\<open>followGet\<close>, \<open>followQueue\<close> and \<open>handlePush\<close> in
  \<open>cmd/client/main.go\<close>). The exchange with the server (\<open>sendAndWait\<close>) is the argument \<open>ask\<close>: the
  nodes of the \<open>k\<close>-th answer of this run, or \<open>None\<close> when it fails, which ends the program. Printing is
  the log of the answers; the pointers reported as not followed are kept in \<open>fs_dropped\<close>.
\<close>

definition maxFollowups :: nat where "maxFollowups = 50"

type_synonym server = "nat \<Rightarrow> string \<Rightarrow> Node list option"

record followState =
  fs_queue :: continuationQueue
  fs_followups :: nat
  fs_log :: "(string \<times> Node list) list"
  fs_dropped :: "string list"

text \<open>The body of the loop over a node's two pointers, and the loop over the nodes.\<close>

definition followPointer :: "NodePointer \<Rightarrow> followState \<Rightarrow> followState" where
  "followPointer p st =
     (case p of
        PointerAbsolute e \<Rightarrow>
          if fs_followups st \<ge> maxFollowups then st\<lparr>fs_dropped := fs_dropped st @ [e]\<rparr>
          else
            let (added, q) = Add e (fs_queue st); st = st\<lparr>fs_queue := q\<rparr>
            in if added then st\<lparr>fs_followups := fs_followups st + 1\<rparr> else st
      | _ \<Rightarrow> st)"

fun followNodes :: "Node list \<Rightarrow> followState \<Rightarrow> followState" where
  "followNodes [] st = st"
| "followNodes (n # ns) st =
     followNodes ns (followPointer (nd_NextSibling n) (followPointer (nd_FirstChild n) st))"

text \<open>The loop of \<open>followQueue\<close>; the result says whether it ended without a failed exchange.\<close>

partial_function (option) followLoop :: "server \<Rightarrow> followState \<Rightarrow> (followState \<times> bool) option" where
  "followLoop ask st =
     (case Next (fs_queue st) of
        (None, q) \<Rightarrow> Some (st\<lparr>fs_queue := q\<rparr>, True)
      | (Some expr, q) \<Rightarrow>
          (case ask (length (fs_log st)) expr of
             None \<Rightarrow> Some (st\<lparr>fs_queue := q\<rparr>, False)
           | Some ns \<Rightarrow>
               followLoop ask (followNodes ns
                 (st\<lparr>fs_queue := MarkCovered expr (int (length ns)) q, fs_log := fs_log st @ [(expr, ns)]\<rparr>))))"

definition startFollow :: "continuationQueue \<Rightarrow> followState" where
  "startFollow q = \<lparr>fs_queue = q, fs_followups = 0, fs_log = [], fs_dropped = []\<rparr>"

definition followQueue :: "server \<Rightarrow> continuationQueue \<Rightarrow> (followState \<times> bool) option" where
  "followQueue ask q = followLoop ask (startFollow q)"

definition followGet :: "server \<Rightarrow> string \<Rightarrow> (followState \<times> bool) option" where
  "followGet ask expression = followQueue ask (snd (Add expression newContinuationQueue))"

text \<open>A push: its pointers are queued (the first base found is the base of the subtree), its own range
  is marked covered, and the rest is fetched; \<open>None\<close> when there is nothing to fetch.\<close>

definition pushPointer :: "NodePointer \<Rightarrow> continuationQueue \<times> string \<Rightarrow> continuationQueue \<times> string" where
  "pushPointer p qb =
     (case p of
        PointerAbsolute e \<Rightarrow>
          let (added, q) = Add e (fst qb)
          in (q, if added \<and> snd qb = [] then fst (SplitResumeSuffix e) else snd qb)
      | _ \<Rightarrow> qb)"

fun pushNodes :: "Node list \<Rightarrow> continuationQueue \<times> string \<Rightarrow> continuationQueue \<times> string" where
  "pushNodes [] qb = qb"
| "pushNodes (n # ns) qb = pushNodes ns (pushPointer (nd_NextSibling n) (pushPointer (nd_FirstChild n) qb))"

definition pushQueue :: "Node list \<Rightarrow> continuationQueue option" where
  "pushQueue ns =
     (let (q, base) = pushNodes ns (newContinuationQueue, [])
      in if base = [] then None else Some (MarkCovered (base @ ''@0'') (int (length ns)) q))"

definition handlePush :: "server \<Rightarrow> Node list \<Rightarrow> (followState \<times> bool) option option" where
  "handlePush ask ns = map_option (followQueue ask) (pushQueue ns)"

section \<open>Following ends\<close>

text \<open>What following a pointer does, and what a list of nodes adds up to.\<close>

fun absolutes :: "NodePointer list \<Rightarrow> string list" where
  "absolutes [] = []"
| "absolutes (PointerAbsolute e # ps) = e # absolutes ps"
| "absolutes (_ # ps) = absolutes ps"

definition pointers :: "Node list \<Rightarrow> NodePointer list" where
  "pointers ns = concat (map (\<lambda>n. [nd_FirstChild n, nd_NextSibling n]) ns)"

lemma followNodes_fold: "followNodes ns st = fold followPointer (pointers ns) st"
  by (induction ns arbitrary: st) (auto simp: pointers_def)

definition budget :: "followState \<Rightarrow> nat" where
  "budget st = length (cq_pending (fs_queue st)) + (maxFollowups - fs_followups st)"

text \<open>Following pointers keeps the budget of fetches, whatever they are.\<close>

lemma followPointer_budget:
  assumes "fs_followups st \<le> maxFollowups"
  shows "fs_followups (followPointer p st) \<le> maxFollowups" "budget (followPointer p st) = budget st"
    and "fs_log (followPointer p st) = fs_log st"
proof -
  obtain b q where add: "Add e (fs_queue st) = (b, q)" if "p = PointerAbsolute e" for e
    using that by (cases p) (force intro: that)+
  show "fs_followups (followPointer p st) \<le> maxFollowups" "budget (followPointer p st) = budget st"
    "fs_log (followPointer p st) = fs_log st"
    using assms Add_length [OF add]
    by (cases p; auto simp: followPointer_def budget_def add Let_def split: prod.splits)+
qed

lemma followNodes_budget:
  assumes "fs_followups st \<le> maxFollowups"
  shows "fs_followups (followNodes ns st) \<le> maxFollowups" "budget (followNodes ns st) = budget st"
    and "fs_log (followNodes ns st) = fs_log st"
proof -
  have "fs_followups (fold followPointer ps st) \<le> maxFollowups \<and>
      budget (fold followPointer ps st) = budget st \<and> fs_log (fold followPointer ps st) = fs_log st" for ps
    using assms by (induction ps arbitrary: st) (simp_all add: followPointer_budget)
  then show "fs_followups (followNodes ns st) \<le> maxFollowups" "budget (followNodes ns st) = budget st"
    "fs_log (followNodes ns st) = fs_log st" by (simp_all add: followNodes_fold)
qed

lemma followPointer_step:
  assumes "queue_ok busy (fs_queue st)" "fs_followups st \<le> maxFollowups"
  shows "queue_ok busy (fs_queue (followPointer p st))" "fs_followups (followPointer p st) \<le> maxFollowups"
    and "budget (followPointer p st) = budget st" "fs_log (followPointer p st) = fs_log st"
    and "cq_covered (fs_queue (followPointer p st)) = cq_covered (fs_queue st)"
    and "cq_seen (fs_queue (followPointer p st)) \<union> set (fs_dropped (followPointer p st)) =
           cq_seen (fs_queue st) \<union> set (fs_dropped st) \<union> set (absolutes [p])"
    and "cq_seen (fs_queue (followPointer p st)) \<subseteq> cq_seen (fs_queue st) \<union> set (absolutes [p])"
    and "\<exists>more. fs_dropped (followPointer p st) = fs_dropped st @ more"
proof -
  obtain b q where add: "Add e (fs_queue st) = (b, q)" if "p = PointerAbsolute e" for e
    using that by (cases p) (force intro: that)+
  show "queue_ok busy (fs_queue (followPointer p st))" "fs_followups (followPointer p st) \<le> maxFollowups"
    and "budget (followPointer p st) = budget st" "fs_log (followPointer p st) = fs_log st"
    and "cq_covered (fs_queue (followPointer p st)) = cq_covered (fs_queue st)"
    and "cq_seen (fs_queue (followPointer p st)) \<union> set (fs_dropped (followPointer p st)) =
           cq_seen (fs_queue st) \<union> set (fs_dropped st) \<union> set (absolutes [p])"
    and "cq_seen (fs_queue (followPointer p st)) \<subseteq> cq_seen (fs_queue st) \<union> set (absolutes [p])"
    and "\<exists>more. fs_dropped (followPointer p st) = fs_dropped st @ more"
    using assms Add_ok [OF assms(1) add]
    by (cases p; auto simp: followPointer_def budget_def add Let_def split: prod.splits)+
qed

lemma absolutes_append: "absolutes (ps @ qs) = absolutes ps @ absolutes qs"
  by (induction ps rule: absolutes.induct) auto

definition followed :: "string set \<Rightarrow> string list \<Rightarrow> followState \<Rightarrow> followState \<Rightarrow> bool" where
  "followed busy es st st' \<longleftrightarrow> queue_ok busy (fs_queue st') \<and> fs_followups st' \<le> maxFollowups \<and>
     budget st' = budget st \<and> fs_log st' = fs_log st \<and>
     cq_covered (fs_queue st') = cq_covered (fs_queue st) \<and>
     cq_seen (fs_queue st') \<union> set (fs_dropped st') = cq_seen (fs_queue st) \<union> set (fs_dropped st) \<union> set es \<and>
     cq_seen (fs_queue st') \<subseteq> cq_seen (fs_queue st) \<union> set es \<and>
     cq_seen (fs_queue st) \<subseteq> cq_seen (fs_queue st') \<and> (\<exists>more. fs_dropped st' = fs_dropped st @ more)"

lemma followPointer_followed:
  assumes "queue_ok busy (fs_queue st)" "fs_followups st \<le> maxFollowups"
  shows "followed busy (absolutes [p]) st (followPointer p st)"
proof -
  have "cq_seen (fs_queue st) \<subseteq> cq_seen (fs_queue (followPointer p st))"
  proof (cases p)
    case (PointerAbsolute e)
    obtain b q where "Add e (fs_queue st) = (b, q)" by fastforce
    with Add_ok(3) [OF assms(1) this] PointerAbsolute show ?thesis
      by (auto simp: followPointer_def Let_def)
  qed (simp_all add: followPointer_def)
  with followPointer_step [OF assms, of p] show ?thesis unfolding followed_def by blast
qed

lemma followed_trans:
  "followed busy es st st1 \<Longrightarrow> followed busy fs st1 st2 \<Longrightarrow> followed busy (es @ fs) st st2"
  unfolding followed_def by (elim conjE exE, intro conjI) (auto simp: Un_assoc)

lemma followNodes_followed:
  assumes "queue_ok busy (fs_queue st)" "fs_followups st \<le> maxFollowups"
  shows "followed busy (absolutes (pointers ns)) st (followNodes ns st)"
proof -
  have "followed busy (absolutes ps) st (fold followPointer ps st)" for ps
    using assms
  proof (induction ps arbitrary: st)
    case Nil
    then show ?case by (simp add: followed_def)
  next
    case (Cons p ps)
    have 1: "followed busy (absolutes [p]) st (followPointer p st)"
      by (rule followPointer_followed [OF Cons.prems])
    then have "followed busy (absolutes ps) (followPointer p st) (fold followPointer (p # ps) st)"
      using Cons.IH unfolding followed_def by auto
    from followed_trans [OF 1 this] show ?case using absolutes_append [of "[p]" ps] by simp
  qed
  then show ?thesis by (simp add: followNodes_fold)
qed

text \<open>One fetch: the state after the answer \<open>ns\<close> to the expression \<open>x\<close>.\<close>

definition fetched :: "string \<Rightarrow> Node list \<Rightarrow> continuationQueue \<Rightarrow> followState \<Rightarrow> followState" where
  "fetched x ns q st = followNodes ns
     (st\<lparr>fs_queue := MarkCovered x (int (length ns)) q, fs_log := fs_log st @ [(x, ns)]\<rparr>)"

lemma followLoop_cases:
  assumes "Next (fs_queue st) = (r, q)"
  shows "followLoop ask st = (case r of
     None \<Rightarrow> Some (st\<lparr>fs_queue := q\<rparr>, True)
   | Some x \<Rightarrow> (case ask (length (fs_log st)) x of
        None \<Rightarrow> Some (st\<lparr>fs_queue := q\<rparr>, False)
      | Some ns \<Rightarrow> followLoop ask (fetched x ns q st)))"
  by (subst followLoop.simps) (simp add: assms fetched_def split: option.split)

lemma MarkCovered_zero [simp]: "MarkCovered x 0 q = q"
  by (simp add: MarkCovered_def)

lemma MarkCovered_fields [simp]:
  "cq_seen (MarkCovered x n q) = cq_seen q" "cq_pending (MarkCovered x n q) = cq_pending q"
  by (simp_all add: MarkCovered_def split_beta)

lemma fetched_budget:
  assumes "fs_followups st \<le> maxFollowups" "Next (fs_queue st) = (Some x, q)"
  shows "fs_followups (fetched x ns q st) \<le> maxFollowups" "budget (fetched x ns q st) < budget st"
    and "fs_log (fetched x ns q st) = fs_log st @ [(x, ns)]"
  unfolding fetched_def using assms(1) Next_length [OF assms(2)]
  by (simp_all add: followNodes_budget) (simp add: budget_def)

lemma fetched_step:
  assumes ok: "queue_ok B (fs_queue st)" "fs_followups st \<le> maxFollowups"
    and nxt: "Next (fs_queue st) = (Some x, q)" and fits: "range_end_fits x (int (length ns))"
  shows "followed (if ns = [] then insert x B else B) (absolutes (pointers ns))
      (st\<lparr>fs_queue := MarkCovered x (int (length ns)) q, fs_log := fs_log st @ [(x, ns)]\<rparr>) (fetched x ns q st)"
proof -
  let ?st = "st\<lparr>fs_queue := MarkCovered x (int (length ns)) q, fs_log := fs_log st @ [(x, ns)]\<rparr>"
  have q: "queue_ok (insert x B) q" "length (cq_pending q) < length (cq_pending (fs_queue st))"
    using Next_ok [OF ok(1) nxt] by auto
  have "queue_ok (if ns = [] then insert x B else B) (fs_queue ?st)"
    using q(1) MarkCovered_ok [OF q(1) _ fits] by (simp add: MarkCovered_zero)
  then show "followed (if ns = [] then insert x B else B) (absolutes (pointers ns)) ?st (fetched x ns q st)"
    unfolding fetched_def using ok(2) by (intro followNodes_followed) simp_all
qed

lemma followLoop_ends:
  assumes "fs_followups st \<le> maxFollowups"
  shows "\<exists>st' ok. followLoop ask st = Some (st', ok) \<and>
    length (fs_log st') \<le> length (fs_log st) + budget st"
  using assms
proof (induction "budget st" arbitrary: st rule: less_induct)
  case less
  obtain r q where nxt: "Next (fs_queue st) = (r, q)" by fastforce
  note eq = followLoop_cases [OF nxt, of ask]
  show ?case
  proof (cases r)
    case None
    with eq show ?thesis by (intro exI [of _ "st\<lparr>fs_queue := q\<rparr>"] exI [of _ True]) simp
  next
    case (Some x)
    note nxt' = nxt [unfolded Some]
    show ?thesis
    proof (cases "ask (length (fs_log st)) x")
      case None
      with eq Some show ?thesis by (intro exI [of _ "st\<lparr>fs_queue := q\<rparr>"] exI [of _ False]) simp
    next
      case ask: (Some ns)
      note step = fetched_budget [OF less.prems nxt', of ns]
      have "\<exists>st' ok. followLoop ask (fetched x ns q st) = Some (st', ok) \<and>
          length (fs_log st') \<le> length (fs_log (fetched x ns q st)) + budget (fetched x ns q st)"
        by (rule less.hyps [OF step(2,1)])
      then show ?thesis using eq Some ask step(2,3) by fastforce
    qed
  qed
qed

end
