(* ===== verification/Client_Paging.thy ===== *)
theory Client_Paging
  imports Client_Follow Paging
begin

text \<open>
  Following continuations against a server that pages one result array: what has been fetched, what
  is still pending, and why nothing is left out.
\<close>

section \<open>The continuations of a page\<close>

lemma absolutes_set: "set (absolutes ps) = {e. PointerAbsolute e \<in> set ps}"
  by (induction ps rule: absolutes.induct) auto

lemma page_absolutes:
  assumes "length (flats ms) < 2 ^ 63" "r + n \<le> length (flats ms)"
  shows "e \<in> set (absolutes (pointers (fixupWindow (flats ms) r n base))) \<Longrightarrow>
      \<exists>j. e = continuation base j \<and> r + n \<le> j \<and> j < length (flats ms)"
    and "i < n \<Longrightarrow> leads (flats ms ! (r + i)) d \<Longrightarrow> 0 < d \<Longrightarrow> r + n \<le> r + i + d \<Longrightarrow>
      r + i + d < length (flats ms) \<Longrightarrow>
      continuation base (r + i + d) \<in> set (absolutes (pointers (fixupWindow (flats ms) r n base)))"
proof -
  let ?w = "fixupWindow (flats ms) r n base"
  have nth: "?w ! i = fixupNode (r + i) (r + n) base (flats ms ! (r + i))" if "i < n" for i
    using window_nth [OF assms(2) that] .
  have len: "length ?w = n" by (rule length_fixupWindow [OF assms(2)])
  have ptr: "p \<in> set (pointers ?w) \<longleftrightarrow> (\<exists>i < n. p \<in> {nd_FirstChild (?w ! i), nd_NextSibling (?w ! i)})" for p
    by (auto simp: pointers_def in_set_conv_nth len) (metis len nth_mem)+
  {
    assume "e \<in> set (absolutes (pointers ?w))"
    then obtain i where i: "i < n" "PointerAbsolute e \<in> {nd_FirstChild (?w ! i), nd_NextSibling (?w ! i)}"
      unfolding absolutes_set by (auto simp: ptr)
    have fwd: "forward (length (flats ms)) (r + i) (nd_FirstChild (flats ms ! (r + i)))"
      "forward (length (flats ms)) (r + i) (nd_NextSibling (flats ms ! (r + i)))"
      using flat_forward(2) [of "r + i" ms] i(1) assms(2) by (simp_all add: length_flats)
    obtain d where d: "PointerAbsolute e = fixupPointer (r + i) (r + n) base (offset d)"
      "r + i + d < length (flats ms)"
      using i(2) fwd unfolding nth [OF i(1)] forward_def by auto
    with fixup_offset [of "r + i" d "r + n" base] assms(1)
    show "\<exists>j. e = continuation base j \<and> r + n \<le> j \<and> j < length (flats ms)"
      by (intro exI [of _ "r + i + d"]) (auto simp: offset_def split: if_splits)
  next
    assume i: "i < n" "leads (flats ms ! (r + i)) d" "0 < d" "r + n \<le> r + i + d"
      "r + i + d < length (flats ms)"
    have "fixupPointer (r + i) (r + n) base (offset d) = PointerAbsolute (continuation base (r + i + d))"
      using fixup_offset [of "r + i" d "r + n" base] i assms(1) by simp
    then have "PointerAbsolute (continuation base (r + i + d)) \<in> {nd_FirstChild (?w ! i), nd_NextSibling (?w ! i)}"
      using i(2) unfolding nth [OF i(1)] leads_def by auto
    then show "continuation base (r + i + d) \<in> set (absolutes (pointers ?w))"
      unfolding absolutes_set using ptr i(1) by blast
  }
qed

section \<open>The invariant\<close>

text \<open>A server that answers every continuation of \<open>base\<close> with a page, not empty before the end.\<close>

definition serves_pages :: "string \<Rightarrow> Node list \<Rightarrow> server \<Rightarrow> bool" where
  "serves_pages base xs ask \<longleftrightarrow> (\<forall>k x r. SplitResumeSuffix x = (base, int r) \<and> r < length xs \<longrightarrow>
     (\<exists>n. 0 < n \<and> r + n \<le> length xs \<and> ask k x = Some (fixupWindow xs r n base)))"

definition page_of :: "string \<Rightarrow> Node list \<Rightarrow> string \<times> Node list \<Rightarrow> nat \<Rightarrow> bool" where
  "page_of base xs entry r \<longleftrightarrow> SplitResumeSuffix (fst entry) = (base, int r) \<and>
     0 < length (snd entry) \<and> r + length (snd entry) \<le> length xs \<and>
     snd entry = fixupWindow xs r (length (snd entry)) base"

definition page_delivered :: "string \<Rightarrow> (string \<times> Node list) list \<Rightarrow> nat \<Rightarrow> bool" where
  "page_delivered base log i \<longleftrightarrow>
     (\<exists>(x, ns) \<in> set log. \<exists>r. SplitResumeSuffix x = (base, int r) \<and> r \<le> i \<and> i < r + length ns)"

definition paged :: "string \<Rightarrow> vtree list \<Rightarrow> followState \<Rightarrow> bool" where
  "paged base ms st \<longleftrightarrow> queue_ok {} (fs_queue st) \<and> fs_followups st \<le> maxFollowups \<and>
     (\<forall>x \<in> cq_seen (fs_queue st). \<exists>r < length (flats ms). SplitResumeSuffix x = (base, int r)) \<and>
     (\<forall>entry \<in> set (fs_log st). \<exists>r. page_of base (flats ms) entry r) \<and>
     (\<forall>i. isCovered (fs_queue st) base (int i) \<longrightarrow> page_delivered base (fs_log st) i) \<and>
     (\<forall>entry \<in> set (fs_log st). set (absolutes (pointers (snd entry))) \<subseteq>
        cq_seen (fs_queue st) \<union> set (fs_dropped st)) \<and>
     (\<exists>x. (x \<in> cq_seen (fs_queue st) \<or> x \<in> fst ` set (fs_log st)) \<and> SplitResumeSuffix x = (base, 0))"

lemma page_delivered_append:
  "page_delivered base (log @ [(x, ns)]) i \<longleftrightarrow> page_delivered base log i \<or>
     (\<exists>r. SplitResumeSuffix x = (base, int r) \<and> r \<le> i \<and> i < r + length ns)"
  by (auto simp: page_delivered_def)

text \<open>With nothing pending and nothing dropped, every entry has been delivered.\<close>

lemma paged_complete:
  assumes st: "paged base ms st" and N: "length (flats ms) < 2 ^ 63"
    and plain: "resume_plain base"
    and fin: "cq_pending (fs_queue st) = []" "fs_dropped st = []" and i: "i < length (flats ms)"
  shows "page_delivered base (fs_log st) i"
  using i
proof (induction i rule: less_induct)
  case (less i)
  have ok: "queue_ok {} (fs_queue st)"
    and cov: "isCovered (fs_queue st) base (int j) \<Longrightarrow> page_delivered base (fs_log st) j" for j
    using st by (simp_all add: paged_def)
  have seen: "page_delivered base (fs_log st) j"
    if "x \<in> cq_seen (fs_queue st)" "SplitResumeSuffix x = (base, int j)" for x j
    using ok that fin(1) cov by (auto simp: queue_ok_def exprCovered_def)
  show ?case
  proof (cases "i = 0")
    case True
    obtain x where x: "x \<in> cq_seen (fs_queue st) \<or> x \<in> fst ` set (fs_log st)" "SplitResumeSuffix x = (base, 0)"
      using st by (auto simp: paged_def)
    show ?thesis
    proof (cases "x \<in> cq_seen (fs_queue st)")
      case in_seen: True
      with seen [of x 0] x(2) True show ?thesis by simp
    next
      case False
      then obtain ns where "(x, ns) \<in> set (fs_log st)" using x(1) by auto
      moreover from this have "ns \<noteq> []" using st by (auto simp: paged_def page_of_def)
      ultimately show ?thesis unfolding page_delivered_def True using x(2) by (force intro!: bexI [of _ "(x, ns)"])
    qed
  next
    case False
    then obtain j where j: "j < i" "leads (flats ms ! j) (i - j)"
      using flat_referenced(2) [of i ms] less.prems by (auto simp: length_flats)
    have "page_delivered base (fs_log st) j" using less j(1) by simp
    then obtain x ns r where ns: "(x, ns) \<in> set (fs_log st)" "SplitResumeSuffix x = (base, int r)"
      "r \<le> j" "j < r + length ns" by (auto simp: page_delivered_def)
    then have page: "ns = fixupWindow (flats ms) r (length ns) base" "r + length ns \<le> length (flats ms)"
      using st by (fastforce simp: paged_def page_of_def)+
    show ?thesis
    proof (cases "i < r + length ns")
      case True
      with ns j(1) show ?thesis unfolding page_delivered_def by (force intro!: bexI [of _ "(x, ns)"])
    next
      case False
      have "r + (j - r) + (i - j) = i" "j - r < length ns" using ns(3,4) j(1) by auto
      with page_absolutes(2) [OF N page(2), of "j - r" "i - j" base] j False less.prems ns(3)
      have "continuation base i \<in> set (absolutes (pointers (fixupWindow (flats ms) r (length ns) base)))"
        by simp
      then have "continuation base i \<in> cq_seen (fs_queue st)"
        using st ns(1) page(1) fin(2) unfolding paged_def by fastforce
      moreover have "SplitResumeSuffix (continuation base i) = (base, int i)"
        using plain N less.prems by (intro SplitResumeSuffix_plain(2)) auto
      ultimately show ?thesis by (rule seen)
    qed
  qed
qed

section \<open>Following keeps the invariant\<close>

lemma paged_next:
  assumes st: "paged base ms st" and nxt: "Next (fs_queue st) = (None, q)"
  shows "paged base ms (st\<lparr>fs_queue := q\<rparr>)" "cq_pending q = []"
proof -
  have "cq_covered q = cq_covered (fs_queue st)" "cq_seen q = cq_seen (fs_queue st)" "queue_ok {} q"
    "cq_pending q = []"
    using Next_ok [OF _ nxt, of "{}"] st by (auto simp: paged_def)
  then show "paged base ms (st\<lparr>fs_queue := q\<rparr>)" "cq_pending q = []"
    using st by (simp_all add: paged_def isCovered_def)
qed

lemma paged_fetched:
  assumes st: "paged base ms st" and N: "length (flats ms) < 2 ^ 63"
    and plain: "resume_plain base"
    and nxt: "Next (fs_queue st) = (Some x, q)" and x: "SplitResumeSuffix x = (base, int r)"
    and n: "0 < n" "r + n \<le> length (flats ms)"
  shows "paged base ms (fetched x (fixupWindow (flats ms) r n base) q st)"
proof -
  let ?ns = "fixupWindow (flats ms) r n base"
  have len: "length ?ns = n" by (rule length_fixupWindow [OF n(2)])
  have ok: "queue_ok {} (fs_queue st)" "fs_followups st \<le> maxFollowups" using st by (simp_all add: paged_def)
  have q: "cq_covered q = cq_covered (fs_queue st)" "cq_seen q = cq_seen (fs_queue st)"
    using Next_ok [OF ok(1) nxt] by auto
  have ne: "?ns \<noteq> []" using len n(1) by auto
  have fits: "range_end_fits x (int (length ?ns))" using x len n(2) N by (simp add: range_end_fits_def)
  let ?st = "st\<lparr>fs_queue := MarkCovered x (int (length ?ns)) q, fs_log := fs_log st @ [(x, ?ns)]\<rparr>"
  have f: "followed {} (absolutes (pointers ?ns)) ?st (fetched x ?ns q st)"
    using fetched_step [OF ok nxt fits] ne by simp
  let ?u = "fetched x ?ns q st"
  have log: "fs_log ?u = fs_log st @ [(x, ?ns)]" using f by (simp add: followed_def)
  have seen: "cq_seen (fs_queue ?u) \<subseteq> cq_seen (fs_queue st) \<union> set (absolutes (pointers ?ns))"
    "cq_seen (fs_queue st) \<subseteq> cq_seen (fs_queue ?u)"
    "cq_seen (fs_queue st) \<union> set (fs_dropped st) \<union> set (absolutes (pointers ?ns)) \<subseteq>
       cq_seen (fs_queue ?u) \<union> set (fs_dropped ?u)"
    using f q(2) by (auto simp: followed_def)
  have new: "\<exists>j < length (flats ms). SplitResumeSuffix e = (base, int j)"
    if mem: "e \<in> set (absolutes (pointers ?ns))" for e
  proof -
    obtain j where "e = continuation base j" "j < length (flats ms)"
      using page_absolutes(1) [OF N n(2) mem] by blast
    with plain N show ?thesis using SplitResumeSuffix_plain(2) [of base j] by auto
  qed
  have cov: "isCovered (fs_queue ?u) base (int i) \<longleftrightarrow>
      isCovered (fs_queue st) base (int i) \<or> (r \<le> i \<and> i < r + n)" for i
  proof -
    have "isCovered (fs_queue ?u) base (int i) = isCovered (MarkCovered x (int n) q) base (int i)"
      using f len by (simp add: followed_def isCovered_def)
    moreover have "isCovered q base (int i) = isCovered (fs_queue st) base (int i)"
      by (simp add: isCovered_def q(1))
    ultimately show ?thesis using n(1) x fits by (auto simp: MarkCovered_covers len)
  qed
  have A: "queue_ok {} (fs_queue ?u)" "fs_followups ?u \<le> maxFollowups"
    using f by (simp_all add: followed_def)
  have B: "\<forall>y \<in> cq_seen (fs_queue ?u). \<exists>r < length (flats ms). SplitResumeSuffix y = (base, int r)"
    using st seen(1) new unfolding paged_def by blast
  have C: "\<forall>entry \<in> set (fs_log ?u). \<exists>r. page_of base (flats ms) entry r"
    using st x n len unfolding log by (auto simp: paged_def page_of_def)
  have D: "\<forall>i. isCovered (fs_queue ?u) base (int i) \<longrightarrow> page_delivered base (fs_log ?u) i"
    using st x len unfolding cov log page_delivered_append by (auto simp: paged_def)
  have E: "\<forall>entry \<in> set (fs_log ?u). set (absolutes (pointers (snd entry))) \<subseteq>
      cq_seen (fs_queue ?u) \<union> set (fs_dropped ?u)"
  proof
    fix entry
    assume entry: "entry \<in> set (fs_log ?u)"
    show "set (absolutes (pointers (snd entry))) \<subseteq> cq_seen (fs_queue ?u) \<union> set (fs_dropped ?u)"
    proof (cases "entry = (x, ?ns)")
      case True
      with seen(3) show ?thesis by simp
    next
      case False
      then have "entry \<in> set (fs_log st)" using entry unfolding log by simp
      then have "set (absolutes (pointers (snd entry))) \<subseteq> cq_seen (fs_queue st) \<union> set (fs_dropped st)"
        using st unfolding paged_def by blast
      with seen(3) show ?thesis by blast
    qed
  qed
  obtain y where "y \<in> cq_seen (fs_queue st) \<or> y \<in> fst ` set (fs_log st)" "SplitResumeSuffix y = (base, 0)"
    using st unfolding paged_def by blast
  with seen(2) have F: "\<exists>y. (y \<in> cq_seen (fs_queue ?u) \<or> y \<in> fst ` set (fs_log ?u)) \<and>
      SplitResumeSuffix y = (base, 0)"
    unfolding log by (intro exI [of _ y]) auto
  show ?thesis unfolding paged_def by (intro conjI A B C D E F)
qed

lemma followLoop_paged:
  assumes N: "length (flats ms) < 2 ^ 63" and plain: "resume_plain base"
    and ask: "serves_pages base (flats ms) ask"
  shows "paged base ms st \<Longrightarrow> \<exists>st'. followLoop ask st = Some (st', True) \<and> paged base ms st' \<and>
    cq_pending (fs_queue st') = []"
proof (induction "budget st" arbitrary: st rule: less_induct)
  case less
  obtain r q where nxt: "Next (fs_queue st) = (r, q)" by fastforce
  note eq = followLoop_cases [OF nxt, of ask]
  have ok: "queue_ok {} (fs_queue st)" "fs_followups st \<le> maxFollowups"
    using less.prems by (simp_all add: paged_def)
  show ?case
  proof (cases r)
    case None
    with eq paged_next [OF less.prems nxt [unfolded None]] show ?thesis by auto
  next
    case (Some x)
    note nxt' = nxt [unfolded Some]
    have "x \<in> cq_seen (fs_queue st)" using Next_ok [OF ok(1) nxt'] by simp
    then obtain i where i: "SplitResumeSuffix x = (base, int i)" "i < length (flats ms)"
      using less.prems by (auto simp: paged_def)
    then obtain n where n: "0 < n" "i + n \<le> length (flats ms)"
      "ask (length (fs_log st)) x = Some (fixupWindow (flats ms) i n base)"
      using ask unfolding serves_pages_def by blast
    let ?ns = "fixupWindow (flats ms) i n base"
    have "paged base ms (fetched x ?ns q st)"
      by (rule paged_fetched [OF less.prems N plain nxt' i(1) n(1,2)])
    from less.hyps [OF fetched_budget(2) [OF ok(2) nxt'] this] eq Some n(3) show ?thesis by simp
  qed
qed

text \<open>Where following starts: the expression itself, or the pointers of a pushed first page.\<close>

lemma paged_start:
  assumes "resume_plain base" "flats ms \<noteq> []"
  shows "paged base ms (startFollow (snd (Add base newContinuationQueue)))"
proof -
  obtain b q where add: "Add base newContinuationQueue = (b, q)" by fastforce
  note a = Add_ok [OF new_queue_ok add]
  have "SplitResumeSuffix base = (base, 0)" using assms by (intro SplitResumeSuffix_plain(1))
  moreover have "cq_seen q = {base}" "\<not> isCovered q base i" for i
    using a(2,3) by (simp_all add: newContinuationQueue_def isCovered_def)
  moreover have "0 < length (flats ms)" using assms(2) by simp
  ultimately show ?thesis
    using a(1) unfolding paged_def startFollow_def add snd_conv followState.simps by fastforce
qed

end
