(* ===== verification/Client_Properties.thy ===== *)
theory Client_Properties
  imports Client_Paging
begin

text \<open>The properties of the client's following of continuations.\<close>

lemma pushNodes_length:
  "length (cq_pending (fst (pushNodes ns qb))) \<le> length (cq_pending (fst qb)) + 2 * length ns"
proof (induction ns arbitrary: qb)
  case (Cons n ns)
  have step: "length (cq_pending (fst (pushPointer p qb))) \<le> length (cq_pending (fst qb)) + 1" for p qb
  proof (cases p)
    case (PointerAbsolute e)
    obtain b q where "Add e (fst qb) = (b, q)" by fastforce
    with PointerAbsolute Add_length [OF this] show ?thesis by (simp add: pushPointer_def Let_def)
  qed (simp_all add: pushPointer_def)
  from Cons.IH [of "pushPointer (nd_NextSibling n) (pushPointer (nd_FirstChild n) qb)"]
    step [of "nd_NextSibling n" "pushPointer (nd_FirstChild n) qb"] step [of "nd_FirstChild n" qb]
  show ?case by simp
qed simp

lemma pushQueue_length: "pushQueue ns = Some q \<Longrightarrow> length (cq_pending q) \<le> 2 * length ns"
  using pushNodes_length [of ns "(newContinuationQueue, [])"]
  by (auto simp: pushQueue_def newContinuationQueue_def split: prod.splits if_splits)

lemma followQueue_ends:
  "\<exists>st ok. followQueue ask q = Some (st, ok) \<and> length (fs_log st) \<le> length (cq_pending q) + maxFollowups"
  using followLoop_ends [of "startFollow q" ask]
  by (simp add: followQueue_def startFollow_def budget_def)

text \<open>C32. Whatever a server answers (cyclic pointers, empty pages, errors), following the continuations of
  a get or of a push ends, after at most 50 fetches beyond those it started with.\<close>

theorem following_ends:
  "(\<exists>st ok. followGet ask e = Some (st, ok) \<and> length (fs_log st) \<le> 51) \<and>
   (case handlePush ask ns of
      None \<Rightarrow> pushQueue ns = None
    | Some r \<Rightarrow> \<exists>st ok. r = Some (st, ok) \<and> length (fs_log st) \<le> 2 * length ns + 50)"
proof
  obtain b q where add: "Add e newContinuationQueue = (b, q)" by fastforce
  have "length (cq_pending q) \<le> 1"
    using Add_length [OF add] by (cases b) (simp_all add: newContinuationQueue_def)
  with followQueue_ends [of ask q]
  show "\<exists>st ok. followGet ask e = Some (st, ok) \<and> length (fs_log st) \<le> 51"
    by (fastforce simp: followGet_def add maxFollowups_def)
  show "case handlePush ask ns of None \<Rightarrow> pushQueue ns = None
    | Some r \<Rightarrow> \<exists>st ok. r = Some (st, ok) \<and> length (fs_log st) \<le> 2 * length ns + 50"
  proof (cases "pushQueue ns")
    case (Some q)
    with followQueue_ends [of ask q] pushQueue_length [OF Some] show ?thesis
      by (fastforce simp: handlePush_def maxFollowups_def)
  qed (simp add: handlePush_def)
qed

end
