(* ===== verification/Session.thy ===== *)
theory Session
  imports Sender Codec Tree_Edit Flatten Query_Runner
begin

text \<open>
  The state of one server session and the operations its handlers share (\<open>internal/server/server.go\<close>):
  datagram sizes, sequence numbers, sending, the response cache, fitting a result into a datagram and
  recording errors. A \<open>host\<close> is the server's tree, one session and the datagrams handed to the
  connection so far, with what the connection answered. Locks are left out: an operation is one step.
\<close>

section \<open>State\<close>

text \<open>Times are nanoseconds since 1970; \<open>time.Time\{\}\<close> is the first of January of year 1.\<close>

definition zeroTime :: int where "zeroTime = - 62135596800 * 10 ^ 9"

record cachedResponse =
  cd_resp :: Response
  cd_at :: int

record respRecord =
  rr_seq :: i64
  rr_at :: int

text \<open>\<open>sessionResultSink\<close> without its back pointer to the session.\<close>

record resultSink =
  sk_resultsNode :: nat
  sk_resultsPath :: string
  sk_lastTS :: int

text \<open>A running query: its runner and sink, and whether its goroutine has begun.\<close>

record activeQuery =
  aq_runner :: Runner
  aq_sink :: resultSink
  aq_started :: bool

record Session =
  ss_ID :: string
  ss_auth :: checker
  newNodesPath :: nat
  errorsPath :: nat
  queryResultsPath :: nat
  ss_sender :: Sender
  ss_receiver :: Receiver
  nextSeq :: i64
  respCache :: "i64 \<Rightarrow> cachedResponse option"
  respOrder :: "respRecord list"
  respHead :: nat
  activeQueries :: "(i64 \<times> activeQuery) list"
  queryResultNodes :: "(i64 \<times> nat) list"
  overrideSize :: int
  maxDatagramSize :: int

text \<open>What \<open>SendDatagram\<close> returns: no error, a \<open>DatagramTooLargeError\<close> with the limit, another error.\<close>

datatype sendResult = SendOk | DatagramTooLarge int | SendFailed

record host =
  h_tree :: Tree
  h_sess :: Session
  h_sent :: "(byte list \<times> sendResult) list"

text \<open>
  The parameters: the connection (its answer to the \<open>n\<close>-th datagram), the regular expression compiler,
  the rendering of reals, error texts and times, and floating-point arithmetic.
\<close>

record env =
  env_net :: "nat \<Rightarrow> byte list \<Rightarrow> sendResult"
  env_compile :: compiler
  env_real :: "f64 \<Rightarrow> string"
  env_error :: "tree_error \<Rightarrow> string"
  env_query_error :: "query_error \<Rightarrow> string"
  env_time :: "int \<Rightarrow> string"
  env_float :: float_ops

definition on_sess :: "(Session \<Rightarrow> Session) \<Rightarrow> host \<Rightarrow> host" where
  "on_sess f h = h\<lparr>h_sess := f (h_sess h)\<rparr>"

definition sess_auth :: "Session \<Rightarrow> auth" where
  "sess_auth s = Some (Allowed (ss_auth s))"

section \<open>Sizes and sequence numbers\<close>

definition getMaxDatagramSize :: "Session \<Rightarrow> int" where
  "getMaxDatagramSize s = (if overrideSize s > 0 then overrideSize s else maxDatagramSize s)"

definition setMaxDatagramSize :: "int \<Rightarrow> Session \<Rightarrow> Session" where
  "setMaxDatagramSize n s = (if overrideSize s > 0 then s else s\<lparr>maxDatagramSize := n\<rparr>)"

definition allocSeq :: "Session \<Rightarrow> i64 \<times> Session" where
  "allocSeq s = (nextSeq s + 1, s\<lparr>nextSeq := nextSeq s + 1\<rparr>)"

fun requestSeq :: "Message \<Rightarrow> i64 option" where
  "requestSeq (MsgGet g) = Some (get_SequenceNumber g)"
| "requestSeq (MsgSet s) = Some (set_SequenceNumber s)"
| "requestSeq (MsgCreate c) = Some (cr_SequenceNumber c)"
| "requestSeq (MsgQuery q) = Some (q_SequenceNumber q)"
| "requestSeq (MsgDelete d) = Some (del_SequenceNumber d)"
| "requestSeq _ = None"

section \<open>Sending\<close>

text \<open>\<open>conn.SendDatagram\<close>, and \<open>sender.Send\<close> over it.\<close>

definition sendDatagram :: "env \<Rightarrow> byte list \<Rightarrow> host \<Rightarrow> sendResult \<times> host" where
  "sendDatagram env p h =
     (let r = env_net env (length (h_sent h)) p in (r, h\<lparr>h_sent := h_sent h @ [(p, r)]\<rparr>))"

definition transmit :: "env \<Rightarrow> int \<Rightarrow> i64 \<Rightarrow> byte list \<Rightarrow> host \<Rightarrow> sendResult \<times> host" where
  "transmit env now seq p h =
     (let (snd', p) = Send now seq p (ss_sender (h_sess h))
      in sendDatagram env p (on_sess (\<lambda>s. s\<lparr>ss_sender := snd'\<rparr>) h))"

text \<open>\<open>wire.MarshalMessage\<close>, which always returns (\<open>marshal_refines_ber\<close>).\<close>

definition messageBytes :: "Message \<Rightarrow> byte list" where
  "messageBytes m = (case MarshalMessage m of Ok bs \<Rightarrow> bs | _ \<Rightarrow> [])"

abbreviation responseBytes :: "Response \<Rightarrow> byte list" where
  "responseBytes r \<equiv> messageBytes (MsgResponse r)"

text \<open>\<open>sendResponse\<close> numbers the response, which it is handed by reference.\<close>

definition sendResponse :: "env \<Rightarrow> int \<Rightarrow> Response \<Rightarrow> host \<Rightarrow> Response \<times> host" where
  "sendResponse env now resp h =
     (let (txSeq, s) = allocSeq (h_sess h); resp = resp\<lparr>rs_SequenceNumber := txSeq\<rparr>;
          (_, h) = transmit env now txSeq (responseBytes resp) (h\<lparr>h_sess := s\<rparr>)
      in (resp, h))"

section \<open>The response cache\<close>

definition respCacheTTL :: int where "respCacheTTL = 30 * 10 ^ 9"

text \<open>The expiry loop.\<close>

function expireLoop :: "int \<Rightarrow> Session \<Rightarrow> Session" where
  "expireLoop now s =
     (if respHead s < length (respOrder s) then
        let old = respOrder s ! respHead s in
        if now - rr_at old \<le> respCacheTTL then s
        else
          let s = (case respCache s (rr_seq old) of
                     Some c \<Rightarrow> if cd_at c = rr_at old
                               then s\<lparr>respCache := (respCache s)(rr_seq old := None)\<rparr> else s
                   | None \<Rightarrow> s)
          in expireLoop now (s\<lparr>respOrder := (respOrder s)[respHead s := \<lparr>rr_seq = 0, rr_at = zeroTime\<rparr>],
                               respHead := respHead s + 1\<rparr>)
      else s)"
  by pat_completeness auto
termination
  by (relation "measure (\<lambda>(now, s). length (respOrder s) - respHead s)") (auto split: option.splits)

declare expireLoop.simps [simp del]

definition compactOrder :: "Session \<Rightarrow> Session" where
  "compactOrder s =
     (if respHead s \<ge> 1024 \<and> respHead s * 2 \<ge> length (respOrder s)
      then s\<lparr>respOrder := drop (respHead s) (respOrder s), respHead := 0\<rparr> else s)"

definition cacheResponseAt :: "i64 \<Rightarrow> Response \<Rightarrow> int \<Rightarrow> Session \<Rightarrow> Session" where
  "cacheResponseAt reqSeq resp now s =
     compactOrder (expireLoop now
       (s\<lparr>respCache := (respCache s)(reqSeq \<mapsto> \<lparr>cd_resp = resp, cd_at = now\<rparr>),
          respOrder := respOrder s @ [\<lparr>rr_seq = reqSeq, rr_at = now\<rparr>]\<rparr>))"

definition respondAndCache :: "env \<Rightarrow> int \<Rightarrow> i64 \<Rightarrow> Response \<Rightarrow> host \<Rightarrow> host" where
  "respondAndCache env now reqSeq resp h =
     (let (resp, h) = sendResponse env now resp h
      in on_sess (cacheResponseAt reqSeq resp now) h)"

section \<open>Fitting a result into a datagram\<close>

definition buildResponse :: "i64 \<Rightarrow> i64 \<Rightarrow> Node list \<Rightarrow> Response" where
  "buildResponse txSeq reqSeq ns =
     \<lparr>rs_SequenceNumber = txSeq, rs_InReplyTo = reqSeq, rs_Error = False, rs_ErrorNode = None,
      rs_Nodes = ns\<rparr>"

definition measureResponse :: "i64 \<Rightarrow> i64 \<Rightarrow> Node list \<Rightarrow> int" where
  "measureResponse txSeq reqSeq ns = int (length (responseBytes (buildResponse txSeq reqSeq ns)))"

text \<open>The attempts; the first argument counts those left.\<close>

fun sendAttempts :: "nat \<Rightarrow> env \<Rightarrow> int \<Rightarrow> i64 \<Rightarrow> i64 \<Rightarrow> Node list \<Rightarrow> nat \<Rightarrow> string \<Rightarrow> bool \<Rightarrow> Node list \<Rightarrow>
    host \<Rightarrow> host" where
  "sendAttempts 0 env now txSeq reqSeq xs resumeIndex base cache ns h = h"
| "sendAttempts (Suc k) env now txSeq reqSeq xs resumeIndex base cache ns h =
     (let resp = buildResponse txSeq reqSeq ns;
          (err, h) = transmit env now txSeq (responseBytes resp) h in
      case err of
        SendOk \<Rightarrow> if cache then on_sess (cacheResponseAt reqSeq resp now) h else h
      | SendFailed \<Rightarrow> h
      | DatagramTooLarge limit \<Rightarrow>
          let h = on_sess (\<lambda>s. setMaxDatagramSize limit (s\<lparr>ss_sender := Cancel txSeq (ss_sender s)\<rparr>)) h;
              fitted = fst (FitToSize xs resumeIndex base limit (measureResponse txSeq reqSeq))
          in if length fitted = 0 \<and> length ns > 0 then h
             else sendAttempts k env now txSeq reqSeq xs resumeIndex base cache fitted h)"

definition sendFittedNodes :: "env \<Rightarrow> int \<Rightarrow> i64 \<Rightarrow> Node list \<Rightarrow> nat \<Rightarrow> string \<Rightarrow> bool \<Rightarrow> host \<Rightarrow> host" where
  "sendFittedNodes env now reqSeq xs resumeIndex base cache h =
     (let (txSeq, s) = allocSeq (h_sess h); h = h\<lparr>h_sess := s\<rparr>;
          ns = drop resumeIndex xs; cached = getMaxDatagramSize s in
      if cached > 0 \<and> measureResponse txSeq reqSeq ns > cached then
        let fitted = fst (FitToSize xs resumeIndex base cached (measureResponse txSeq reqSeq)) in
        if length fitted = 0 then h
        else sendAttempts 2 env now txSeq reqSeq xs resumeIndex base cache fitted h
      else sendAttempts 2 env now txSeq reqSeq xs resumeIndex base cache ns h)"

section \<open>Errors\<close>

definition errInvalidExpression :: string where "errInvalidExpression = ''InvalidExpression''"
definition errInvalidSet :: string where "errInvalidSet = ''InvalidSet''"
definition errInvalidDelete :: string where "errInvalidDelete = ''InvalidDelete''"
definition errInvalidCreate :: string where "errInvalidCreate = ''InvalidCreate''"
definition errInvalidQuery :: string where "errInvalidQuery = ''InvalidQuery''"
definition errPermissionDenied :: string where "errPermissionDenied = ''PermissionDenied''"

definition backslash :: string where "backslash = [CHR 0x5C]"

definition recordError :: "string \<Rightarrow> string \<Rightarrow> i64 \<Rightarrow> host \<Rightarrow> NodePointer \<times> host" where
  "recordError code message causeSeq h =
     (let (errNode, t) = AppendUnder (errorsPath (h_sess h)) code ValueNoValue (h_tree h);
          (_, t) = AppendUnder errNode ''message'' (StringValue message) t;
          (_, t) = AppendUnder errNode ''reqSequenceNumber'' (ValueCounter64 causeSeq) t
      in (PointerAbsolute (''/Sessions/Connection-ID'' @ backslash @ ''='' @ ss_ID (h_sess h) @
            ''/Errors/'' @ code),
          h\<lparr>h_tree := t\<rparr>))"

definition respondError :: "env \<Rightarrow> int \<Rightarrow> i64 \<Rightarrow> string \<Rightarrow> string \<Rightarrow> host \<Rightarrow> host" where
  "respondError env now reqSeq code message h =
     (let (errPtr, h) = recordError code message reqSeq h
      in respondAndCache env now reqSeq
           \<lparr>rs_SequenceNumber = 0, rs_InReplyTo = reqSeq, rs_Error = True, rs_ErrorNode = Some errPtr,
            rs_Nodes = []\<rparr> h)"

text \<open>\<open>errors.Is(err, tree.ErrPermissionDenied)\<close> looks through the wrapping.\<close>

fun isPermissionDenied :: "tree_error \<Rightarrow> bool" where
  "isPermissionDenied (PermissionDenied _ _) = True"
| "isPermissionDenied (SubtreeDenied _) = True"
| "isPermissionDenied (InTarget _ e) = isPermissionDenied e"
| "isPermissionDenied (InNewFirstChild e) = isPermissionDenied e"
| "isPermissionDenied (InNewNextSibling e) = isPermissionDenied e"
| "isPermissionDenied (InNewParent e) = isPermissionDenied e"
| "isPermissionDenied (InParent _ e) = isPermissionDenied e"
| "isPermissionDenied _ = False"

definition errCode :: "tree_error \<Rightarrow> string \<Rightarrow> string" where
  "errCode err generic = (if isPermissionDenied err then errPermissionDenied else generic)"

end
