(* ===== verification/Handlers.thy ===== *)
theory Handlers
  imports Session "HOL-Library.List_Lexorder" "HOL-Library.Char_ord"
begin

text \<open>
  The request handlers of a session, its queries, and the dispatch of what arrives
  (\<open>internal/server/server.go\<close>). Everything a handler does is one step at one time \<open>now\<close>;
  a query's goroutine is the events \<open>QueryStart\<close> and \<open>QueryTick\<close>.
\<close>

section \<open>Opening a session\<close>

record Server =
  sv_tree :: Tree
  MaxDatagramSizeOverride :: int
  sv_Policy :: "Policy option"

definition newSession :: "string \<Rightarrow> string \<Rightarrow> Server \<Rightarrow> Session \<times> Server" where
  "newSession peer sid sv =
     (let ident = (if peer = [] then ''anonymous'' else peer);
          (base, t) = EnsurePath [''Sessions'', ''Connection-ID='' @ sid] (sv_tree sv);
          (nn, t) = EnsurePath0 base [''NewNodes''] t;
          (er, t) = EnsurePath0 base [''Errors''] t;
          (qr, t) = EnsurePath0 base [''QueryResults''] t
      in (\<lparr>ss_ID = sid, ss_auth = NewChecker (sv_Policy sv) ident sid,
           newNodesPath = nn, errorsPath = er, queryResultsPath = qr,
           ss_sender = NewSender (250 * 10 ^ 6) 8, ss_receiver = NewReceiver, nextSeq = 0,
           respCache = (\<lambda>_. None), respOrder = [], respHead = 0,
           activeQueries = [], queryResultNodes = [],
           overrideSize = MaxDatagramSizeOverride sv, maxDatagramSize = 0\<rparr>,
          sv\<lparr>sv_tree := t\<rparr>))"

section \<open>Queries\<close>

definition treeSample :: "env \<Rightarrow> string \<Rightarrow> host \<Rightarrow> Sample list option" where
  "treeSample env expression h =
     (case SampleAs (env_compile env) (env_real env) (h_tree h) expression (sess_auth (h_sess h)) of
        Ok ns \<Rightarrow> Some (map (\<lambda>n. \<lparr>sp_ID = show_nat (unat (sm_ID n)), sp_Key = sm_Key n,
                               sp_Value = sm_Value n\<rparr>) ns)
      | _ \<Rightarrow> None)"

definition nextTimestamp :: "int \<Rightarrow> resultSink \<Rightarrow> int \<times> resultSink" where
  "nextTimestamp now s =
     (let ts = (if now > sk_lastTS s then now else sk_lastTS s + 1) in (ts, s\<lparr>sk_lastTS := ts\<rparr>))"

text \<open>\<open>sort.Strings\<close> on the keys, then each key's values in order.\<close>

definition sortedEntries :: "results \<Rightarrow> (string \<times> NodeValue) list" where
  "sortedEntries m = concat (map (\<lambda>k. map (\<lambda>v. (k, v)) (entries m k)) (sort (map fst m)))"

definition DeliverResults :: "env \<Rightarrow> int \<Rightarrow> i64 \<Rightarrow> results \<Rightarrow> resultSink \<Rightarrow> host \<Rightarrow> resultSink \<times> host" where
  "DeliverResults env now querySeq m s h =
     (let es = sortedEntries m in
      if length es = 0 then (s, h)
      else
        let (ts, s) = nextTimestamp now s; key = env_time env ts;
            (t, xs) = AppendLeafSubtree (sk_resultsNode s) key es (h_tree h)
        in (s, sendFittedNodes env now querySeq xs 0 (sk_resultsPath s @ ''/'' @ key) False
                 (h\<lparr>h_tree := t\<rparr>)))"

definition deliverBatch :: "env \<Rightarrow> int \<Rightarrow> i64 \<Rightarrow> results option \<Rightarrow> resultSink \<Rightarrow> host \<Rightarrow> resultSink \<times> host" where
  "deliverBatch env now querySeq batch s h =
     (case batch of None \<Rightarrow> (s, h) | Some m \<Rightarrow> DeliverResults env now querySeq m s h)"

text \<open>The sampler of a query reads the tree when it is called.\<close>

definition sampleFor :: "env \<Rightarrow> activeQuery \<Rightarrow> host \<Rightarrow> Sample list option" where
  "sampleFor env aq h = treeSample env (q_NodeExpression (rn_query (aq_runner aq))) h"

definition putQuery :: "i64 \<Rightarrow> activeQuery \<Rightarrow> host \<Rightarrow> host" where
  "putQuery seq aq = on_sess (\<lambda>s. s\<lparr>activeQueries := al_put seq aq (activeQueries s)\<rparr>)"

text \<open>A once query runs its pipeline in \<open>Start\<close>; the others have a goroutine, still to begin.\<close>

definition startOnce :: "env \<Rightarrow> int \<Rightarrow> i64 \<Rightarrow> activeQuery \<Rightarrow> host \<Rightarrow> (unit, host) result" where
  "startOnce env now seq aq h =
     rbind (runOnce (env_float env) (sampleFor env aq h) (aq_runner aq)) (\<lambda>(_, batch).
     Ok (snd (deliverBatch env now seq batch (aq_sink aq) h)))"

text \<open>The three parts of \<open>handleQuery\<close>: the results node and the two maps; the run of a once query,
  which is forgotten again; the acknowledgement.\<close>

definition registerQuery :: "QueryReq \<Rightarrow> host \<Rightarrow> activeQuery \<times> host" where
  "registerQuery q h =
     (let seq = q_SequenceNumber q;
          (n, t) = AppendUnder (queryResultsPath (h_sess h)) (''Query-SequenceNumber='' @ show_int (sint seq))
                     ValueNoValue (h_tree h);
          sink = \<lparr>sk_resultsNode = n,
            sk_resultsPath = ''/Sessions/Connection-ID'' @ backslash @ ''='' @ ss_ID (h_sess h) @
              ''/QueryResults/Query-SequenceNumber'' @ backslash @ ''='' @ show_int (sint seq),
            sk_lastTS = zeroTime\<rparr>;
          aq = \<lparr>aq_runner = NewRunner q, aq_sink = sink, aq_started = False\<rparr>
      in (aq, on_sess (\<lambda>s. s\<lparr>activeQueries := al_put seq aq (activeQueries s),
                queryResultNodes := al_put seq n (queryResultNodes s)\<rparr>) (h\<lparr>h_tree := t\<rparr>)))"

definition forgetQuery :: "i64 \<Rightarrow> host \<Rightarrow> host" where
  "forgetQuery seq = on_sess (\<lambda>s. s\<lparr>activeQueries := al_delete seq (activeQueries s),
     queryResultNodes := al_delete seq (queryResultNodes s)\<rparr>)"

definition handleQuery :: "env \<Rightarrow> int \<Rightarrow> QueryReq \<Rightarrow> host \<Rightarrow> (unit, host) result" where
  "handleQuery env now q h =
     (let seq = q_SequenceNumber q in
      case ValidateQuery q of
        Err e \<Rightarrow> Ok (respondError env now seq errInvalidQuery (env_query_error env e) h)
      | Panic \<Rightarrow> Panic
      | Ok _ \<Rightarrow>
          let (aq, h) = registerQuery q h in
          rbind (if q_CollectionMode q = CollectOnce
                 then rbind (startOnce env now seq aq h) (\<lambda>h. Ok (forgetQuery seq h))
                 else Ok h) (\<lambda>h.
          Ok (respondAndCache env now seq
                \<lparr>rs_SequenceNumber = 0, rs_InReplyTo = seq, rs_Error = False, rs_ErrorNode = None,
                 rs_Nodes = []\<rparr> h)))"

text \<open>The goroutine begins: an onChange query delivers its baseline; then the tickers are made.\<close>

definition queryStart :: "env \<Rightarrow> int \<Rightarrow> i64 \<Rightarrow> host \<Rightarrow> (unit, host) result" where
  "queryStart env now seq h =
     (case map_of (activeQueries (h_sess h)) seq of
        None \<Rightarrow> Ok h
      | Some aq \<Rightarrow>
          if aq_started aq then Ok h
          else
            let q = rn_query (aq_runner aq);
                (aq, h) =
                  (if q_CollectionMode q = CollectOnChange then
                     let (r, batch) = onChangeBaseline (sampleFor env aq h) (aq_runner aq);
                         (s, h) = deliverBatch env now seq batch (aq_sink aq) h
                     in (aq\<lparr>aq_runner := r, aq_sink := s\<rparr>, h)
                   else (aq, h))
            in rbind (startTickers q) (\<lambda>_. Ok (putQuery seq (aq\<lparr>aq_started := True\<rparr>) h)))"

datatype query_tick = CollectTick | AggregateTick | DeliverTick

definition queryTick :: "env \<Rightarrow> int \<Rightarrow> i64 \<Rightarrow> query_tick \<Rightarrow> host \<Rightarrow> (unit, host) result" where
  "queryTick env now seq tick h =
     (case map_of (activeQueries (h_sess h)) seq of
        None \<Rightarrow> Ok h
      | Some aq \<Rightarrow>
          if \<not> aq_started aq then Ok h
          else
            rbind (runStep (env_float env)
                     (case tick of CollectTick \<Rightarrow> Collect (sampleFor env aq h)
                      | AggregateTick \<Rightarrow> AggTick | DeliverTick \<Rightarrow> TransferTick)
                     (aq_runner aq)) (\<lambda>(r, batch).
            let (s, h) = deliverBatch env now seq batch (aq_sink aq) h
            in Ok (putQuery seq (aq\<lparr>aq_runner := r, aq_sink := s\<rparr>) h)))"

text \<open>The loop of \<open>reapCancelledQueries\<close> over \<open>queryResultNodes\<close>; stopping a runner ends its events.\<close>

fun reapLoop :: "(nat \<Rightarrow> bool) \<Rightarrow> (i64 \<times> nat) list \<Rightarrow> Session \<Rightarrow> Session" where
  "reapLoop live [] s = s"
| "reapLoop live ((seq, node) # rest) s =
     reapLoop live rest
       (if live node then s
        else s\<lparr>activeQueries := al_delete seq (activeQueries s),
               queryResultNodes := al_delete seq (queryResultNodes s)\<rparr>)"

definition reapCancelledQueries :: "host \<Rightarrow> host" where
  "reapCancelledQueries h =
     on_sess (\<lambda>s. reapLoop (IsReachable (h_tree h)) (queryResultNodes s) s) h"

section \<open>Requests on the tree\<close>

definition answerNodes :: "env \<Rightarrow> int \<Rightarrow> i64 \<Rightarrow> nat list \<Rightarrow> host \<Rightarrow> host" where
  "answerNodes env now reqSeq ns h =
     respondAndCache env now reqSeq
       \<lparr>rs_SequenceNumber = 0, rs_InReplyTo = reqSeq, rs_Error = False, rs_ErrorNode = None,
        rs_Nodes = Snapshot (h_tree h) ns\<rparr> h"

definition handleGet :: "env \<Rightarrow> int \<Rightarrow> GetReq \<Rightarrow> host \<Rightarrow> (unit, host) result" where
  "handleGet env now g h =
     (let seq = get_SequenceNumber g in
      case get_Target g of
        PointerAbsolute e \<Rightarrow>
          (case GetFullAs (env_compile env) (env_real env) (h_tree h) e (sess_auth (h_sess h)) of
             Err err \<Rightarrow> Ok (respondError env now seq errInvalidExpression (env_error env err) h)
           | Panic \<Rightarrow> Panic
           | Ok (xs, resumeIndex, base) \<Rightarrow> Ok (sendFittedNodes env now seq xs resumeIndex base True h))
      | _ \<Rightarrow> Ok (respondError env now seq errInvalidExpression
               ''Get.target must be an absolute expression'' h))"

definition handleSet :: "env \<Rightarrow> int \<Rightarrow> SetReq \<Rightarrow> host \<Rightarrow> (unit, host) result" where
  "handleSet env now s h =
     (let seq = set_SequenceNumber s;
          (t, r) = SetAs (env_compile env) (env_real env) s (Some (newNodesPath (h_sess h)))
                     (sess_auth (h_sess h)) (h_tree h);
          h = h\<lparr>h_tree := t\<rparr> in
      case r of
        Err e \<Rightarrow> Ok (respondError env now seq (errCode e errInvalidSet) (env_error env e) h)
      | Panic \<Rightarrow> Panic
      | Ok touched \<Rightarrow> Ok (answerNodes env now seq touched (reapCancelledQueries h)))"

definition handleDelete :: "env \<Rightarrow> int \<Rightarrow> DeleteReq \<Rightarrow> host \<Rightarrow> (unit, host) result" where
  "handleDelete env now d h =
     (let seq = del_SequenceNumber d;
          (t, r) = DeleteAs (env_compile env) (env_real env) (del_Targets d) (sess_auth (h_sess h)) (h_tree h);
          h = h\<lparr>h_tree := t\<rparr> in
      case r of
        Err e \<Rightarrow> Ok (respondError env now seq (errCode e errInvalidDelete) (env_error env e) h)
      | Panic \<Rightarrow> Panic
      | Ok deleted \<Rightarrow> Ok (answerNodes env now seq deleted (reapCancelledQueries h)))"

definition handleCreate :: "env \<Rightarrow> int \<Rightarrow> CreateReq \<Rightarrow> host \<Rightarrow> (unit, host) result" where
  "handleCreate env now c h =
     (let seq = cr_SequenceNumber c;
          v = (case cr_Value c of None \<Rightarrow> ValueNoValue | Some v \<Rightarrow> v);
          parentExpr = (case cr_Parent c of None \<Rightarrow> [] | Some p \<Rightarrow> p);
          (t, r) = CreateStagedAs (env_compile env) (env_real env) (newNodesPath (h_sess h)) parentExpr
                     (cr_Key c) v (sess_auth (h_sess h)) (h_tree h);
          h = h\<lparr>h_tree := t\<rparr> in
      case r of
        Err e \<Rightarrow> Ok (respondError env now seq errInvalidCreate (env_error env e) h)
      | Panic \<Rightarrow> Panic
      | Ok n \<Rightarrow> Ok (answerNodes env now seq [n] h))"

section \<open>Dispatch\<close>

text \<open>A request already processed is answered from the cache, if it is still there.\<close>

definition resendCached :: "env \<Rightarrow> int \<Rightarrow> i64 \<Rightarrow> host \<Rightarrow> host" where
  "resendCached env now seq h =
     (case respCache (h_sess h) seq of
        None \<Rightarrow> h
      | Some c \<Rightarrow>
          let (resp, h) = sendResponse env now (cd_resp c) h
          in on_sess (\<lambda>s. s\<lparr>respCache := (respCache s)(seq \<mapsto> c\<lparr>cd_resp := resp\<rparr>)\<rparr>) h)"

definition dispatch :: "env \<Rightarrow> int \<Rightarrow> Message \<Rightarrow> host \<Rightarrow> (unit, host) result" where
  "dispatch env now m h =
     (case m of
        MsgGet g \<Rightarrow> handleGet env now g h
      | MsgSet s \<Rightarrow> handleSet env now s h
      | MsgCreate c \<Rightarrow> handleCreate env now c h
      | MsgQuery q \<Rightarrow> handleQuery env now q h
      | MsgSummaryAck a \<Rightarrow> Ok (on_sess (\<lambda>s. s\<lparr>ss_sender := HandleAck a (ss_sender s)\<rparr>) h)
      | MsgDelete d \<Rightarrow> handleDelete env now d h
      | MsgResponse _ \<Rightarrow> Ok h)"

definition handleMessage :: "env \<Rightarrow> int \<Rightarrow> Message \<Rightarrow> host \<Rightarrow> (unit, host) result" where
  "handleMessage env now m h =
     (case requestSeq m of
        None \<Rightarrow> dispatch env now m h
      | Some seq \<Rightarrow>
          let (r, isNew) = MarkReceived (ss_receiver (h_sess h)) seq;
              h = on_sess (\<lambda>s. s\<lparr>ss_receiver := r\<rparr>) h in
          if \<not> isNew then Ok (resendCached env now seq h) else dispatch env now m h)"

text \<open>The loop of \<open>run\<close> on one datagram, a tick of \<open>ackLoop\<close>, one of the retransmission loop.\<close>

definition receiveDatagram :: "env \<Rightarrow> int \<Rightarrow> byte list \<Rightarrow> host \<Rightarrow> (unit, host) result" where
  "receiveDatagram env now data h =
     (case UnmarshalMessage data of
        Err e \<Rightarrow> Ok h | Panic \<Rightarrow> Panic | Ok m \<Rightarrow> handleMessage env now m h)"

definition ackTick :: "env \<Rightarrow> host \<Rightarrow> host" where
  "ackTick env h =
     (let ack = BuildAck (ss_receiver (h_sess h)) in
      if length (sa_Received ack) = 0 then h
      else snd (sendDatagram env (messageBytes (MsgSummaryAck ack)) h))"

definition retransmitTick :: "env \<Rightarrow> int \<Rightarrow> host \<Rightarrow> host" where
  "retransmitTick env now h =
     (let (s, toResend, _) = retransmitDue now (ss_sender (h_sess h))
      in fold (\<lambda>p h. snd (sendDatagram env p h)) toResend (on_sess (\<lambda>x. x\<lparr>ss_sender := s\<rparr>) h))"

datatype session_event =
    Datagram "byte list"
  | AckTick
  | RetransmitTick
  | QueryStart i64
  | QueryTick i64 query_tick

definition sessionStep :: "env \<Rightarrow> int \<Rightarrow> session_event \<Rightarrow> host \<Rightarrow> (unit, host) result" where
  "sessionStep env now ev h =
     (case ev of
        Datagram data \<Rightarrow> receiveDatagram env now data h
      | AckTick \<Rightarrow> Ok (ackTick env h)
      | RetransmitTick \<Rightarrow> Ok (retransmitTick env now h)
      | QueryStart seq \<Rightarrow> queryStart env now seq h
      | QueryTick seq tick \<Rightarrow> queryTick env now seq tick h)"

end
