(* ===== verification/Session_Cache.thy ===== *)
theory Session_Cache
  imports Handlers
begin

text \<open>
  The response cache: the expiry over insertion order removes exactly what a scan of the whole map
  would remove, and the order list stays within a small factor of what is live.
\<close>

section \<open>What the cache keeps\<close>

definition liveOrder :: "Session \<Rightarrow> respRecord list" where
  "liveOrder s = drop (respHead s) (respOrder s)"

definition cache_ok :: "int \<Rightarrow> Session \<Rightarrow> bool" where
  "cache_ok now s \<longleftrightarrow> respHead s \<le> length (respOrder s) \<and> sorted (map rr_at (liveOrder s)) \<and>
     (\<forall>r \<in> set (liveOrder s). rr_at r \<le> now) \<and>
     (\<forall>k c. respCache s k = Some c \<longrightarrow> \<lparr>rr_seq = k, rr_at = cd_at c\<rparr> \<in> set (liveOrder s))"

text \<open>The specification: one scan of the map.\<close>

definition unexpired :: "int \<Rightarrow> (i64 \<Rightarrow> cachedResponse option) \<Rightarrow> i64 \<Rightarrow> cachedResponse option" where
  "unexpired now m k = (case m k of None \<Rightarrow> None | Some c \<Rightarrow> if now - cd_at c \<le> respCacheTTL then Some c else None)"

lemma unexpired_idem [simp]: "unexpired now (unexpired now m) = unexpired now m"
  by (auto simp: unexpired_def fun_eq_iff split: option.splits)

text \<open>One round of the expiry loop.\<close>

definition expireOne :: "Session \<Rightarrow> Session" where
  "expireOne s =
     (let old = respOrder s ! respHead s in
      s\<lparr>respCache := (case respCache s (rr_seq old) of
                        Some c \<Rightarrow> if cd_at c = rr_at old then (respCache s)(rr_seq old := None) else respCache s
                      | None \<Rightarrow> respCache s),
        respOrder := (respOrder s)[respHead s := \<lparr>rr_seq = 0, rr_at = zeroTime\<rparr>],
        respHead := respHead s + 1\<rparr>)"

lemma expireLoop_cases:
  obtains "respHead s \<ge> length (respOrder s)" "expireLoop now s = s"
  | "respHead s < length (respOrder s)" "now - rr_at (respOrder s ! respHead s) \<le> respCacheTTL"
      "expireLoop now s = s"
  | "respHead s < length (respOrder s)" "respCacheTTL < now - rr_at (respOrder s ! respHead s)"
      "expireLoop now s = expireLoop now (expireOne s)"
proof -
  let ?old = "respOrder s ! respHead s"
  have one: "expireLoop now s = expireLoop now (expireOne s)"
    if "respHead s < length (respOrder s)" "respCacheTTL < now - rr_at ?old"
    using that by (subst expireLoop.simps)
      (auto simp: expireOne_def Let_def split: option.splits intro!: arg_cong [of _ _ "expireLoop now"])
  have stop: "expireLoop now s = s"
    if "respHead s \<ge> length (respOrder s) \<or> now - rr_at ?old \<le> respCacheTTL"
    using that by (subst expireLoop.simps) (auto simp: Let_def)
  show thesis using one stop that by (metis not_less)
qed

lemma expireOne_ok:
  assumes ok: "cache_ok now s" and old: "respHead s < length (respOrder s)"
    "respCacheTTL < now - rr_at (respOrder s ! respHead s)"
  shows "cache_ok now (expireOne s)" "unexpired now (respCache (expireOne s)) = unexpired now (respCache s)"
    and "liveOrder (expireOne s) = tl (liveOrder s)"
proof -
  let ?old = "respOrder s ! respHead s"
  have live: "liveOrder s = ?old # drop (respHead s + 1) (respOrder s)"
    using old(1) by (simp add: liveOrder_def Cons_nth_drop_Suc)
  show tl: "liveOrder (expireOne s) = tl (liveOrder s)"
    using live by (simp add: liveOrder_def expireOne_def Let_def)
  have cache: "respCache (expireOne s) k = (if k = rr_seq ?old \<and>
      (\<exists>c. respCache s k = Some c \<and> cd_at c = rr_at ?old) then None else respCache s k)" for k
    by (auto simp: expireOne_def Let_def split: option.splits)
  show "unexpired now (respCache (expireOne s)) = unexpired now (respCache s)"
    using old(2) by (auto simp: fun_eq_iff unexpired_def cache split: option.splits)
  have "\<lparr>rr_seq = k, rr_at = cd_at c\<rparr> \<in> set (tl (liveOrder s))" if "respCache (expireOne s) k = Some c" for k c
  proof -
    have kept: "respCache s k = Some c" "\<not> (k = rr_seq ?old \<and> cd_at c = rr_at ?old)"
      using that unfolding cache by (auto split: if_splits)
    then have "\<lparr>rr_seq = k, rr_at = cd_at c\<rparr> \<noteq> ?old" by (metis respRecord.select_convs)
    moreover have "\<lparr>rr_seq = k, rr_at = cd_at c\<rparr> \<in> set (liveOrder s)"
      using ok kept(1) by (simp add: cache_ok_def)
    ultimately show ?thesis unfolding live by simp
  qed
  moreover have "respHead (expireOne s) \<le> length (respOrder (expireOne s))"
    using old(1) by (simp add: expireOne_def Let_def)
  moreover have "sorted (map rr_at (tl (liveOrder s)))" "\<forall>r \<in> set (tl (liveOrder s)). rr_at r \<le> now"
    using ok unfolding cache_ok_def live by auto
  ultimately show "cache_ok now (expireOne s)" unfolding cache_ok_def tl by blast
qed

lemma all_live_unexpired:
  assumes ok: "cache_ok now s"
    and "respHead s < length (respOrder s) \<Longrightarrow> now - rr_at (respOrder s ! respHead s) \<le> respCacheTTL"
  shows "r \<in> set (liveOrder s) \<Longrightarrow> now - rr_at r \<le> respCacheTTL"
    and "unexpired now (respCache s) = respCache s"
proof -
  show live: "now - rr_at r \<le> respCacheTTL" if r: "r \<in> set (liveOrder s)" for r
  proof -
    have lt: "respHead s < length (respOrder s)" using r by (cases "respHead s < length (respOrder s)") (simp_all add: liveOrder_def)
    then have "liveOrder s = respOrder s ! respHead s # drop (respHead s + 1) (respOrder s)"
      by (simp add: liveOrder_def Cons_nth_drop_Suc)
    then have "rr_at (respOrder s ! respHead s) \<le> rr_at r"
      using ok r unfolding cache_ok_def by auto
    with assms(2) [OF lt] show ?thesis by linarith
  qed
  have "now - cd_at c \<le> respCacheTTL" if "respCache s k = Some c" for k c
    using live [of "\<lparr>rr_seq = k, rr_at = cd_at c\<rparr>"] ok that by (simp add: cache_ok_def)
  then show "unexpired now (respCache s) = respCache s"
    by (auto simp: unexpired_def fun_eq_iff split: option.splits)
qed

lemma expireLoop_ok:
  "cache_ok now s \<Longrightarrow> cache_ok now (expireLoop now s) \<and>
     respCache (expireLoop now s) = unexpired now (respCache s) \<and>
     (\<forall>r \<in> set (liveOrder (expireLoop now s)). now - rr_at r \<le> respCacheTTL)"
proof (induction "length (respOrder s) - respHead s" arbitrary: s rule: less_induct)
  case less
  show ?case
  proof (cases rule: expireLoop_cases [of s now])
    case 1
    with all_live_unexpired [OF less.prems] less.prems show ?thesis by auto
  next
    case 2
    with all_live_unexpired [OF less.prems] less.prems show ?thesis by auto
  next
    case 3
    note one = expireOne_ok [OF less.prems 3(1,2)]
    have "length (respOrder (expireOne s)) - respHead (expireOne s) < length (respOrder s) - respHead s"
      using 3(1) by (simp add: expireOne_def Let_def)
    from less.hyps [OF this one(1)] one(2) 3(3) show ?thesis by simp
  qed
qed

text \<open>Nothing else of the session changes.\<close>

definition sameButCache :: "Session \<Rightarrow> Session \<Rightarrow> bool" where
  "sameButCache s s' \<longleftrightarrow> s' = s\<lparr>respCache := respCache s', respOrder := respOrder s', respHead := respHead s'\<rparr>"

lemma expireLoop_same: "sameButCache s (expireLoop now s)"
proof (induction "length (respOrder s) - respHead s" arbitrary: s rule: less_induct)
  case less
  show ?case
  proof (cases rule: expireLoop_cases [of s now])
    case 3
    have "length (respOrder (expireOne s)) - respHead (expireOne s) < length (respOrder s) - respHead s"
      using 3(1) by (simp add: expireOne_def Let_def)
    note this [THEN less.hyps]
    moreover have "sameButCache s (expireOne s)" by (simp add: sameButCache_def expireOne_def Let_def)
    ultimately show ?thesis unfolding 3(3) sameButCache_def
      by (cases s; cases "expireOne s"; cases "expireLoop now (expireOne s)") simp
  qed (simp_all add: sameButCache_def)
qed

lemma compactOrder_ok:
  "cache_ok now (compactOrder s) = cache_ok now s \<or> length (respOrder s) < respHead s"
  "liveOrder (compactOrder s) = liveOrder s" "respCache (compactOrder s) = respCache s"
  "sameButCache s (compactOrder s)"
  by (auto simp: compactOrder_def cache_ok_def liveOrder_def sameButCache_def)

lemma compactOrder_size:
  assumes "respHead s \<le> length (respOrder s)"
  shows "length (respOrder (compactOrder s)) \<le> 2 * length (liveOrder s) + 1023"
  using assms by (auto simp: compactOrder_def liveOrder_def)

text \<open>Caching an answer: the map as a scan would leave it.\<close>

lemma cacheResponseAt_ok:
  assumes ok: "cache_ok t s" "t \<le> now"
  shows "cache_ok now (cacheResponseAt k resp now s)"
    and "respCache (cacheResponseAt k resp now s) = unexpired now ((respCache s)(k \<mapsto> \<lparr>cd_resp = resp, cd_at = now\<rparr>))"
    and "\<forall>r \<in> set (liveOrder (cacheResponseAt k resp now s)). now - rr_at r \<le> respCacheTTL"
    and "length (respOrder (cacheResponseAt k resp now s)) \<le> 2 * length (liveOrder (cacheResponseAt k resp now s)) + 1023"
proof -
  let ?s' = "cacheResponseAt k resp now s"
  let ?s = "s\<lparr>respCache := (respCache s)(k \<mapsto> \<lparr>cd_resp = resp, cd_at = now\<rparr>),
    respOrder := respOrder s @ [\<lparr>rr_seq = k, rr_at = now\<rparr>]\<rparr>"
  have live: "liveOrder ?s = liveOrder s @ [\<lparr>rr_seq = k, rr_at = now\<rparr>]"
    using ok(1) by (simp add: liveOrder_def cache_ok_def)
  have "cache_ok now ?s"
    using ok unfolding cache_ok_def live by (auto simp: sorted_append intro: order_trans)
  note e = expireLoop_ok [OF this]
  have len: "respHead (expireLoop now ?s) \<le> length (respOrder (expireLoop now ?s))"
    using e by (simp add: cache_ok_def)
  show "cache_ok now ?s'" using compactOrder_ok(1) [of now "expireLoop now ?s"] e len
    unfolding cacheResponseAt_def by auto
  show "respCache ?s' = unexpired now ((respCache s)(k \<mapsto> \<lparr>cd_resp = resp, cd_at = now\<rparr>))"
    "\<forall>r \<in> set (liveOrder ?s'). now - rr_at r \<le> respCacheTTL"
    "length (respOrder ?s') \<le> 2 * length (liveOrder ?s') + 1023"
    using e compactOrder_size [OF len] unfolding cacheResponseAt_def
    by (simp_all add: compactOrder_ok)
qed

lemma cacheResponseAt_same: "sameButCache s (cacheResponseAt k resp now s)"
proof -
  let ?s = "s\<lparr>respCache := (respCache s)(k \<mapsto> \<lparr>cd_resp = resp, cd_at = now\<rparr>),
    respOrder := respOrder s @ [\<lparr>rr_seq = k, rr_at = now\<rparr>]\<rparr>"
  have "sameButCache s ?s" by (simp add: sameButCache_def)
  moreover note expireLoop_same [of ?s now] compactOrder_ok(4) [of "expireLoop now ?s"]
  ultimately show ?thesis unfolding cacheResponseAt_def sameButCache_def
    by (cases s; cases "expireLoop now ?s"; cases "compactOrder (expireLoop now ?s)") simp
qed

end
