(* ===== verification/Session_Props.thy ===== *)
theory Session_Props
  imports Session_Cache Codec_Props
begin

text \<open>
  The invariant of a session and what each operation of a handler keeps of it: the identity of the
  session, its receiver, and the cached answers of the other requests.
\<close>

section \<open>The invariant\<close>

definition sess_inv :: "int \<Rightarrow> Session \<Rightarrow> bool" where
  "sess_inv now s \<longleftrightarrow> receiver_ok (ss_receiver s) \<and> bounded (ss_receiver s) \<and> sender_ok (ss_sender s) \<and>
     cache_ok now s \<and> distinct (map fst (activeQueries s)) \<and>
     map fst (activeQueries s) = map fst (queryResultNodes s)"

text \<open>Two responses that differ in the transport sequence number only.\<close>

definition same_answer :: "Response \<Rightarrow> Response \<Rightarrow> bool" where
  "same_answer r r' \<longleftrightarrow> r\<lparr>rs_SequenceNumber := 0\<rparr> = r'\<lparr>rs_SequenceNumber := 0\<rparr>"

definition same_entry :: "cachedResponse \<Rightarrow> cachedResponse \<Rightarrow> bool" where
  "same_entry c c' \<longleftrightarrow> same_answer (cd_resp c) (cd_resp c') \<and> cd_at c' = cd_at c"

lemma same_entry_refl [simp]: "same_entry c c"
  by (simp add: same_entry_def same_answer_def)

lemma same_entry_trans: "same_entry a b \<Longrightarrow> same_entry b c \<Longrightarrow> same_entry a c"
  by (simp add: same_entry_def same_answer_def)

text \<open>What a step at time \<open>now\<close> for request \<open>r\<close> keeps.\<close>

definition cached_kept :: "int \<Rightarrow> i64 option \<Rightarrow> Session \<Rightarrow> Session \<Rightarrow> bool" where
  "cached_kept now r s s' \<longleftrightarrow> (\<forall>k c. Some k \<noteq> r \<longrightarrow> respCache s k = Some c \<longrightarrow>
     now - cd_at c \<le> respCacheTTL \<longrightarrow> (\<exists>c'. respCache s' k = Some c' \<and> same_entry c c')) \<and>
     (\<forall>k. respCache s' k \<noteq> None \<longrightarrow> respCache s k \<noteq> None \<or> Some k = r)"

definition fixed :: "Session \<Rightarrow> Session \<Rightarrow> bool" where
  "fixed s s' \<longleftrightarrow> ss_ID s' = ss_ID s \<and> ss_auth s' = ss_auth s \<and> newNodesPath s' = newNodesPath s \<and>
     errorsPath s' = errorsPath s \<and> queryResultsPath s' = queryResultsPath s \<and>
     overrideSize s' = overrideSize s"

text \<open>The numbers of the running queries; only request \<open>r\<close> may add its own.\<close>

definition running :: "Session \<Rightarrow> i64 set" where
  "running s = set (map fst (activeQueries s))"

definition keeps :: "int \<Rightarrow> i64 option \<Rightarrow> Session \<Rightarrow> Session \<Rightarrow> bool" where
  "keeps now r s s' \<longleftrightarrow> fixed s s' \<and> ss_receiver s' = ss_receiver s \<and>
     running s' \<subseteq> running s \<union> {k. r = Some k} \<and>
     (sess_inv now s \<longrightarrow> sess_inv now s' \<and> cached_kept now r s s')"

named_theorems keeps_intros \<open>operations that keep the session\<close>

lemma keeps_refl [simp, keeps_intros]: "keeps now r s s"
  by (auto simp: keeps_def fixed_def cached_kept_def)

lemma cached_kept_trans: "cached_kept now r s u \<Longrightarrow> cached_kept now r u w \<Longrightarrow> cached_kept now r s w"
  unfolding cached_kept_def same_entry_def same_answer_def by (elim conjE, intro conjI) metis+

lemma keeps_trans [trans]:
  assumes "keeps now r s u" "keeps now r u w"
  shows "keeps now r s w"
proof -
  have "fixed s w" "ss_receiver w = ss_receiver s" "running w \<subseteq> running s \<union> {k. r = Some k}"
    using assms by (auto simp: keeps_def fixed_def)
  moreover have "sess_inv now w \<and> cached_kept now r s w" if "sess_inv now s"
    using assms that cached_kept_trans [of now r s u w] by (auto simp: keeps_def)
  ultimately show ?thesis by (auto simp: keeps_def)
qed

lemma keeps_mono: "keeps now None s s' \<Longrightarrow> keeps now r s s'"
  by (auto simp: keeps_def cached_kept_def)

text \<open>A step that leaves cache and queries alone.\<close>

lemma keeps_plain:
  assumes "fixed s s'" "ss_receiver s' = ss_receiver s" "sender_ok (ss_sender s) \<Longrightarrow> sender_ok (ss_sender s')"
    "respCache s' = respCache s" "respOrder s' = respOrder s" "respHead s' = respHead s"
    "map fst (activeQueries s') = map fst (activeQueries s)" "queryResultNodes s' = queryResultNodes s"
  shows "keeps now r s s'"
  using assms by (auto simp: keeps_def running_def sess_inv_def cached_kept_def cache_ok_def liveOrder_def)

section \<open>Operations\<close>

lemma keeps_allocSeq: "keeps now r s (snd (allocSeq s))"
  by (rule keeps_plain) (simp_all add: allocSeq_def fixed_def)

lemma keeps_setMax: "keeps now r s (setMaxDatagramSize n s)"
  by (rule keeps_plain) (simp_all add: setMaxDatagramSize_def fixed_def)

lemma keeps_sender: "(sender_ok (ss_sender s) \<Longrightarrow> sender_ok x) \<Longrightarrow> keeps now r s (s\<lparr>ss_sender := x\<rparr>)"
  by (rule keeps_plain) (simp_all add: fixed_def)

lemma keeps_cache:
  assumes "cache_ok now s \<Longrightarrow> cache_ok now s' \<and> cached_kept now r s s'" "sameButCache s s'"
  shows "keeps now r s s'"
proof -
  note eq = assms(2) [unfolded sameButCache_def]
  have "fixed s s'" "ss_receiver s' = ss_receiver s" by (subst eq, simp add: fixed_def)+
  moreover have "ss_sender s' = ss_sender s" "activeQueries s' = activeQueries s"
    "queryResultNodes s' = queryResultNodes s" by (subst eq, simp)+
  ultimately show ?thesis using assms(1) by (auto simp: keeps_def running_def sess_inv_def)
qed

lemma keeps_cacheResponseAt: "keeps now (Some k) s (cacheResponseAt k resp now s)"
proof (rule keeps_cache [OF _ cacheResponseAt_same])
  assume ok: "cache_ok now s"
  show "cache_ok now (cacheResponseAt k resp now s) \<and> cached_kept now (Some k) s (cacheResponseAt k resp now s)"
    using cacheResponseAt_ok(1,2) [OF ok order_refl, of k resp]
    by (auto simp: cached_kept_def unexpired_def split: if_splits option.splits)
qed

lemma keeps_transmit: "keeps now r (h_sess h) (h_sess (snd (transmit env now' seq p h)))"
  using Send_ok [of "ss_sender (h_sess h)" now' seq p] keeps_sender [of "h_sess h"]
  by (simp add: transmit_def sendDatagram_def on_sess_def Let_def split_beta)

lemma keeps_sendResponse: "keeps now r (h_sess h) (h_sess (snd (sendResponse env now' resp h)))"
  using keeps_trans [OF keeps_allocSeq [of now r "h_sess h"]]
    keeps_transmit [of now r "h\<lparr>h_sess := snd (allocSeq (h_sess h))\<rparr>"]
  by (simp add: sendResponse_def Let_def split_beta)

lemma keeps_respondAndCache:
  "keeps now (Some k) (h_sess h) (h_sess (respondAndCache env now k resp h))"
  using keeps_trans [OF keeps_sendResponse keeps_cacheResponseAt]
  by (simp add: respondAndCache_def on_sess_def split_beta)

lemma keeps_sendAttempts:
  "(cache \<Longrightarrow> r = Some k) \<Longrightarrow>
   keeps now r (h_sess h) (h_sess (sendAttempts n env now txSeq k xs resume base cache ns h))"
proof (induction n arbitrary: ns h)
  case (Suc n)
  obtain err h1 where t: "transmit env now txSeq (responseBytes (buildResponse txSeq k ns)) h = (err, h1)"
    by fastforce
  have 1: "keeps now r (h_sess h) (h_sess h1)"
    using keeps_transmit [of now r h env now txSeq "responseBytes (buildResponse txSeq k ns)"] t by simp
  show ?case
  proof (cases err)
    case SendOk
    with t 1 keeps_trans [OF 1] keeps_cacheResponseAt [of now k "h_sess h1"] Suc.prems show ?thesis
      by (auto simp: on_sess_def)
  next
    case (DatagramTooLarge limit)
    let ?h = "on_sess (\<lambda>s. setMaxDatagramSize limit (s\<lparr>ss_sender := Cancel txSeq (ss_sender s)\<rparr>)) h1"
    have "keeps now r (h_sess h1) (h_sess ?h)"
      using keeps_trans [OF keeps_sender keeps_setMax] Cancel_ok by (simp add: on_sess_def)
    with 1 have 2: "keeps now r (h_sess h) (h_sess ?h)" by (rule keeps_trans)
    from keeps_trans [OF 2 Suc.IH [OF Suc.prems]] 2 DatagramTooLarge t show ?thesis
      by (simp add: Let_def)
  qed (use t 1 in simp)
qed simp

lemma keeps_sendFittedNodes:
  assumes "cache \<Longrightarrow> r = Some k"
  shows "keeps now r (h_sess h) (h_sess (sendFittedNodes env now k xs resume base cache h))"
proof -
  have *: "keeps now r (h_sess h) (h_sess (sendAttempts 2 env now q k xs resume base cache ns
      (h\<lparr>h_sess := snd (allocSeq (h_sess h))\<rparr>)))" for q ns
    using keeps_trans [OF keeps_allocSeq [of now r "h_sess h"]]
      keeps_sendAttempts [of cache r k now "h\<lparr>h_sess := snd (allocSeq (h_sess h))\<rparr>"] assms by simp
  have "keeps now r (h_sess h) (snd (allocSeq (h_sess h)))" by (rule keeps_allocSeq)
  with * show ?thesis by (simp add: sendFittedNodes_def Let_def split_beta)
qed

lemma keeps_recordError: "h_sess (snd (recordError code message k h)) = h_sess h"
  by (simp add: recordError_def split_beta)

lemma keeps_respondError:
  "keeps now (Some k) (h_sess h) (h_sess (respondError env now k code message h))"
  using keeps_respondAndCache [of now k "snd (recordError code message k h)"]
  by (simp add: respondError_def split_beta keeps_recordError)

lemma keeps_deliverBatch:
  "keeps now r (h_sess h) (h_sess (snd (deliverBatch env now k batch sink h)))"
proof (cases batch)
  case (Some m)
  have "keeps now r (h_sess h) (h_sess (sendFittedNodes env now k xs 0 base False (h\<lparr>h_tree := t\<rparr>)))" for t xs base
    using keeps_sendFittedNodes [of False r k now "h\<lparr>h_tree := t\<rparr>"] by simp
  with Some show ?thesis by (simp add: deliverBatch_def DeliverResults_def Let_def split_beta)
qed (simp add: deliverBatch_def)

section \<open>Queries\<close>

lemma al_delete_keys: "map fst (al_delete k m) = filter (\<lambda>x. x \<noteq> k) (map fst m)"
  by (induction m) (auto simp: al_delete_def)

lemma al_put_keys': "map fst (al_put k v m) = (if k \<in> set (map fst m) then map fst m else map fst m @ [k])"
  using al_put_keys [of k v m] by simp

lemma keeps_queries:
  assumes "fixed s s'" "ss_receiver s' = ss_receiver s" "ss_sender s' = ss_sender s"
    "respCache s' = respCache s" "respOrder s' = respOrder s" "respHead s' = respHead s"
    and "running s' \<subseteq> running s \<union> {k. r = Some k}"
    and "distinct (map fst (activeQueries s)) \<and> map fst (activeQueries s) = map fst (queryResultNodes s) \<Longrightarrow>
      distinct (map fst (activeQueries s')) \<and> map fst (activeQueries s') = map fst (queryResultNodes s')"
  shows "keeps now r s s'"
  using assms by (auto simp: keeps_def sess_inv_def cached_kept_def cache_ok_def liveOrder_def)

lemma keeps_addQuery:
  "keeps now (Some k) s (s\<lparr>activeQueries := al_put k aq (activeQueries s), queryResultNodes := al_put k n (queryResultNodes s)\<rparr>)"
  by (rule keeps_queries) (auto simp: fixed_def running_def al_put_keys' simp del: set_map)

lemma keeps_dropQuery:
  "keeps now r s (s\<lparr>activeQueries := al_delete k (activeQueries s), queryResultNodes := al_delete k (queryResultNodes s)\<rparr>)"
  by (rule keeps_queries) (auto simp: fixed_def running_def al_delete_keys simp del: set_map)

lemma keeps_reapLoop: "keeps now r s (reapLoop live qs s)"
proof (induction live qs s rule: reapLoop.induct)
  case (2 live seq node rest s)
  show ?case
  proof (cases "live node")
    case False
    with "2.IH" keeps_trans [OF keeps_dropQuery] show ?thesis by simp
  qed (use "2.IH" in simp)
qed simp

lemma keeps_putQuery:
  "map_of (activeQueries (h_sess h)) k \<noteq> None \<Longrightarrow> keeps now r (h_sess h) (h_sess (putQuery k aq h))"
  by (rule keeps_plain) (auto simp: putQuery_def on_sess_def fixed_def al_put_keys' map_of_eq_None_iff)

text \<open>Stopping exactly the queries whose results are gone.\<close>

lemma reapLoop_eq:
  shows "activeQueries (reapLoop live qs s) =
      filter (\<lambda>(k, _). \<not> (\<exists>n. (k, n) \<in> set qs \<and> \<not> live n)) (activeQueries s)"
    and "queryResultNodes (reapLoop live qs s) =
      filter (\<lambda>(k, _). \<not> (\<exists>n. (k, n) \<in> set qs \<and> \<not> live n)) (queryResultNodes s)"
proof -
  have "activeQueries (reapLoop live qs s) =
      filter (\<lambda>(k, _). \<not> (\<exists>n. (k, n) \<in> set qs \<and> \<not> live n)) (activeQueries s) \<and>
    queryResultNodes (reapLoop live qs s) =
      filter (\<lambda>(k, _). \<not> (\<exists>n. (k, n) \<in> set qs \<and> \<not> live n)) (queryResultNodes s)"
  proof (induction qs arbitrary: s)
    case (Cons q qs)
    obtain k n where q: "q = (k, n)" by fastforce
    show ?case using Cons.IH unfolding q
      by (auto simp: al_delete_def intro!: filter_cong)
  qed simp
  then show "activeQueries (reapLoop live qs s) =
      filter (\<lambda>(k, _). \<not> (\<exists>n. (k, n) \<in> set qs \<and> \<not> live n)) (activeQueries s)"
    "queryResultNodes (reapLoop live qs s) =
      filter (\<lambda>(k, _). \<not> (\<exists>n. (k, n) \<in> set qs \<and> \<not> live n)) (queryResultNodes s)" by simp_all
qed

section \<open>What sending leaves alone\<close>

lemma cacheResponseAt_fields [simp]:
  "activeQueries (cacheResponseAt k resp now s) = activeQueries s"
  "queryResultNodes (cacheResponseAt k resp now s) = queryResultNodes s"
  "ss_receiver (cacheResponseAt k resp now s) = ss_receiver s"
  "nextSeq (cacheResponseAt k resp now s) = nextSeq s"
  "overrideSize (cacheResponseAt k resp now s) = overrideSize s"
  "maxDatagramSize (cacheResponseAt k resp now s) = maxDatagramSize s"
  by (subst cacheResponseAt_same [unfolded sameButCache_def], simp)+

lemma setMax_fields [simp]:
  "activeQueries (setMaxDatagramSize n s) = activeQueries s"
  "queryResultNodes (setMaxDatagramSize n s) = queryResultNodes s"
  by (simp_all add: setMaxDatagramSize_def)

lemma transmit_fields [simp]:
  "h_tree (snd (transmit env now q p h)) = h_tree h"
  "activeQueries (h_sess (snd (transmit env now q p h))) = activeQueries (h_sess h)"
  "queryResultNodes (h_sess (snd (transmit env now q p h))) = queryResultNodes (h_sess h)"
  "h_sent (snd (transmit env now q p h)) = h_sent h @ [(p, env_net env (length (h_sent h)) p)]"
  "fst (transmit env now q p h) = env_net env (length (h_sent h)) p"
  by (simp_all add: transmit_def sendDatagram_def Send_def on_sess_def Let_def split_beta)

lemma on_sess_fields [simp]:
  "h_tree (on_sess f h) = h_tree h" "h_sent (on_sess f h) = h_sent h" "h_sess (on_sess f h) = f (h_sess h)"
  by (simp_all add: on_sess_def)

lemma sendAttempts_fields [simp]:
  "h_tree (sendAttempts n env now q k xs r b c ns h) = h_tree h \<and>
   activeQueries (h_sess (sendAttempts n env now q k xs r b c ns h)) = activeQueries (h_sess h) \<and>
   queryResultNodes (h_sess (sendAttempts n env now q k xs r b c ns h)) = queryResultNodes (h_sess h)"
proof (induction n arbitrary: ns h)
  case (Suc n)
  obtain err h1 where t: "transmit env now q (responseBytes (buildResponse q k ns)) h = (err, h1)" by fastforce
  then have "h_tree h1 = h_tree h" "activeQueries (h_sess h1) = activeQueries (h_sess h)"
    "queryResultNodes (h_sess h1) = queryResultNodes (h_sess h)"
    using transmit_fields [of env now q "responseBytes (buildResponse q k ns)" h] by simp_all
  with t Suc.IH show ?case by (simp add: Let_def split: sendResult.split)
qed simp

lemma sendFittedNodes_fields [simp]:
  "h_tree (sendFittedNodes env now k xs r b c h) = h_tree h"
  "activeQueries (h_sess (sendFittedNodes env now k xs r b c h)) = activeQueries (h_sess h)"
  "queryResultNodes (h_sess (sendFittedNodes env now k xs r b c h)) = queryResultNodes (h_sess h)"
  by (simp_all add: sendFittedNodes_def Let_def split_beta allocSeq_def)

lemma sendResponse_fields [simp]:
  "h_tree (snd (sendResponse env now resp h)) = h_tree h"
  "fst (sendResponse env now resp h) = resp\<lparr>rs_SequenceNumber := nextSeq (h_sess h) + 1\<rparr>"
  "h_sent (snd (sendResponse env now resp h)) = h_sent h @
     [(responseBytes (resp\<lparr>rs_SequenceNumber := nextSeq (h_sess h) + 1\<rparr>),
       env_net env (length (h_sent h)) (responseBytes (resp\<lparr>rs_SequenceNumber := nextSeq (h_sess h) + 1\<rparr>)))]"
  by (simp_all add: sendResponse_def Let_def split_beta allocSeq_def)

lemma respondAndCache_fields [simp]:
  "h_tree (respondAndCache env now k resp h) = h_tree h"
  by (simp add: respondAndCache_def split_beta)

lemma deliverBatch_queries [simp]:
  "activeQueries (h_sess (snd (deliverBatch env now k batch sink h))) = activeQueries (h_sess h)"
  "queryResultNodes (h_sess (snd (deliverBatch env now k batch sink h))) = queryResultNodes (h_sess h)"
  by (simp_all add: deliverBatch_def DeliverResults_def Let_def split_beta split: option.split)

end
