(* ===== verification/Session_Run.thy ===== *)
theory Session_Run
  imports Session_Props
begin

text \<open>
  The handlers and the events of a session keep its invariant and the other requests' answers; runs of
  a session as an inductive relation, in which other sessions may change the tree between two events.
\<close>

section \<open>Handlers\<close>

lemma keeps_answerNodes: "keeps now (Some k) (h_sess h) (h_sess (answerNodes env now k ns h))"
  by (simp add: answerNodes_def keeps_respondAndCache)

lemma keeps_reap: "keeps now r (h_sess h) (h_sess (reapCancelledQueries h))"
  by (simp add: reapCancelledQueries_def on_sess_def keeps_reapLoop)

lemma keeps_reap_answer:
  "keeps now (Some k) (h_sess h) (h_sess (answerNodes env now k ns (reapCancelledQueries h)))"
  by (rule keeps_trans [OF keeps_reap keeps_answerNodes])

lemma keeps_with_tree [simp]: "h_sess (h\<lparr>h_tree := t\<rparr>) = h_sess h"
  by simp

lemma keeps_handleGet:
  "handleGet env now g h = Ok h' \<Longrightarrow> keeps now (Some (get_SequenceNumber g)) (h_sess h) (h_sess h')"
  by (auto simp: handleGet_def Let_def keeps_respondError keeps_sendFittedNodes
      split: NodePointer.splits result.splits prod.splits)

lemma keeps_handleSet:
  assumes "handleSet env now s h = Ok h'"
  shows "keeps now (Some (set_SequenceNumber s)) (h_sess h) (h_sess h')"
proof -
  obtain t r where "SetAs (env_compile env) (env_real env) s (Some (newNodesPath (h_sess h)))
      (sess_auth (h_sess h)) (h_tree h) = (t, r)" by fastforce
  with assms keeps_respondError [of now _ "h\<lparr>h_tree := t\<rparr>"] keeps_reap_answer [of now _ "h\<lparr>h_tree := t\<rparr>"]
  show ?thesis by (auto simp: handleSet_def Let_def split: result.splits)
qed

lemma keeps_handleDelete:
  assumes "handleDelete env now d h = Ok h'"
  shows "keeps now (Some (del_SequenceNumber d)) (h_sess h) (h_sess h')"
proof -
  obtain t r where "DeleteAs (env_compile env) (env_real env) (del_Targets d)
      (sess_auth (h_sess h)) (h_tree h) = (t, r)" by fastforce
  with assms keeps_respondError [of now _ "h\<lparr>h_tree := t\<rparr>"] keeps_reap_answer [of now _ "h\<lparr>h_tree := t\<rparr>"]
  show ?thesis by (auto simp: handleDelete_def Let_def split: result.splits)
qed

lemma keeps_handleCreate:
  assumes "handleCreate env now c h = Ok h'"
  shows "keeps now (Some (cr_SequenceNumber c)) (h_sess h) (h_sess h')"
proof -
  obtain t r where "CreateStagedAs (env_compile env) (env_real env) (newNodesPath (h_sess h))
      (case cr_Parent c of None \<Rightarrow> [] | Some p \<Rightarrow> p) (cr_Key c)
      (case cr_Value c of None \<Rightarrow> ValueNoValue | Some v \<Rightarrow> v) (sess_auth (h_sess h)) (h_tree h) = (t, r)"
    by fastforce
  with assms keeps_respondError [of now _ "h\<lparr>h_tree := t\<rparr>"] keeps_answerNodes [of now _ "h\<lparr>h_tree := t\<rparr>"]
  show ?thesis by (auto simp: handleCreate_def Let_def split: result.splits)
qed

lemma keeps_startOnce:
  "startOnce env now k aq h = Ok h' \<Longrightarrow> keeps now r (h_sess h) (h_sess h')"
  using keeps_deliverBatch by (auto simp: startOnce_def rbind_Ok_iff)

lemma keeps_registerQuery: "keeps now (Some (q_SequenceNumber q)) (h_sess h) (h_sess (snd (registerQuery q h)))"
  by (simp add: registerQuery_def Let_def split_beta on_sess_def keeps_addQuery)

lemma keeps_forgetQuery: "keeps now r (h_sess h) (h_sess (forgetQuery k h))"
  by (simp add: forgetQuery_def on_sess_def keeps_dropQuery)

lemma keeps_handleQuery:
  assumes "handleQuery env now q h = Ok h'"
  shows "keeps now (Some (q_SequenceNumber q)) (h_sess h) (h_sess h')"
proof (cases "ValidateQuery q")
  case (Ok u)
  let ?r = "Some (q_SequenceNumber q)"
  obtain aq h1 where reg: "registerQuery q h = (aq, h1)" by fastforce
  then have 1: "keeps now ?r (h_sess h) (h_sess h1)" using keeps_registerQuery [of now q h] by simp
  obtain h2 resp where h2: "(if q_CollectionMode q = CollectOnce
      then rbind (startOnce env now (q_SequenceNumber q) aq h1) (\<lambda>h. Ok (forgetQuery (q_SequenceNumber q) h))
      else Ok h1) = Ok h2" "h' = respondAndCache env now (q_SequenceNumber q) resp h2"
    using assms Ok reg by (auto simp: handleQuery_def Let_def rbind_Ok_iff)
  have "keeps now ?r (h_sess h1) (h_sess h2)"
    using h2(1) keeps_trans [OF keeps_startOnce keeps_forgetQuery]
    by (auto simp: rbind_Ok_iff split: if_splits)
  with 1 show ?thesis unfolding h2(2) by (intro keeps_trans [OF keeps_trans keeps_respondAndCache])
qed (use assms keeps_respondError in \<open>auto simp: handleQuery_def Let_def\<close>)

lemma keeps_dispatch:
  assumes "dispatch env now m h = Ok h'"
  shows "keeps now (requestSeq m) (h_sess h) (h_sess h')"
proof (cases m)
  case (MsgSummaryAck a)
  with assms show ?thesis
    using keeps_sender [OF HandleAck_ok, of "h_sess h"] by (auto simp: dispatch_def on_sess_def)
qed (use assms in \<open>simp_all add: dispatch_def keeps_handleGet keeps_handleSet keeps_handleCreate
  keeps_handleQuery keeps_handleDelete\<close>)

section \<open>Queries and timers\<close>

lemma keeps_deliver_put:
  assumes "map_of (activeQueries (h_sess h)) k \<noteq> None"
  shows "keeps now r (h_sess h) (h_sess (putQuery k aq (snd (deliverBatch env now k batch sink h))))"
  using assms by (intro keeps_trans [OF keeps_deliverBatch keeps_putQuery]) simp

lemma keeps_queryStart:
  assumes "queryStart env now k h = Ok h'"
  shows "keeps now r (h_sess h) (h_sess h')"
proof (cases "map_of (activeQueries (h_sess h)) k")
  case (Some aq)
  note put = keeps_deliver_put [of h k now r] keeps_putQuery [of h k now r]
  show ?thesis
    using assms Some put
    by (auto simp: queryStart_def Let_def split_beta rbind_Ok_iff split: if_splits prod.splits)
qed (use assms in \<open>simp add: queryStart_def\<close>)

lemma keeps_queryTick:
  assumes "queryTick env now k tick h = Ok h'"
  shows "keeps now r (h_sess h) (h_sess h')"
proof (cases "map_of (activeQueries (h_sess h)) k")
  case (Some aq)
  with assms keeps_deliver_put [of h k now r] show ?thesis
    by (auto simp: queryTick_def Let_def split_beta rbind_Ok_iff split: if_splits)
qed (use assms in \<open>simp add: queryTick_def\<close>)

lemma sendDatagram_sess [simp]: "h_sess (snd (sendDatagram env p h)) = h_sess h" "h_tree (snd (sendDatagram env p h)) = h_tree h"
  by (simp_all add: sendDatagram_def Let_def)

lemma fold_sendDatagram [simp]:
  "h_sess (fold (\<lambda>p h. snd (sendDatagram env p h)) ps h) = h_sess h"
  "h_tree (fold (\<lambda>p h. snd (sendDatagram env p h)) ps h) = h_tree h"
  by (induction ps arbitrary: h) simp_all

lemma keeps_ackTick: "keeps now r (h_sess h) (h_sess (ackTick env h))"
  by (simp add: ackTick_def Let_def)

lemma keeps_retransmitTick: "keeps now r (h_sess h) (h_sess (retransmitTick env now' h))"
  using keeps_sender [OF retransmitDue_ok [of "ss_sender (h_sess h)" now']]
  by (simp add: retransmitTick_def split_beta on_sess_def)

section \<open>Messages\<close>

lemma resendCached_keeps: "keeps now None (h_sess h) (h_sess (resendCached env now' k h))"
proof (cases "respCache (h_sess h) k")
  case (Some c)
  let ?h = "snd (sendResponse env now' (cd_resp c) h)"
  let ?resp = "(cd_resp c)\<lparr>rs_SequenceNumber := nextSeq (h_sess h) + 1\<rparr>"
  have 1: "keeps now None (h_sess h) (h_sess ?h)" by (rule keeps_sendResponse)
  have c: "respCache (h_sess ?h) = respCache (h_sess h)"
    by (simp add: sendResponse_def transmit_def sendDatagram_def allocSeq_def Let_def split_beta)
  have "same_entry c (c\<lparr>cd_resp := ?resp\<rparr>)" by (simp add: same_entry_def same_answer_def)
  then have "keeps now None (h_sess ?h)
      ((h_sess ?h)\<lparr>respCache := (respCache (h_sess ?h))(k \<mapsto> c\<lparr>cd_resp := ?resp\<rparr>)\<rparr>)"
    using Some c
    by (intro keeps_cache) (auto simp: sameButCache_def cache_ok_def liveOrder_def cached_kept_def)
  with 1 have "keeps now None (h_sess h)
      ((h_sess ?h)\<lparr>respCache := (respCache (h_sess ?h))(k \<mapsto> c\<lparr>cd_resp := ?resp\<rparr>)\<rparr>)"
    by (rule keeps_trans)
  with Some show ?thesis by (simp add: resendCached_def split_beta)
qed (simp add: resendCached_def)

lemma sess_inv_mono: "sess_inv t s \<Longrightarrow> t \<le> now \<Longrightarrow> sess_inv now s"
  by (auto simp: sess_inv_def cache_ok_def intro: order_trans)

lemma sess_inv_mark: "sess_inv t s \<Longrightarrow> sess_inv t (s\<lparr>ss_receiver := fst (MarkReceived (ss_receiver s) k)\<rparr>)"
  using rcv.mark_inv [of "ss_receiver s" k] by (auto simp: sess_inv_def cache_ok_def liveOrder_def)

text \<open>What holds between two events: only processed requests have cached answers or running queries.\<close>

definition session_ok :: "int \<Rightarrow> Session \<Rightarrow> bool" where
  "session_ok now s \<longleftrightarrow> sess_inv now s \<and> (\<forall>k. respCache s k \<noteq> None \<longrightarrow> seen (ss_receiver s) k) \<and>
     (\<forall>k \<in> running s. seen (ss_receiver s) k)"

lemma session_ok_keeps:
  assumes "session_ok now s" "keeps now r s s'" "\<And>k. r = Some k \<Longrightarrow> seen (ss_receiver s) k"
  shows "session_ok now s'"
proof -
  have "cached_kept now r s s'" "sess_inv now s'" "ss_receiver s' = ss_receiver s"
    and runs: "running s' \<subseteq> running s \<union> {k. r = Some k}"
    using assms by (auto simp: keeps_def session_ok_def)
  then have "\<forall>k. respCache s' k \<noteq> None \<longrightarrow> seen (ss_receiver s') k"
    using assms unfolding session_ok_def cached_kept_def by metis
  moreover have "\<forall>k \<in> running s'. seen (ss_receiver s') k"
    using runs assms(1,3) \<open>ss_receiver s' = ss_receiver s\<close> by (auto simp: session_ok_def)
  ultimately show ?thesis using \<open>sess_inv now s'\<close> by (simp add: session_ok_def)
qed

definition executed :: "session_event \<Rightarrow> host \<Rightarrow> i64 option" where
  "executed ev h =
     (case ev of
        Datagram data \<Rightarrow>
          (case UnmarshalMessage data of
             Ok m \<Rightarrow> (case requestSeq m of
                 Some k \<Rightarrow> if seen (ss_receiver (h_sess h)) k then None else Some k | None \<Rightarrow> None)
           | _ \<Rightarrow> None)
      | _ \<Rightarrow> None)"

lemma seen_marked: "receiver_ok r \<Longrightarrow> bounded r \<Longrightarrow> seen r t \<or> t = k \<Longrightarrow> seen (fst (MarkReceived r k)) t"
  using rcv.mark_known [of r t k] by simp

lemma handleMessage_dup:
  assumes "requestSeq m = Some k" "seen (ss_receiver (h_sess h)) k"
  shows "handleMessage env now m h = Ok (resendCached env now k h)"
proof -
  have "MarkReceived (ss_receiver (h_sess h)) k = (ss_receiver (h_sess h), False)"
    using assms(2) by (simp add: MarkReceived_def seen_def)
  moreover have same: "on_sess (ss_receiver_update (\<lambda>_. ss_receiver (h_sess h))) h = h"
    by (simp add: on_sess_def)
  ultimately show ?thesis using assms(1) by (simp add: handleMessage_def same)
qed

lemma handleMessage_cases:
  assumes "handleMessage env now m h = Ok h'"
  obtains "requestSeq m = None" "dispatch env now m h = Ok h'"
  | k where "requestSeq m = Some k" "seen (ss_receiver (h_sess h)) k" "h' = resendCached env now k h"
  | k where "requestSeq m = Some k" "\<not> seen (ss_receiver (h_sess h)) k"
      "dispatch env now m (on_sess (\<lambda>s. s\<lparr>ss_receiver := fst (MarkReceived (ss_receiver (h_sess h)) k)\<rparr>) h) = Ok h'"
proof (cases "requestSeq m")
  case (Some k)
  show thesis
  proof (cases "seen (ss_receiver (h_sess h)) k")
    case True
    with that(2) [OF Some True] assms handleMessage_dup [OF Some True] show thesis by simp
  next
    case False
    then have "snd (MarkReceived (ss_receiver (h_sess h)) k)" using rcv.new_iff by simp
    with that(3) [OF Some False] assms Some show thesis by (simp add: handleMessage_def split_beta Let_def)
  qed
qed (use that(1) assms in \<open>simp add: handleMessage_def\<close>)

text \<open>The effect of one event on the session.\<close>

lemma sessionStep_ok:
  assumes ok: "session_ok now (h_sess h)" and step: "sessionStep env now ev h = Ok h'"
  shows "session_ok now (h_sess h') \<and> cached_kept now (executed ev h) (h_sess h) (h_sess h') \<and>
    fixed (h_sess h) (h_sess h') \<and> running (h_sess h') \<subseteq> running (h_sess h) \<union> {k. executed ev h = Some k} \<and>
    (\<forall>k. seen (ss_receiver (h_sess h)) k \<or> executed ev h = Some k \<longrightarrow> seen (ss_receiver (h_sess h')) k)"
proof -
  let ?s = "h_sess h" and ?s' = "h_sess h'"
  have plain: ?thesis if "keeps now None ?s ?s'" "executed ev h = None"
    using that ok session_ok_keeps [OF ok that(1)] by (auto simp: keeps_def session_ok_def)
  show ?thesis
  proof (cases ev)
    case (Datagram data)
    show ?thesis
    proof (cases "UnmarshalMessage data")
      case (Ok m)
      then have hm: "handleMessage env now m h = Ok h'"
        using step Datagram by (simp add: sessionStep_def receiveDatagram_def)
      show ?thesis
      proof (cases rule: handleMessage_cases [OF hm])
        case 1
        with plain keeps_dispatch [OF 1(2)] Datagram Ok show ?thesis by (simp add: executed_def)
      next
        case (2 k)
        with plain resendCached_keeps [of now h env now k] Datagram Ok show ?thesis by (simp add: executed_def)
      next
        case (3 k)
        let ?u = "?s\<lparr>ss_receiver := fst (MarkReceived (ss_receiver ?s) k)\<rparr>"
        have rcv: "receiver_ok (ss_receiver ?s)" "bounded (ss_receiver ?s)"
          using ok by (auto simp: session_ok_def sess_inv_def)
        have u: "session_ok now ?u"
          using ok sess_inv_mark seen_marked [OF rcv] by (auto simp: session_ok_def running_def)
        have k: "keeps now (Some k) ?u ?s'" using keeps_dispatch [OF 3(3)] 3(1) by simp
        have "executed ev h = Some k" using Datagram Ok 3 by (simp add: executed_def)
        moreover have "session_ok now ?s'" using session_ok_keeps [OF u k] seen_marked [OF rcv] by simp
        moreover have "cached_kept now (Some k) ?u ?s'" "fixed ?u ?s'" "ss_receiver ?s' = ss_receiver ?u"
          "running ?s' \<subseteq> running ?s \<union> {j. Some k = Some j}"
          using k u by (auto simp: keeps_def session_ok_def running_def)
        ultimately show ?thesis using seen_marked [OF rcv] by (auto simp: cached_kept_def fixed_def)
      qed
    qed (use step Datagram plain in \<open>simp_all add: sessionStep_def receiveDatagram_def executed_def\<close>)
  qed (use step plain keeps_ackTick keeps_retransmitTick keeps_queryStart keeps_queryTick
      in \<open>auto simp: sessionStep_def executed_def\<close>)
qed

section \<open>Runs\<close>

text \<open>
  A run from one host and time to another, with the requests executed on the way. Between two
  events other sessions may leave any tree.
\<close>

inductive session_run :: "env \<Rightarrow> host \<Rightarrow> int \<Rightarrow> i64 list \<Rightarrow> host \<Rightarrow> int \<Rightarrow> bool" for env h0 t0 where
  start: "session_run env h0 t0 [] h0 t0"
| event: "session_run env h0 t0 log h t \<Longrightarrow> t \<le> now \<Longrightarrow> sessionStep env now ev h = Ok h' \<Longrightarrow>
    session_run env h0 t0 (log @ (case executed ev h of None \<Rightarrow> [] | Some k \<Rightarrow> [k])) h' now"
| others: "session_run env h0 t0 log h t \<Longrightarrow> session_run env h0 t0 log (h\<lparr>h_tree := u\<rparr>) t"

lemma session_run_ok:
  assumes "session_run env h0 t0 log h t" "session_ok t0 (h_sess h0)"
  shows "session_ok t (h_sess h) \<and> t0 \<le> t \<and> distinct log \<and>
    (\<forall>k \<in> set log. \<not> seen (ss_receiver (h_sess h0)) k) \<and>
    (\<forall>k. seen (ss_receiver (h_sess h0)) k \<or> k \<in> set log \<longrightarrow> seen (ss_receiver (h_sess h)) k)"
  using assms
proof (induction rule: session_run.induct)
  case (event log h t now ev h')
  note IH = event.IH [OF event.prems]
  have ok: "session_ok now (h_sess h)"
    using IH event.hyps(2) sess_inv_mono by (auto simp: session_ok_def)
  have step: "session_ok now (h_sess h')" "\<And>k. seen (ss_receiver (h_sess h)) k \<or> executed ev h = Some k \<Longrightarrow>
      seen (ss_receiver (h_sess h')) k" using sessionStep_ok [OF ok event.hyps(3)] by blast+
  have new: "\<not> seen (ss_receiver (h_sess h)) k" if "executed ev h = Some k" for k
    using that by (auto simp: executed_def split: session_event.splits result.splits option.splits if_splits)
  have "t0 \<le> now" using IH event.hyps(2) by simp
  show ?case
  proof (cases "executed ev h")
    case None
    with IH step \<open>t0 \<le> now\<close> show ?thesis by simp
  next
    case (Some k)
    with IH new have "distinct (log @ [k])" "\<not> seen (ss_receiver (h_sess h0)) k" by auto
    with IH step Some \<open>t0 \<le> now\<close> show ?thesis by simp
  qed
qed simp_all

text \<open>A query that is not running and whose request was executed does not come back.\<close>

lemma session_run_stopped:
  assumes "session_run env h0 t0 log h t" "session_ok t0 (h_sess h0)"
    and "seen (ss_receiver (h_sess h0)) k" "k \<notin> running (h_sess h0)"
  shows "k \<notin> running (h_sess h)"
  using assms
proof (induction rule: session_run.induct)
  case (event log h t now ev h')
  note run = session_run_ok [OF event.hyps(1) event.prems(1)]
  have ok: "session_ok now (h_sess h)"
    using run event.hyps(2) sess_inv_mono by (auto simp: session_ok_def)
  have "executed ev h \<noteq> Some k"
    using run event.prems(2) by (auto simp: executed_def split: session_event.splits result.splits option.splits if_splits)
  then have "k \<notin> running (h_sess h')" if "k \<notin> running (h_sess h)"
    using sessionStep_ok [OF ok event.hyps(3)] that by blast
  with event show ?case by blast
qed simp_all

lemma session_run_cached:
  assumes "session_run env h0 t0 log h t" "session_ok t0 (h_sess h0)"
    and "seen (ss_receiver (h_sess h0)) k" "respCache (h_sess h0) k = Some c" "t - cd_at c \<le> respCacheTTL"
  shows "\<exists>c'. respCache (h_sess h) k = Some c' \<and> same_entry c c'"
  using assms
proof (induction rule: session_run.induct)
  case start
  then show ?case by auto
next
  case (event log h t now ev h')
  note run = session_run_ok [OF event.hyps(1) event.prems(1)]
  have "t - cd_at c \<le> respCacheTTL" using event.hyps(2) event.prems(4) by linarith
  then obtain c1 where c1: "respCache (h_sess h) k = Some c1" "same_entry c c1"
    using event by blast
  have ok: "session_ok now (h_sess h)"
    using run event.hyps(2) sess_inv_mono by (auto simp: session_ok_def)
  have "executed ev h \<noteq> Some k"
    using run event.prems(2) by (auto simp: executed_def split: session_event.splits result.splits option.splits if_splits)
  then have "\<exists>c'. respCache (h_sess h') k = Some c' \<and> same_entry c1 c'"
    using sessionStep_ok [OF ok event.hyps(3)] c1 event.prems(4)
    unfolding cached_kept_def same_entry_def by metis
  with c1(2) same_entry_trans show ?case by blast
next
  case (others log h t u)
  then show ?case by simp
qed

end
