(* ===== verification/Session_Answers.thy ===== *)
theory Session_Answers
  imports Session_Run Paging
begin

text \<open>
  What a session answers: the response each handler sends and caches, and the window of a result
  that a connection with a fixed datagram limit accepts.
\<close>

section \<open>Answers are sent and cached\<close>

definition answered :: "int \<Rightarrow> i64 \<Rightarrow> host \<Rightarrow> cachedResponse \<Rightarrow> bool" where
  "answered now k h c \<longleftrightarrow> respCache (h_sess h) k = Some c \<and> cd_at c = now \<and>
     rs_InReplyTo (cd_resp c) = k \<and> (\<exists>r. (responseBytes (cd_resp c), r) \<in> set (h_sent h))"

lemma sess_inv_cache: "sess_inv t s \<Longrightarrow> cache_ok t s"
  by (simp add: sess_inv_def)

lemma cacheResponseAt_entry:
  assumes "cache_ok now s"
  shows "respCache (cacheResponseAt k resp now s) k = Some \<lparr>cd_resp = resp, cd_at = now\<rparr>"
  using cacheResponseAt_ok(2) [OF assms order_refl, of k resp] by (simp add: unexpired_def respCacheTTL_def)

lemma respondAndCache_answered:
  assumes "sess_inv now (h_sess h)" "rs_InReplyTo resp = k"
  shows "\<exists>c. answered now k (respondAndCache env now k resp h) c"
proof -
  let ?h = "snd (sendResponse env now resp h)"
  have "cache_ok now (h_sess ?h)"
    using keeps_sendResponse [of now None h env now resp] assms(1) by (auto simp: keeps_def sess_inv_def)
  from cacheResponseAt_entry [OF this] assms(2) show ?thesis
    by (auto simp: answered_def respondAndCache_def split_beta)
qed

lemma answered_after:
  assumes "keeps now r (h_sess h) (h_sess hx)" "sess_inv now (h_sess h)" "rs_InReplyTo resp = k"
  shows "\<exists>c. answered now k (respondAndCache env now k resp hx) c"
  using respondAndCache_answered [of now hx resp k env] assms by (auto simp: keeps_def)

lemma respondError_answered:
  assumes "sess_inv now (h_sess h)"
  shows "\<exists>c. answered now k (respondError env now k code message h) c"
  using respondAndCache_answered [of now "snd (recordError code message k h)"] assms
  by (simp add: respondError_def split_beta keeps_recordError)

lemma answerNodes_answered:
  assumes "sess_inv now (h_sess h)"
  shows "\<exists>c. answered now k (answerNodes env now k ns h) c"
  unfolding answerNodes_def by (rule respondAndCache_answered [OF assms]) simp

lemma reap_answered:
  assumes "sess_inv now (h_sess h)"
  shows "\<exists>c. answered now k (answerNodes env now k ns (reapCancelledQueries h)) c"
  using answerNodes_answered keeps_reap [of now None h] assms by (auto simp: keeps_def)

lemma handleSet_answered:
  assumes "handleSet env now s h = Ok h1" "sess_inv now (h_sess h)"
  shows "\<exists>c. answered now (set_SequenceNumber s) h1 c"
proof -
  obtain t r where "SetAs (env_compile env) (env_real env) s (Some (newNodesPath (h_sess h)))
      (sess_auth (h_sess h)) (h_tree h) = (t, r)" by fastforce
  with assms respondError_answered [of now "h\<lparr>h_tree := t\<rparr>"] reap_answered [of now "h\<lparr>h_tree := t\<rparr>"]
  show ?thesis by (auto simp: handleSet_def Let_def split: result.splits)
qed

lemma handleDelete_answered:
  assumes "handleDelete env now d h = Ok h1" "sess_inv now (h_sess h)"
  shows "\<exists>c. answered now (del_SequenceNumber d) h1 c"
proof -
  obtain t r where "DeleteAs (env_compile env) (env_real env) (del_Targets d)
      (sess_auth (h_sess h)) (h_tree h) = (t, r)" by fastforce
  with assms respondError_answered [of now "h\<lparr>h_tree := t\<rparr>"] reap_answered [of now "h\<lparr>h_tree := t\<rparr>"]
  show ?thesis by (auto simp: handleDelete_def Let_def split: result.splits)
qed

lemma handleCreate_answered:
  assumes "handleCreate env now c h = Ok h1" "sess_inv now (h_sess h)"
  shows "\<exists>x. answered now (cr_SequenceNumber c) h1 x"
proof -
  obtain t r where "CreateStagedAs (env_compile env) (env_real env) (newNodesPath (h_sess h))
      (case cr_Parent c of None \<Rightarrow> [] | Some p \<Rightarrow> p) (cr_Key c)
      (case cr_Value c of None \<Rightarrow> ValueNoValue | Some v \<Rightarrow> v) (sess_auth (h_sess h)) (h_tree h) = (t, r)"
    by fastforce
  with assms respondError_answered [of now "h\<lparr>h_tree := t\<rparr>"] answerNodes_answered [of now "h\<lparr>h_tree := t\<rparr>"]
  show ?thesis by (auto simp: handleCreate_def Let_def split: result.splits)
qed

lemma handleQuery_answered:
  assumes "handleQuery env now q h = Ok h1" "sess_inv now (h_sess h)"
  shows "\<exists>x. answered now (q_SequenceNumber q) h1 x"
proof (cases "ValidateQuery q")
  case (Ok u)
  let ?k = "q_SequenceNumber q"
  obtain aq hx where reg: "registerQuery q h = (aq, hx)" by fastforce
  obtain hy where hy: "(if q_CollectionMode q = CollectOnce
      then rbind (startOnce env now ?k aq hx) (\<lambda>h. Ok (forgetQuery ?k h)) else Ok hx) = Ok hy"
    "h1 = respondAndCache env now ?k \<lparr>rs_SequenceNumber = 0, rs_InReplyTo = ?k, rs_Error = False,
       rs_ErrorNode = None, rs_Nodes = []\<rparr> hy"
    using assms(1) Ok reg by (auto simp: handleQuery_def Let_def rbind_Ok_iff)
  have "keeps now (Some ?k) (h_sess h) (h_sess hx)" using keeps_registerQuery [of now q h] reg by simp
  moreover have "keeps now (Some ?k) (h_sess hx) (h_sess hy)"
    using hy(1) keeps_trans [OF keeps_startOnce keeps_forgetQuery]
    by (auto simp: rbind_Ok_iff split: if_splits)
  ultimately have "keeps now (Some ?k) (h_sess h) (h_sess hy)" by (rule keeps_trans)
  then show ?thesis unfolding hy(2) by (rule answered_after [OF _ assms(2)]) simp
qed (use assms respondError_answered in \<open>auto simp: handleQuery_def Let_def\<close>)

lemma sendAttempts_answered:
  assumes "respCache (h_sess h) k = None" "sess_inv now (h_sess h)"
    and "respCache (h_sess (sendAttempts n env now q k xs r b cache ns h)) k = Some c"
  shows "answered now k (sendAttempts n env now q k xs r b cache ns h) c"
  using assms
proof (induction n arbitrary: ns h)
  case (Suc n)
  let ?resp = "buildResponse q k ns"
  obtain err h1 where t: "transmit env now q (responseBytes ?resp) h = (err, h1)" by fastforce
  have k1: "keeps now None (h_sess h) (h_sess h1)"
    using keeps_transmit [of now None h env now q "responseBytes ?resp"] t by simp
  have inv: "sess_inv now (h_sess h1)" using k1 Suc.prems(2) by (simp add: keeps_def)
  have none: "respCache (h_sess h1) k = None"
    using k1 Suc.prems(1,2) unfolding keeps_def cached_kept_def by blast
  have sent: "h_sent h1 = h_sent h @ [(responseBytes ?resp, err)]"
    using transmit_fields(4,5) [of env now q "responseBytes ?resp" h] t by simp
  show ?case
  proof (cases err)
    case SendOk
    note entry = cacheResponseAt_entry [OF sess_inv_cache [OF inv], of k ?resp]
    have "rs_InReplyTo ?resp = k" by (simp add: buildResponse_def)
    with SendOk Suc.prems(3) t none entry sent show ?thesis
      by (auto simp: answered_def split: if_splits)
  next
    case (DatagramTooLarge limit)
    let ?h = "on_sess (\<lambda>s. setMaxDatagramSize limit (s\<lparr>ss_sender := Cancel q (ss_sender s)\<rparr>)) h1"
    have k2: "keeps now None (h_sess h1) (h_sess ?h)"
      using keeps_trans [OF keeps_sender keeps_setMax] Cancel_ok by simp
    have "sess_inv now (h_sess ?h)" using k2 inv by (simp add: keeps_def)
    moreover have "respCache (h_sess ?h) k = None"
      using k2 inv none unfolding keeps_def cached_kept_def by blast
    moreover have "respCache (h_sess ?h) k = None" by fact
    ultimately show ?thesis using Suc.IH [of ?h] Suc.prems(3) DatagramTooLarge t
      by (auto simp: Let_def split: if_splits)
  qed (use Suc.prems(3) t none in simp)
qed simp

lemma sendFittedNodes_answered:
  assumes "respCache (h_sess h) k = None" "sess_inv now (h_sess h)"
    and "respCache (h_sess (sendFittedNodes env now k xs r b cache h)) k = Some c"
  shows "answered now k (sendFittedNodes env now k xs r b cache h) c"
proof -
  let ?h = "h\<lparr>h_sess := snd (allocSeq (h_sess h))\<rparr>"
  have "respCache (h_sess ?h) k = None" "sess_inv now (h_sess ?h)"
    using assms(1,2) keeps_allocSeq [of now None "h_sess h"] by (auto simp: allocSeq_def keeps_def)
  with sendAttempts_answered [of ?h] assms(3) show ?thesis
    by (auto simp: sendFittedNodes_def Let_def split_beta split: if_splits)
qed

text \<open>Every request is answered, except perhaps a get whose result cannot be sent.\<close>

lemma dispatch_answered:
  assumes "dispatch env now m h = Ok h1" "requestSeq m = Some k"
    and "sess_inv now (h_sess h)" "respCache (h_sess h) k = None"
  shows "(\<exists>c. answered now k h1 c) \<or>
    (\<exists>g xs r b. m = MsgGet g \<and> h1 = sendFittedNodes env now k xs r b True h \<and> respCache (h_sess h1) k = None)"
proof (cases m)
  case (MsgGet g)
  then have k: "k = get_SequenceNumber g" using assms(2) by simp
  have hg: "handleGet env now g h = Ok h1" using assms(1) MsgGet by (simp add: dispatch_def)
  consider code msg where "h1 = respondError env now k code msg h"
    | xs r b where "h1 = sendFittedNodes env now k xs r b True h"
    using hg k by (auto simp: handleGet_def Let_def split: NodePointer.splits result.splits)
  then show ?thesis
  proof cases
    case 1
    with respondError_answered [OF assms(3)] show ?thesis by blast
  next
    case 2
    with sendFittedNodes_answered [OF assms(4,3)] MsgGet show ?thesis
      by (cases "respCache (h_sess h1) k") blast+
  qed
qed (use assms in \<open>auto simp: dispatch_def dest: handleSet_answered handleCreate_answered
  handleQuery_answered handleDelete_answered\<close>)

section \<open>A window that fits\<close>

lemma fixup_forward:
  assumes "forward n i p" "n < 2 ^ 63"
  shows "fixupPointer i n base p = p"
proof -
  obtain d where d: "p = offset d" "i + d < n" using assms(1) by (auto simp: forward_def)
  with assms(2) fixup_offset [of i d n base] show ?thesis by simp
qed

text \<open>The whole remainder needs no continuation.\<close>

lemma fixupWindow_all:
  assumes "length (flats ms) < 2 ^ 63" "r \<le> length (flats ms)"
  shows "fixupWindow (flats ms) r (length (flats ms) - r) base = drop r (flats ms)"
proof (rule nth_equalityI)
  fix i
  assume "i < length (fixupWindow (flats ms) r (length (flats ms) - r) base)"
  then have i: "i < length (flats ms) - r" "r + i < vsizes ms"
    using assms(2) by (simp_all add: length_fixupWindow length_flats)
  let ?x = "flats ms ! (r + i)"
  have "forward (length (flats ms)) (r + i) (nd_FirstChild ?x)"
    "forward (length (flats ms)) (r + i) (nd_NextSibling ?x)"
    using flat_forward(2) [OF i(2)] by (simp_all add: length_flats)
  then have "fixupNode (r + i) (length (flats ms)) base ?x = ?x"
    using assms(1) by (simp add: fixupNode_def fixup_forward)
  with i assms(2) show "fixupWindow (flats ms) r (length (flats ms) - r) base ! i = drop r (flats ms) ! i"
    by (simp add: window_nth)
qed (use assms(2) in \<open>simp add: length_fixupWindow\<close>)

text \<open>When one entry fits, \<open>FitToSize\<close> returns at least one.\<close>

lemma dipLoop_first: "P n \<Longrightarrow> n \<le> lo + dipSpan \<Longrightarrow> n < whole_n \<Longrightarrow> n \<le> dipLoop P whole_n lo n"
proof -
  assume a: "P n" "n \<le> lo + dipSpan" "n < whole_n"
  then have "dipLoop P whole_n lo n = dipLoop P whole_n n (n + 1)" by (subst dipLoop.simps) simp
  with dipLoop_bounds [of n "n + 1" whole_n P] a(3) show ?thesis by simp
qed

lemma FitToSize_pos:
  assumes "r < length xs" "msize (fixupWindow xs r 1 base) \<le> maxSize"
  obtains n where "fst (FitToSize xs r base maxSize msize) = fixupWindow xs r n base" "0 < n"
    "n \<le> length xs - r" "msize (fixupWindow xs r n base) \<le> maxSize"
proof -
  let ?fits = "\<lambda>n. msize (fixupWindow xs r n base) \<le> maxSize"
  let ?whole_n = "length xs - r"
  show thesis
  proof (cases "?fits ?whole_n")
    case True
    with assms(1) show thesis by (intro that [of ?whole_n]) (simp_all add: FitToSize_def Let_def)
  next
    case False
    define lo where "lo = searchLoop ?fits 0 (?whole_n - 1)"
    define n where "n = dipLoop ?fits ?whole_n lo (lo + 1)"
    have lo: "lo \<le> ?whole_n - 1" "lo = 0 \<or> ?fits lo"
      using searchLoop_bounds [of 0 "?whole_n - 1" ?fits] by (auto simp: lo_def)
    have whole_n: "1 < ?whole_n" using assms False by (cases "?whole_n = 1") auto
    have n: "lo \<le> n" "n < ?whole_n" "n = lo \<or> ?fits n"
      using dipLoop_bounds [of lo "lo + 1" ?whole_n ?fits] lo(1) whole_n by (auto simp: n_def)
    have pos: "0 < n"
    proof (cases "lo = 0")
      case True
      with dipLoop_first [of ?fits 1 0 ?whole_n] assms(2) whole_n show ?thesis by (simp add: n_def dipSpan_def)
    qed (use n(1) in simp)
    have "?fits n" using n(3) lo(2) pos by auto
    moreover have "fst (FitToSize xs r base maxSize msize) = fixupWindow xs r n base"
      using False pos assms(1) unfolding FitToSize_def Let_def n_def lo_def by simp
    ultimately show thesis using that pos n(2) by simp
  qed
qed

section \<open>Sending over a connection with a fixed limit\<close>

definition limited :: "env \<Rightarrow> int \<Rightarrow> bool" where
  "limited env limit \<longleftrightarrow> (\<forall>k p. env_net env k p =
     (if int (length p) \<le> limit then SendOk else DatagramTooLarge limit))"

text \<open>The state in which a window of \<open>xs\<close> has just been accepted.\<close>

definition accepted :: "int \<Rightarrow> (byte list \<times> sendResult) list \<Rightarrow> i64 \<Rightarrow> i64 \<Rightarrow> Node list \<Rightarrow> host \<Rightarrow> bool" where
  "accepted limit log q k ns h \<longleftrightarrow> measureResponse q k ns \<le> limit \<and> (\<exists>rejected. h_sent h =
     log @ rejected @ [(responseBytes (buildResponse q k ns), SendOk)] \<and> length rejected \<le> 1 \<and>
     (\<forall>x \<in> set rejected. snd x \<noteq> SendOk))"

lemma sendAttempts_limited:
  assumes lim: "limited env limit" and r: "r < length xs"
    and one: "measureResponse q k (fixupWindow xs r 1 b) \<le> limit"
    and w: "ns = fixupWindow xs r m b" "0 < m" "m \<le> length xs - r"
  shows "\<exists>n. 0 < n \<and> r + n \<le> length xs \<and>
    accepted limit (h_sent h) q k (fixupWindow xs r n b) (sendAttempts 2 env now q k xs r b cache ns h)"
proof -
  have two: "(2 :: nat) = Suc (Suc 0)" by simp
  have ok: "\<exists>n. 0 < n \<and> r + n \<le> length xs \<and>
      accepted limit (h_sent h) q k (fixupWindow xs r n b) (sendAttempts (Suc j) env now q k xs r b cache ns h)"
    if "measureResponse q k ns \<le> limit" "ns = fixupWindow xs r m b" "0 < m" "m \<le> length xs - r" for j ns m h
  proof -
    have "env_net env (length (h_sent h)) (responseBytes (buildResponse q k ns)) = SendOk"
      using lim that(1) by (simp add: limited_def measureResponse_def)
    with that r show ?thesis
      by (intro exI [of _ m]) (auto simp: accepted_def split_beta Let_def intro!: exI [of _ "[]"])
  qed
  show ?thesis
  proof (cases "measureResponse q k ns \<le> limit")
    case True
    from ok [OF this w, of h 1] show ?thesis by (simp add: two del: sendAttempts.simps)
  next
    case False
    obtain n where n: "fst (FitToSize xs r b limit (measureResponse q k)) = fixupWindow xs r n b" "0 < n"
      "n \<le> length xs - r" "measureResponse q k (fixupWindow xs r n b) \<le> limit"
      using FitToSize_pos [where msize = "measureResponse q k" and base = b and maxSize = limit, OF r one] by blast
    let ?p = "responseBytes (buildResponse q k ns)"
    have net: "env_net env (length (h_sent h)) ?p = DatagramTooLarge limit"
      using lim False by (simp add: limited_def measureResponse_def)
    let ?h = "on_sess (\<lambda>s. setMaxDatagramSize limit (s\<lparr>ss_sender := Cancel q (ss_sender s)\<rparr>))
      (snd (transmit env now q ?p h))"
    have "length (fixupWindow xs r n b) = n" using n r by (intro length_fixupWindow) simp
    then have ne: "fixupWindow xs r n b \<noteq> []" using n(2) by auto
    have eq: "sendAttempts 2 env now q k xs r b cache ns h =
        sendAttempts (Suc 0) env now q k xs r b cache (fixupWindow xs r n b) ?h"
      unfolding two sendAttempts.simps(2) [of "Suc 0"]
      by (simp only: split_beta Let_def transmit_fields net n(1) ne length_0_conv sendResult.case
          simp_thms if_False)
    have len: "h_sent (sendAttempts (Suc 0) env now q k xs r b cache (fixupWindow xs r n b) ?h) =
        h_sent ?h @ [(responseBytes (buildResponse q k (fixupWindow xs r n b)), SendOk)]"
      using lim n(4) by (simp add: limited_def measureResponse_def split_beta Let_def)
    have "accepted limit (h_sent h) q k (fixupWindow xs r n b)
        (sendAttempts (Suc 0) env now q k xs r b cache (fixupWindow xs r n b) ?h)"
      unfolding accepted_def len using n(4)
      by (intro conjI exI [of _ "[(?p, DatagramTooLarge limit)]"]) (simp_all add: net)
    with eq n(2,3) r show ?thesis by (intro exI [of _ n]) simp
  qed
qed

text \<open>Enough room for one entry, at the limit and at whatever size the session starts from.\<close>

definition room_for_one :: "int \<Rightarrow> Session \<Rightarrow> i64 \<Rightarrow> Node list \<Rightarrow> nat \<Rightarrow> string \<Rightarrow> bool" where
  "room_for_one limit s k xs r b \<longleftrightarrow>
     (let size = measureResponse (nextSeq s + 1) k (fixupWindow xs r 1 b)
      in size \<le> limit \<and> (getMaxDatagramSize s > 0 \<longrightarrow> size \<le> getMaxDatagramSize s))"

lemma sendFittedNodes_limited:
  assumes lim: "limited env limit" and N: "length (flats ms) < 2 ^ 63" and r: "r < length (flats ms)"
    and room: "room_for_one limit (h_sess h) k (flats ms) r b"
  shows "\<exists>n. 0 < n \<and> r + n \<le> length (flats ms) \<and>
    accepted limit (h_sent h) (nextSeq (h_sess h) + 1) k (fixupWindow (flats ms) r n b)
      (sendFittedNodes env now k (flats ms) r b cache h)"
proof -
  let ?q = "nextSeq (h_sess h) + 1" and ?xs = "flats ms"
  let ?h = "h\<lparr>h_sess := snd (allocSeq (h_sess h))\<rparr>"
  let ?cached = "getMaxDatagramSize (h_sess h)"
  have one: "measureResponse ?q k (fixupWindow ?xs r 1 b) \<le> limit"
    using room by (simp add: room_for_one_def Let_def)
  have cached: "getMaxDatagramSize (snd (allocSeq (h_sess h))) = ?cached"
    by (simp add: allocSeq_def getMaxDatagramSize_def)
  note att = sendAttempts_limited [OF lim r one, where h = ?h and now = now and cache = cache, simplified]
  show ?thesis
  proof (cases "?cached > 0 \<and> measureResponse ?q k (drop r ?xs) > ?cached")
    case True
    then have "measureResponse ?q k (fixupWindow ?xs r 1 b) \<le> ?cached"
      using room by (simp add: room_for_one_def Let_def)
    then obtain n where n: "fst (FitToSize ?xs r b ?cached (measureResponse ?q k)) = fixupWindow ?xs r n b"
      "0 < n" "n \<le> length ?xs - r"
      using FitToSize_pos [where msize = "measureResponse ?q k" and base = b and maxSize = ?cached, OF r] by blast
    have "length (fixupWindow ?xs r n b) = n" using n r by (intro length_fixupWindow) simp
    then have "fixupWindow ?xs r n b \<noteq> []" using n(2) by auto
    with True n(1) have "sendFittedNodes env now k ?xs r b cache h =
        sendAttempts 2 env now ?q k ?xs r b cache (fixupWindow ?xs r n b) ?h"
      by (simp add: sendFittedNodes_def Let_def split_beta cached del: sendAttempts.simps)
        (simp add: allocSeq_def)
    with att [OF refl n(2,3)] show ?thesis by simp
  next
    case False
    then have "sendFittedNodes env now k ?xs r b cache h =
        sendAttempts 2 env now ?q k ?xs r b cache (drop r ?xs) ?h"
      by (auto simp: sendFittedNodes_def Let_def split_beta cached allocSeq_def getMaxDatagramSize_def
          simp del: sendAttempts.simps)
    with att [of "drop r ?xs" "length ?xs - r"] fixupWindow_all [OF N, of r b] r show ?thesis by simp
  qed
qed

end
