(* ===== verification/Session_Properties.thy ===== *)
theory Session_Properties
  imports Session_Answers Tree_Example
begin

text \<open>The properties of the server's sessions, and a small session they are instantiated on.\<close>

section \<open>A small session\<close>

text \<open>Reals and errors are never rendered here; datagrams up to 1200 octets are accepted.\<close>

definition demo_env :: env where
  "demo_env = \<lparr>env_net = (\<lambda>_ p. if int (length p) \<le> 1200 then SendOk else DatagramTooLarge 1200),
     env_compile = lit, env_real = (\<lambda>_. []), env_error = (\<lambda>_. []), env_query_error = (\<lambda>_. []),
     env_time = (\<lambda>t. show_nat (nat t)),
     env_float = \<lparr>fl_add = (+), fl_sub = (-), fl_mul = (*), fl_div = (\<lambda>x y. x), fl_sqrt = (\<lambda>x. x),
       fl_of_int = word_of_int, fl_floor = sint, fl_ceil = sint\<rparr>\<rparr>"

definition demo_session :: Session where
  "demo_session = \<lparr>ss_ID = ''ab'', ss_auth = NewChecker None ''anonymous'' ''ab'',
     newNodesPath = 1, errorsPath = 2, queryResultsPath = 3,
     ss_sender = NewSender (250 * 10 ^ 6) 8, ss_receiver = NewReceiver, nextSeq = 0,
     respCache = (\<lambda>_. None), respOrder = [], respHead = 0, activeQueries = [], queryResultNodes = [],
     overrideSize = 0, maxDatagramSize = 0\<rparr>"

definition demo_host :: host where
  "demo_host = \<lparr>h_tree = trio, h_sess = demo_session, h_sent = []\<rparr>"

definition demo_get :: Message where
  "demo_get = MsgGet \<lparr>get_SequenceNumber = 5, get_Target = PointerNone\<rparr>"

lemma fresh_session_ok:
  assumes "ss_receiver s = NewReceiver" "ss_sender s = NewSender i n" "respCache s = (\<lambda>_. None)"
    "respOrder s = []" "respHead s = 0" "activeQueries s = []" "queryResultNodes s = []"
  shows "session_ok t s"
  using assms NewReceiver_ok
  by (simp add: session_ok_def sess_inv_def cache_ok_def liveOrder_def sender_ok_def NewSender_def running_def)

lemma newSession_ok: "session_ok t (fst (newSession peer sid sv))"
  by (rule fresh_session_ok [where i = "250 * 10 ^ 6" and n = 8]) (simp_all add: newSession_def Let_def split_beta)

lemma demo_ok: "session_ok t demo_session"
  by (rule fresh_session_ok [where i = "250 * 10 ^ 6" and n = 8]) (simp_all add: demo_session_def)

lemma demo_get_returns:
  assumes "\<not> seen (ss_receiver (h_sess h)) 5"
  shows "\<exists>h'. handleMessage env now demo_get h = Ok h'"
  using assms rcv.new_iff [of "ss_receiver (h_sess h)" 5]
  by (simp add: handleMessage_def demo_get_def dispatch_def handleGet_def split_beta Let_def)

lemma demo_get_bytes: "UnmarshalMessage (messageBytes demo_get) = Ok demo_get"
proof -
  have "length (message_bytes demo_get) < 2 ^ 63" by (simp add: demo_get_def message_bytes_def get_bytes_def int_bytes_def tlv_bytes_def ident_octet_def
        length_bytes_def minimalTwosComplement_def be_bytes.simps pointer_bytes_def Let_def)
  then show ?thesis
    using UnmarshalMessage_bytes [of demo_get]
    by (simp add: messageBytes_def MarshalMessage_bytes valid_message_def demo_get_def)
qed

section \<open>The response cache\<close>

text \<open>C37. The response cache, whose expiry walks the order of insertion, holds after every insertion
  exactly what the full scan it replaced would hold: the entries at most 30 seconds old. What the walk
  needs is kept, and the order list is at most 1023 entries longer than twice the unexpired insertions.\<close>

theorem cache_is_scan:
  assumes "cache_ok t s" "t \<le> now"
  shows "cache_ok now (cacheResponseAt k resp now s) \<and>
    respCache (cacheResponseAt k resp now s) =
      unexpired now ((respCache s)(k \<mapsto> \<lparr>cd_resp = resp, cd_at = now\<rparr>)) \<and>
    length (respOrder (cacheResponseAt k resp now s)) \<le>
      2 * length (filter (\<lambda>r. now - rr_at r \<le> 30 * 10 ^ 9) (liveOrder (cacheResponseAt k resp now s))) + 1023"
proof -
  note c = cacheResponseAt_ok [OF assms, of k resp]
  have "filter (\<lambda>r. now - rr_at r \<le> 30 * 10 ^ 9) (liveOrder (cacheResponseAt k resp now s)) =
      liveOrder (cacheResponseAt k resp now s)"
    using c(3) by (intro filter_True) (simp add: respCacheTTL_def)
  with c(1,2,4) show ?thesis by simp
qed

theorem cache_is_scan_witness:
  "respCache (cacheResponseAt 2 (buildResponse 1 2 []) (31 * 10 ^ 9) (cacheResponseAt 1 (buildResponse 2 1 []) 0 demo_session)) 1 = None \<and>
   respCache (cacheResponseAt 2 (buildResponse 1 2 []) (31 * 10 ^ 9) (cacheResponseAt 1 (buildResponse 2 1 []) 0 demo_session)) 2 =
     Some \<lparr>cd_resp = buildResponse 1 2 [], cd_at = 31 * 10 ^ 9\<rparr>"
proof -
  have "cache_ok 0 demo_session" using demo_ok [of 0] by (simp add: session_ok_def sess_inv_def)
  note one = cache_is_scan [OF this order_refl, of 1 "buildResponse 2 1 []"]
  have "(0 :: int) \<le> 31 * 10 ^ 9" by simp
  note two = cache_is_scan [OF conjunct1 [OF one] this, of 2 "buildResponse 1 2 []"]
  from one two show ?thesis by (simp add: unexpired_def demo_session_def respCacheTTL_def)
qed

section \<open>Requests\<close>


definition demo_open :: host where
  "demo_open = (let (s, sv) = newSession [] ''ab'' \<lparr>sv_tree = NewTree, MaxDatagramSizeOverride = 0, sv_Policy = None\<rparr>
     in \<lparr>h_tree = sv_tree sv, h_sess = s, h_sent = []\<rparr>)"


text \<open>After a new request has been handled the session is consistent again.\<close>

lemma handleMessage_ok:
  assumes ok: "session_ok t (h_sess h)" and new: "\<not> seen (ss_receiver (h_sess h)) k" "requestSeq m = Some k"
    and hm: "handleMessage env t m h = Ok h1"
  shows "session_ok t (h_sess h1)" "seen (ss_receiver (h_sess h1)) k"
    and "(\<exists>c. answered t k h1 c) \<or> (\<exists>g. m = MsgGet g \<and> respCache (h_sess h1) k = None)"
    and "\<And>j. seen (ss_receiver (h_sess h)) j \<Longrightarrow> seen (ss_receiver (h_sess h1)) j"
proof -
  let ?r = "fst (MarkReceived (ss_receiver (h_sess h)) k)"
  let ?h = "on_sess (\<lambda>s. s\<lparr>ss_receiver := ?r\<rparr>) h"
  have d: "dispatch env t m ?h = Ok h1" using hm new by (cases rule: handleMessage_cases) auto
  have rcv: "receiver_ok (ss_receiver (h_sess h))" "bounded (ss_receiver (h_sess h))"
    using ok by (auto simp: session_ok_def sess_inv_def)
  have hok: "session_ok t (h_sess ?h)" "seen (ss_receiver (h_sess ?h)) k"
    using ok sess_inv_mark [of t "h_sess h" k] seen_marked [OF rcv] by (auto simp: session_ok_def running_def)
  have keep: "keeps t (Some k) (h_sess ?h) (h_sess h1)" using keeps_dispatch [OF d] new(2) by simp
  show "session_ok t (h_sess h1)" using session_ok_keeps [OF hok(1) keep] hok(2) by simp
  show "seen (ss_receiver (h_sess h1)) k" using keep hok(2) by (simp add: keeps_def)
  show "seen (ss_receiver (h_sess h1)) j" if "seen (ss_receiver (h_sess h)) j" for j
    using keep seen_marked [OF rcv] that by (simp add: keeps_def)
  have "respCache (h_sess ?h) k = None" "sess_inv t (h_sess ?h)"
    using ok hok(1) new(1) by (auto simp: session_ok_def)
  from dispatch_answered [OF d new(2) this(2,1)]
  show "(\<exists>c. answered t k h1 c) \<or> (\<exists>g. m = MsgGet g \<and> respCache (h_sess h1) k = None)" by blast
qed

text \<open>What a duplicate of request \<open>k\<close> does: resend \<open>resp\<close> under a fresh number, and nothing to the tree.\<close>

definition repeats :: "env \<Rightarrow> int \<Rightarrow> i64 \<Rightarrow> Response \<Rightarrow> host \<Rightarrow> bool" where
  "repeats env now k resp h \<longleftrightarrow> (\<forall>m. requestSeq m = Some k \<longrightarrow> (\<exists>h' r resp'.
     handleMessage env now m h = Ok h' \<and> h_tree h' = h_tree h \<and>
     h_sent h' = h_sent h @ [(responseBytes resp', r)] \<and> same_answer resp resp'))"


definition demo_create :: Message where
  "demo_create = MsgCreate \<lparr>cr_SequenceNumber = 6, cr_Key = ''k'', cr_Value = None, cr_Parent = None\<rparr>"

lemma demo_create_returns: "\<exists>h'. handleMessage demo_env 0 demo_create demo_host = Ok h'"
proof -
  have "snd (MarkReceived NewReceiver 6)" using rcv.new_iff [of NewReceiver 6] by (simp add: seen_def NewReceiver_def)
  then show ?thesis
    by (simp add: handleMessage_def demo_create_def dispatch_def handleCreate_def CreateStagedAs_def demo_host_def
        demo_session_def split_beta Let_def)
qed


end
