(* ===== verification/System_Properties.thy ===== *)
theory System_Properties
  imports Client_Properties Session_Properties
begin

text \<open>
  Properties of the client and the server together: the client's \<open>followGet\<close> against the \<open>handleGet\<close>
  of a session, over a connection that takes datagrams up to a fixed size.
\<close>

section \<open>A session as the client's server\<close>

text \<open>The nodes of the first datagram that got through and answers request \<open>k\<close>.\<close>

fun replyNodes :: "i64 \<Rightarrow> (byte list \<times> sendResult) list \<Rightarrow> Node list option" where
  "replyNodes k [] = None"
| "replyNodes k ((p, r) # rest) =
     (if r = SendOk then
        (case UnmarshalMessage p of
           Ok (MsgResponse resp) \<Rightarrow> if rs_InReplyTo resp = k then Some (rs_Nodes resp) else replyNodes k rest
         | _ \<Rightarrow> replyNodes k rest)
      else replyNodes k rest)"

definition getReply :: "env \<Rightarrow> int \<Rightarrow> i64 \<Rightarrow> string \<Rightarrow> host \<Rightarrow> Node list option" where
  "getReply env now k expression h =
     (case handleMessage env now (MsgGet \<lparr>get_SequenceNumber = k, get_Target = PointerAbsolute expression\<rparr>) h of
        Ok h' \<Rightarrow> replyNodes k (drop (length (h_sent h)) (h_sent h'))
      | _ \<Rightarrow> None)"

text \<open>A session in any state from which request \<open>k\<close> would be new: its tree, its rights, and room for
  each single entry of the result.\<close>

definition ready_for :: "int \<Rightarrow> Tree \<Rightarrow> checker \<Rightarrow> Node list \<Rightarrow> string \<Rightarrow> i64 \<Rightarrow> host \<Rightarrow> bool" where
  "ready_for limit t c xs base k h \<longleftrightarrow> h_tree h = t \<and> ss_auth (h_sess h) = c \<and>
     \<not> seen (ss_receiver (h_sess h)) k \<and> (\<forall>r < length xs. room_for_one limit (h_sess h) k xs r base)"

lemma getMax_receiver [simp]: "getMaxDatagramSize (s\<lparr>ss_receiver := r\<rparr>) = getMaxDatagramSize s"
  by (simp add: getMaxDatagramSize_def)

lemma replyNodes_rejected:
  "\<forall>x \<in> set rejected. snd x \<noteq> SendOk \<Longrightarrow> replyNodes k (rejected @ rest) = replyNodes k rest"
  by (induction rejected) auto

lemma replyNodes_accepted:
  assumes "accepted limit log q k ns h" "limit < 2 ^ 63"
  shows "replyNodes k (drop (length log) (h_sent h)) = Some ns"
proof -
  let ?m = "MsgResponse (buildResponse q k ns)"
  obtain rejected where sent: "h_sent h = log @ rejected @ [(messageBytes ?m, SendOk)]"
    "\<forall>x \<in> set rejected. snd x \<noteq> SendOk" and size: "measureResponse q k ns \<le> limit"
    using assms(1) by (auto simp: accepted_def)
  have bytes: "messageBytes ?m = message_bytes ?m" by (simp add: messageBytes_def MarshalMessage_bytes)
  have "int (length (message_bytes ?m)) < int (2 ^ 63)"
    using size assms(2) by (simp add: measureResponse_def bytes)
  then have "length (message_bytes ?m) < 2 ^ 63" by (simp only: of_nat_less_iff)
  then have "UnmarshalMessage (messageBytes ?m) = Ok ?m"
    using UnmarshalMessage_bytes [of ?m] by (simp add: bytes valid_message_def)
  then show ?thesis by (simp add: sent(1) replyNodes_rejected [OF sent(2)] buildResponse_def)
qed

text \<open>What the session answers to a continuation of \<open>base\<close>: a page.\<close>

lemma getReply_page:
  assumes lim: "limited env limit" "limit < 2 ^ 63" and N: "length (flats ms) < 2 ^ 63"
    and get: "GetFullAs (env_compile env) (env_real env) t base (Some (Allowed c)) = Ok (flats ms, 0, base)"
    and h: "ready_for limit t c (flats ms) base k h"
    and x: "SplitResumeSuffix x = (base, int r)" "r < length (flats ms)" and plain: "resume_plain base"
  shows "\<exists>n. 0 < n \<and> r + n \<le> length (flats ms) \<and>
    getReply env now k x h = Some (fixupWindow (flats ms) r n base)"
proof -
  let ?m = "MsgGet \<lparr>get_SequenceNumber = k, get_Target = PointerAbsolute x\<rparr>"
  let ?h = "on_sess (\<lambda>s. s\<lparr>ss_receiver := fst (MarkReceived (ss_receiver (h_sess h)) k)\<rparr>) h"
  obtain segments where "parse (env_compile env) base = Ok segments"
    "FlattenMatches (map (\<lambda>m. pruneVisible t m (Some (Allowed c)))
       (evaluateAs (env_real env) t (Root t) segments (Some (Allowed c)))) = flats ms"
    using get SplitResumeSuffix_plain(1) [OF plain]
    by (auto simp: GetFullAs_def Let_def rbind_Ok_iff split: if_splits)
  then have "GetFullAs (env_compile env) (env_real env) t x (Some (Allowed c)) = Ok (flats ms, r, base)"
    using x by (simp add: GetFullAs_def Let_def)
  moreover have "snd (MarkReceived (ss_receiver (h_sess h)) k)"
    using h rcv.new_iff by (simp add: ready_for_def)
  ultimately have hm: "handleMessage env now ?m h = Ok (sendFittedNodes env now k (flats ms) r base True ?h)"
    using h by (simp add: handleMessage_def dispatch_def handleGet_def sess_auth_def ready_for_def
        split_beta Let_def)
  have room: "room_for_one limit (h_sess ?h) k (flats ms) r base"
    using h x(2) by (simp add: ready_for_def room_for_one_def)
  obtain n where n: "0 < n" "r + n \<le> length (flats ms)"
    "accepted limit (h_sent ?h) (nextSeq (h_sess ?h) + 1) k (fixupWindow (flats ms) r n base)
       (sendFittedNodes env now k (flats ms) r base True ?h)"
    using sendFittedNodes_limited [OF lim(1) N x(2) room] by blast
  from replyNodes_accepted [OF n(3) lim(2)] n(1,2) hm show ?thesis
    by (intro exI [of _ n]) (simp add: getReply_def)
qed


lemma demo_allowed: "x \<in> {1, 2, 3} \<Longrightarrow> Allowed (ss_auth demo_session) OpRead (NodePath trio x)"
  by (auto simp: NodePath_def trio_nodes eval_nat_numeral Allowed_def sessionRule_def demo_session_def
      NewChecker_def HasPrefix_def sessionsPrefix_def)

lemma demo_result:
  "GetFullAs lit ff trio ''a'' (Some (Allowed (ss_auth demo_session))) =
     Ok (flats [VNode ''a'' ValueNoValue []], 0, ''a'')"
proof -
  have "evaluateAs ff trio 0 [\<lparr>KeyRe = (\<lambda>s. ''a'' = s), ValueRe = None\<rparr>] (Some (Allowed (ss_auth demo_session))) = [1]"
    using demo_allowed by (simp add: evaluateAs_def segmentKeeps_def canRead_def trio_nodes)
  moreover have "pruneVisible trio 1 (Some (Allowed (ss_auth demo_session))) = VNode ''a'' ValueNoValue []"
    by (simp add: pruneVisible_def trio_nodes eval_nat_numeral)
  moreover have "SplitResumeSuffix ''a'' = (''a'', 0)" by (rule SplitResumeSuffix_plain) simp
  ultimately show ?thesis by (simp add: GetFullAs_def lit_parse trio_nodes(3) FlattenMatches_flats Let_def)
qed


end
