(* ===== verification/Session_Delivery.thy ===== *)
theory Session_Delivery
  imports Session_Answers Creation Query_Props
begin

text \<open>
  What a query's transfer leaves in the tree and pushes, and which queries a session keeps when nodes
  leave the tree.
\<close>

section \<open>A new subtree of leaves\<close>

lemma addNode_others:
  assumes "p < fresh t" "n < fresh t"
  shows "Key (addNode p k v t) n = Key t n" "Value (addNode p k v t) n = Value t n"
    and "n \<noteq> p \<Longrightarrow> Children (addNode p k v t) n = Children t n"
  using assms by (simp_all add: addNode_simps(1))

lemma appendLeaves_leaves:
  fixes root :: nat and es :: "(string \<times> NodeValue) list" and t :: Tree
  defines "u \<equiv> appendLeaves root es t"
  assumes "root < fresh t"
  shows "fresh u = fresh t + length es" "Children u root = Children t root @ [fresh t..<fresh t + length es]"
    and "n < fresh t \<Longrightarrow> Key u n = Key t n \<and> Value u n = Value t n \<and> (n \<noteq> root \<longrightarrow> Children u n = Children t n)"
    and "i < length es \<Longrightarrow> Key u (fresh t + i) = fst (es ! i) \<and> Value u (fresh t + i) = snd (es ! i) \<and>
      Children u (fresh t + i) = []"
proof -
  have "fresh u = fresh t + length es \<and> Children u root = Children t root @ [fresh t..<fresh t + length es] \<and>
    (\<forall>n < fresh t. Key u n = Key t n \<and> Value u n = Value t n \<and> (n \<noteq> root \<longrightarrow> Children u n = Children t n)) \<and>
    (\<forall>i < length es. Key u (fresh t + i) = fst (es ! i) \<and> Value u (fresh t + i) = snd (es ! i) \<and>
      Children u (fresh t + i) = [])"
    using assms(2) unfolding u_def
  proof (induction es arbitrary: t)
    case (Cons e es)
    obtain k v where e: "e = (k, v)" by force
    let ?t = "addNode root k v t" and ?u = "appendLeaves root (e # es) t"
    have u: "?u = appendLeaves root es ?t" unfolding e by (rule appendLeaves_step)
    have lt: "root < fresh ?t" using Cons.prems by (simp add: addNode_simps(2))
    note IH = Cons.IH [OF lt, folded u]
    note old = addNode_others [OF Cons.prems]
    have new: "Key ?t (fresh t) = k" "Value ?t (fresh t) = v" "Children ?t (fresh t) = []"
      using Cons.prems by (simp_all add: addNode_simps(1))
    have "Key ?u (fresh t + i) = fst ((e # es) ! i) \<and> Value ?u (fresh t + i) = snd ((e # es) ! i) \<and>
        Children ?u (fresh t + i) = []" if "i < length (e # es)" for i
    proof (cases i)
      case 0
      have "fresh t < fresh ?t" "fresh t \<noteq> root" using Cons.prems by (simp_all add: addNode_simps(2))
      with IH new have "Key ?u (fresh t) = k" "Value ?u (fresh t) = v" "Children ?u (fresh t) = []" by metis+
      with 0 show ?thesis by (simp add: e)
    next
      case (Suc j)
      with IH that show ?thesis by (auto simp: addNode_simps(2))
    qed
    moreover have "Key ?u n = Key t n \<and> Value ?u n = Value t n \<and> (n \<noteq> root \<longrightarrow> Children ?u n = Children t n)"
      if "n < fresh t" for n
    proof -
      have "n < fresh ?t" using that by (simp add: addNode_simps(2))
      with IH old [OF that] show ?thesis by metis
    qed
    moreover have "fresh ?u = fresh t + length (e # es)" using IH by (simp add: addNode_simps(2))
    moreover have "Children ?u root = Children t root @ [fresh t..<fresh t + length (e # es)]"
      using IH addNode_child(1) [OF Cons.prems]
      by (simp add: addNode_simps(2) upt_conv_Cons [of "fresh t" "Suc (fresh t + length es)"] del: upt_Suc)
    ultimately show ?case by blast
  qed simp
  then show "fresh u = fresh t + length es" "Children u root = Children t root @ [fresh t..<fresh t + length es]"
    "n < fresh t \<Longrightarrow> Key u n = Key t n \<and> Value u n = Value t n \<and> (n \<noteq> root \<longrightarrow> Children u n = Children t n)"
    "i < length es \<Longrightarrow> Key u (fresh t + i) = fst (es ! i) \<and> Value u (fresh t + i) = snd (es ! i) \<and>
      Children u (fresh t + i) = []" by blast+
qed

definition leaf_tree :: "string \<Rightarrow> (string \<times> NodeValue) list \<Rightarrow> vtree" where
  "leaf_tree key es = VNode key ValueNoValue (map (\<lambda>(k, v). VNode k v []) es)"

lemma AppendLeafSubtree_leaves:
  assumes wf: "wf_tree t" and p: "p < fresh t" and r: "AppendLeafSubtree p key es t = (u, xs)"
  shows "creates t u" "Children u p = Children t p @ [fresh t]" "Key u (fresh t) = key"
    and "map (\<lambda>c. (Key u c, Value u c)) (Children u (fresh t)) = es" "xs = flats [leaf_tree key es]"
proof -
  let ?t = "addNode p key ValueNoValue t"
  let ?u = "appendLeaves (fresh t) es ?t"
  have u: "u = notifyChanged ?u" "xs = flattenSubtree (pruneVisible ?u (fresh t) None)"
    using r by (simp_all add: AppendLeafSubtree_def split_beta Let_def)
  show "creates t u" using AppendLeafSubtree_creates [OF wf p, of key es] r by simp
  have root: "fresh t < fresh ?t" by (simp add: addNode_simps(2))
  note leaves = appendLeaves_leaves [OF root, where es = es]
  have t: "Key ?t (fresh t) = key" "Value ?t (fresh t) = ValueNoValue" "Children ?t (fresh t) = []"
    using p by (simp_all add: addNode_simps(1))
  have "p < fresh ?t" "p \<noteq> fresh t" using p by (simp_all add: addNode_simps(2))
  then show "Children u p = Children t p @ [fresh t]"
    using leaves(3) [of p] addNode_child(1) [OF p] by (simp add: u(1))
  have key: "Key ?u (fresh t) = key" "Value ?u (fresh t) = ValueNoValue" using leaves(3) [of "fresh t"] root t by simp_all
  then show "Key u (fresh t) = key" by (simp add: u(1))
  have ch: "Children ?u (fresh t) = [fresh ?t..<fresh ?t + length es]" using leaves(2) t(3) by simp
  show "map (\<lambda>c. (Key u c, Value u c)) (Children u (fresh t)) = es"
    unfolding u(1) by (rule nth_equalityI) (use ch leaves(4) in \<open>simp_all add: nth_upt\<close>)
  obtain k where k: "fresh ?u = Suc (Suc k)"
    using leaves(1) p by (cases "fresh ?u"; cases "fresh ?u - 1") (auto simp: addNode_simps(2))
  have leaf: "prune (Suc k) ?u None (fresh ?t + i) = VNode (fst (es ! i)) (snd (es ! i)) []"
    if "i < length es" for i using leaves(4) [OF that] by simp
  have "map (prune (Suc k) ?u None) [fresh ?t..<fresh ?t + length es] = map (\<lambda>(k, v). VNode k v []) es"
    by (rule nth_equalityI) (simp_all add: nth_upt leaf split_beta del: prune.simps)
  moreover have "filter (canRead None ?u) (Children ?u (fresh t)) = Children ?u (fresh t)"
    by (simp add: canRead_def)
  ultimately have "pruneVisible ?u (fresh t) None = leaf_tree key es"
    unfolding pruneVisible_def k prune.simps(2) [of "Suc k"] leaf_tree_def key by (simp only: ch)
  then show "xs = flats [leaf_tree key es]" unfolding u(2) by (simp add: flattenSubtree_flat)
qed

section \<open>Opening a session\<close>

lemma ensurePath_creates':
  assumes "ensurePathLocked cur keys t = (n, u)" "wf_tree t" "cur < fresh t"
  shows "creates t u" "n < fresh u" "wf_tree u" "fresh t \<le> fresh u"
  using ensurePath_creates [OF assms(2,3,1)] by (auto simp: creates_def grows_def)

lemma newSession_creates:
  assumes "wf_tree (sv_tree sv)" "newSession peer sid sv = (s, sv')"
  shows "creates (sv_tree sv) (sv_tree sv')"
    and "{newNodesPath s, errorsPath s, queryResultsPath s} \<subseteq> {..< fresh (sv_tree sv')}"
proof -
  obtain b t1 nn t2 er t3 qr t4 where e:
    "EnsurePath [''Sessions'', ''Connection-ID='' @ sid] (sv_tree sv) = (b, t1)"
    "EnsurePath0 b [''NewNodes''] t1 = (nn, t2)" "EnsurePath0 b [''Errors''] t2 = (er, t3)"
    "EnsurePath0 b [''QueryResults''] t3 = (qr, t4)" by (metis surj_pair)
  have 1: "creates (sv_tree sv) t1" "b < fresh t1" "wf_tree t1"
    using ensurePath_creates' [OF e(1) [unfolded EnsurePath_def] assms(1) wf_treeD(1) [OF assms(1)]] by simp_all
  note 2 = ensurePath_creates' [OF e(2) [unfolded EnsurePath0_def] 1(3,2)]
  have "b < fresh t2" using 1(2) 2(4) by simp
  note 3 = ensurePath_creates' [OF e(3) [unfolded EnsurePath0_def] 2(3) this]
  have "b < fresh t3" using \<open>b < fresh t2\<close> 3(4) by simp
  note 4 = ensurePath_creates' [OF e(4) [unfolded EnsurePath0_def] 3(3) this]
  have s: "newNodesPath s = nn" "errorsPath s = er" "queryResultsPath s = qr" "sv_tree sv' = t4"
    using assms(2) e by (auto simp: newSession_def Let_def)
  show "creates (sv_tree sv) (sv_tree sv')"
    unfolding s by (rule creates_trans [OF creates_trans [OF creates_trans [OF 1(1) 2(1)] 3(1)] 4(1)])
  show "{newNodesPath s, errorsPath s, queryResultsPath s} \<subseteq> {..< fresh (sv_tree sv')}"
    using 2(2) 3(2,4) 4(2,4) by (simp add: s)
qed

section \<open>The entries of a batch\<close>

lemma filter_pairs: "filter (\<lambda>e. fst e = j) (map (\<lambda>v. (k, v)) vs) = (if j = k then map (\<lambda>v. (k, v)) vs else [])"
  by (induction vs) auto

lemma sortedEntries_ok:
  assumes "one_entry m"
  shows "sorted (map fst (sortedEntries m))"
    and "map snd (filter (\<lambda>e. fst e = k) (sortedEntries m)) = entries m k"
proof -
  have "sorted (map fst (concat (map (\<lambda>k. map (\<lambda>v. (k, v)) (entries m k)) ks)))" if "sorted ks" for ks
    using that
  proof (induction ks)
    case (Cons a ks)
    have "sorted (map fst (map (Pair a) vs))" for vs :: "NodeValue list" by (induction vs) auto
    with Cons show ?case by (auto simp: sorted_append)
  qed simp
  then show "sorted (map fst (sortedEntries m))" by (simp add: sortedEntries_def)
  have *: "map snd (filter (\<lambda>e. fst e = k) (concat (map (\<lambda>k. map (\<lambda>v. (k, v)) (entries m k)) ks))) =
      (if k \<in> set ks then entries m k else [])" if "distinct ks" for ks
    using that by (induction ks) (auto simp: filter_pairs comp_def)
  have "distinct (sort (map fst m))" using assms by (simp add: one_entry_def)
  from * [OF this] show "map snd (filter (\<lambda>e. fst e = k) (sortedEntries m)) = entries m k"
    using entries_absent [of k m] by (auto simp: sortedEntries_def)
qed

section \<open>Queries whose results are gone\<close>

lemma respondAndCache_queries [simp]:
  "activeQueries (h_sess (respondAndCache env now k resp h)) = activeQueries (h_sess h)"
  "queryResultNodes (h_sess (respondAndCache env now k resp h)) = queryResultNodes (h_sess h)"
  by (simp_all add: respondAndCache_def sendResponse_def allocSeq_def Let_def split_beta)

lemma answerNodes_fields [simp]:
  "h_tree (answerNodes env now k ns h) = h_tree h"
  "activeQueries (h_sess (answerNodes env now k ns h)) = activeQueries (h_sess h)"
  "queryResultNodes (h_sess (answerNodes env now k ns h)) = queryResultNodes (h_sess h)"
  by (simp_all add: answerNodes_def)

lemma map_of_filter_live: "map_of (filter (\<lambda>(k, _). P k) m) k = (if P k then map_of m k else None)"
  by (induction m) auto

lemma reap_queries:
  assumes "distinct (map fst (queryResultNodes (h_sess h)))"
  shows "map_of (activeQueries (h_sess (reapCancelledQueries h))) k =
      (case map_of (queryResultNodes (h_sess h)) k of
         Some n \<Rightarrow> if IsReachable (h_tree h) n then map_of (activeQueries (h_sess h)) k else None
       | None \<Rightarrow> map_of (activeQueries (h_sess h)) k)"
    and "h_tree (reapCancelledQueries h) = h_tree h"
proof -
  have "(k, n) \<in> set (queryResultNodes (h_sess h)) \<longleftrightarrow> map_of (queryResultNodes (h_sess h)) k = Some n" for n
    using assms by (simp add: map_of_eq_Some_iff)
  then show "map_of (activeQueries (h_sess (reapCancelledQueries h))) k =
      (case map_of (queryResultNodes (h_sess h)) k of
         Some n \<Rightarrow> if IsReachable (h_tree h) n then map_of (activeQueries (h_sess h)) k else None
       | None \<Rightarrow> map_of (activeQueries (h_sess h)) k)"
    by (simp add: reapCancelledQueries_def reapLoop_eq map_of_filter_live split: option.split)
qed (simp add: reapCancelledQueries_def)

end
