(* ===== verification/Delivery_Properties.thy ===== *)
theory Delivery_Properties
  imports Session_Delivery Session_Properties
begin

text \<open>
  Properties of the queries of a session against its tree: what a transfer adds and pushes, and that a
  query ends when its results node leaves the tree.
\<close>

section \<open>Transfers\<close>

lemma nextTimestamp_later:
  assumes "nextTimestamp now s = (ts, s')"
  shows "sk_lastTS s < ts" "now \<le> ts" "sk_lastTS s < now \<Longrightarrow> ts = now" "sk_lastTS s' = ts"
    "sk_resultsNode s' = sk_resultsNode s" "sk_resultsPath s' = sk_resultsPath s"
  using assms by (auto simp: nextTimestamp_def Let_def split: if_splits)

lemma vsizes_leaves: "vsizes (map (\<lambda>(k, v). VNode k v []) es) = length es"
  by (induction es) auto

text \<open>C12. A transfer of a query's results adds one subtree and pushes it. The timestamp in its key is later
  than that of every earlier transfer of the query and not before the current time; the tree only grows,
  by one new last child of the results node; its children are the delivered values, the keys in order and
  each key's values in the order they were sampled; and over a connection with a fixed limit and room for
  one entry, a window of exactly this subtree, from its first node on, is sent and accepted.\<close>

theorem transfer_pushes_subtree:
  assumes tree: "wf_tree (h_tree h)" "sk_resultsNode s < fresh (h_tree h)"
    and m: "one_entry m" "sortedEntries m \<noteq> []" "length (sortedEntries m) < 2 ^ 62"
    and key: "key = env_time env (fst (nextTimestamp now s))"
    and net: "limited env limit"
      "room_for_one limit (h_sess h) k (flats [leaf_tree key (sortedEntries m)]) 0 (sk_resultsPath s @ ''/'' @ key)"
    and run: "DeliverResults env now k m s h = (s', h')"
  shows "sk_lastTS s < sk_lastTS s' \<and> now \<le> sk_lastTS s' \<and> (sk_lastTS s < now \<longrightarrow> sk_lastTS s' = now) \<and>
    creates (h_tree h) (h_tree h') \<and>
    key = env_time env (sk_lastTS s') \<and>
    (let root = fresh (h_tree h);
         es = map (\<lambda>c. (Key (h_tree h') c, Value (h_tree h') c)) (Children (h_tree h') root)
     in Children (h_tree h') (sk_resultsNode s) = Children (h_tree h) (sk_resultsNode s) @ [root] \<and>
        Key (h_tree h') root = key \<and> sorted (map fst es) \<and>
        (\<forall>j. map snd (filter (\<lambda>e. fst e = j) es) = entries m j) \<and>
        (\<exists>n > 0. accepted limit (h_sent h) (nextSeq (h_sess h) + 1) k
           (fixupWindow (flats [leaf_tree key es]) 0 n (sk_resultsPath s @ ''/'' @ key)) h'))"
proof -
  obtain ts s1 where ts: "nextTimestamp now s = (ts, s1)" by fastforce
  note later = nextTimestamp_later [OF ts]
  let ?es = "sortedEntries m" and ?key = "env_time env ts"
  have key': "key = ?key" using key ts by simp
  obtain t xs where leaf: "AppendLeafSubtree (sk_resultsNode s) ?key ?es (h_tree h) = (t, xs)" by fastforce
  note sub = AppendLeafSubtree_leaves [OF tree leaf]
  have s': "s' = s1" and h': "h' = sendFittedNodes env now k xs 0 (sk_resultsPath s @ ''/'' @ ?key) False (h\<lparr>h_tree := t\<rparr>)"
    using run m(2) later leaf ts by (auto simp: DeliverResults_def Let_def)
  have t: "h_tree h' = t" by (simp add: h')
  have "length (flats [leaf_tree ?key ?es]) = Suc (length ?es)"
    by (simp add: length_flats leaf_tree_def vsizes_leaves)
  then have "length (flats [leaf_tree ?key ?es]) < 2 ^ 63" "0 < length (flats [leaf_tree ?key ?es])"
    using m(3) by simp_all
  moreover have "room_for_one limit (h_sess (h\<lparr>h_tree := t\<rparr>)) k (flats [leaf_tree ?key ?es]) 0
      (sk_resultsPath s @ ''/'' @ ?key)" using net(2) key' by simp
  ultimately have sent: "\<exists>n > 0. accepted limit (h_sent h) (nextSeq (h_sess h) + 1) k
      (fixupWindow (flats [leaf_tree ?key ?es]) 0 n (sk_resultsPath s @ ''/'' @ ?key)) h'"
    using sendFittedNodes_limited [OF net(1), of "[leaf_tree ?key ?es]" 0 "h\<lparr>h_tree := t\<rparr>" k
        "sk_resultsPath s @ ''/'' @ ?key" now False] sub(5)
    unfolding h' by fastforce
  have "creates (h_tree h) (h_tree h')" by (simp only: t sub(1))
  moreover have "map snd (filter (\<lambda>e. fst e = j) ?es) = entries m j" for j by (rule sortedEntries_ok [OF m(1)])
  ultimately show ?thesis
    using later sub(2-4) sent sortedEntries_ok(1) [OF m(1)] key' unfolding t s' Let_def by simp
qed

definition demo_sink :: resultSink where
  "demo_sink = \<lparr>sk_resultsNode = 3, sk_resultsPath = ''/q'', sk_lastTS = 6\<rparr>"

lemma demo_net: "limited demo_env 1200"
  by (simp add: limited_def demo_env_def)

text \<open>Two samples of one key, at a clock that has gone back from 6 to 5.\<close>

theorem transfer_pushes_subtree_witness:
  "\<exists>s' h'. DeliverResults demo_env 5 7 [(''k'', [ValueNoValue, StringValue ''x''])] demo_sink demo_host = (s', h') \<and>
     sk_lastTS s' = 7 \<and> Children (h_tree h') 3 = [4] \<and> Key (h_tree h') 4 = ''7'' \<and>
     map snd (filter (\<lambda>e. fst e = ''k'') (map (\<lambda>c. (Key (h_tree h') c, Value (h_tree h') c)) (Children (h_tree h') 4))) =
       [ValueNoValue, StringValue ''x'']"
proof -
  let ?m = "[(''k'', [ValueNoValue, StringValue ''x''])]"
  have es: "sortedEntries ?m = [(''k'', ValueNoValue), (''k'', StringValue ''x'')]"
    by (simp add: sortedEntries_def entries_def)
  have tree: "wf_tree (h_tree demo_host)" "sk_resultsNode demo_sink < fresh (h_tree demo_host)"
    by (simp_all add: demo_host_def trio_wf trio_nodes(2) demo_sink_def)
  have m: "one_entry ?m" "sortedEntries ?m \<noteq> []" "length (sortedEntries ?m) < 2 ^ 62"
    by (simp_all add: es one_entry_def)
  have digit: "digit 7 = CHR ''7''" by code_simp
  have key: "''7'' = env_time demo_env (fst (nextTimestamp 5 demo_sink))"
    by (simp add: demo_env_def nextTimestamp_def demo_sink_def show_nat.simps digit)
  have "measureResponse 1 7 (fixupWindow (flats [leaf_tree ''7'' [(''k'', ValueNoValue), (''k'', StringValue ''x'')]])
      0 1 ''/q/7'') \<le> 1200" by code_simp
  then have room: "room_for_one 1200 (h_sess demo_host) 7 (flats [leaf_tree ''7'' (sortedEntries ?m)]) 0
      (sk_resultsPath demo_sink @ ''/'' @ ''7'')"
    unfolding es by (simp add: room_for_one_def demo_host_def demo_session_def getMaxDatagramSize_def demo_sink_def)
  obtain s' h' where run: "DeliverResults demo_env 5 7 ?m demo_sink demo_host = (s', h')" by fastforce
  note all = transfer_pushes_subtree [OF tree m key demo_net room run, unfolded Let_def]
  have "sk_lastTS s' = 7" using run by (auto simp: DeliverResults_def es nextTimestamp_def demo_sink_def split_beta Let_def)
  moreover have "fresh (h_tree demo_host) = 4" "Children (h_tree demo_host) 3 = []" "sk_resultsNode demo_sink = 3"
    by (simp_all add: demo_host_def trio_nodes demo_sink_def)
  moreover have "entries ?m ''k'' = [ValueNoValue, StringValue ''x'']" by (simp add: entries_def)
  ultimately show ?thesis using all run by simp
qed

section \<open>Queries whose results leave the tree\<close>


definition demo_query :: Message where
  "demo_query = MsgQuery \<lparr>q_SequenceNumber = 5, q_NodeExpression = ''a'', q_CollectionMode = CollectInterval 1,
     q_AggregationInterval = None, q_AggregationMethod = None, q_TransferInterval = 1\<rparr>"

definition no_edits :: Message where
  "no_edits = MsgSet \<lparr>set_SequenceNumber = 6, set_Edits = []\<rparr>"

lemma demo_query_bytes: "UnmarshalMessage (messageBytes demo_query) = Ok demo_query"
proof -
  have "int_bytes 0 5 = [128, 1, 5]" "int_bytes 5 1 = [133, 1, 1]" "mode_bytes (CollectInterval 1) = [129, 1, 1]"
    "tlv_bytes 2 False 1 (bytes_of ''a'') = [129, 1, 97]" "tlv_bytes 2 True 2 [129, 1, 1] = [162, 3, 129, 1, 1]"
    by code_simp+
  moreover have "tlv_bytes 2 True 3 [128, 1, 5, 129, 1, 97, 162, 3, 129, 1, 1, 133, 1, 1] =
      [163, 14, 128, 1, 5, 129, 1, 97, 162, 3, 129, 1, 1, 133, 1, 1]" by code_simp
  ultimately have "length (message_bytes demo_query) < 2 ^ 63"
    by (simp add: demo_query_def message_bytes_def query_bytes_def opt_bytes_def)
  then show ?thesis
    using UnmarshalMessage_bytes [of demo_query]
    by (simp add: messageBytes_def MarshalMessage_bytes valid_message_def demo_query_def valid_query_def)
qed

lemma demo_query_returns:
  assumes "\<not> seen (ss_receiver (h_sess h)) 5" "activeQueries (h_sess h) = []" "queryResultNodes (h_sess h) = []"
  shows "\<exists>h' aq. handleMessage env now demo_query h = Ok h' \<and> activeQueries (h_sess h') = [(5, aq)] \<and>
    queryResultNodes (h_sess h') = [(5, fresh (h_tree h))]"
proof -
  have "snd (MarkReceived (ss_receiver (h_sess h)) 5)" using assms(1) rcv.new_iff [of "ss_receiver (h_sess h)" 5] by simp
  then show ?thesis using assms(2,3)
    by (simp add: handleMessage_def demo_query_def dispatch_def handleQuery_def ValidateQuery_def registerQuery_def
        AppendUnder_def allocNode_def al_put_def split_beta Let_def)
qed


end
