(* ===== verification/Tree_Isolation.thy ===== *)
theory Tree_Isolation
  imports Tree_Write_Properties
begin

text \<open>
  What a request leaves alone: a node it may neither write nor delete, and that is not staged below the
  requesting session, stays reachable with its path, key and value.
\<close>

section \<open>Nodes that are spared\<close>

definition spares :: "Tree \<Rightarrow> Tree \<Rightarrow> nat \<Rightarrow> bool" where
  "spares t u n \<longleftrightarrow> reachable u n \<and> NodePath u n = NodePath t n \<and> Key u n = Key t n \<and> Value u n = Value t n"

lemma spares_trans: "spares t u n \<Longrightarrow> spares u w n \<Longrightarrow> spares t w n"
  by (simp add: spares_def)

lemma spares_refl: "reachable t n \<Longrightarrow> spares t t n"
  by (simp add: spares_def)

lemma NodePath_notify [simp]: "NodePath (notifyChanged t) n = NodePath t n"
proof -
  have "keysUp k (notifyChanged t) m = keysUp k t m" for k m by (induction k arbitrary: m) (simp_all split: option.split)
  then show ?thesis by (simp add: NodePath_def split: option.split)
qed

lemma spares_notify [simp]: "spares t (notifyChanged u) n = spares t u n"
  by (simp add: spares_def)

lemma spares_creates:
  assumes "wf_tree t" "creates t u" "reachable t n"
  shows "spares t u n"
proof -
  have u: "wf_tree u" "grows t u" using assms(2) by (simp_all add: creates_def)
  have n: "n < fresh t" using reachable_lt [OF assms(1,3)] .
  show ?thesis
    using grows_reachable [OF assms(1) u(2) assms(3)] grows_NodePath [OF assms(1) u n] growsD(3,4) [OF u(2) n]
    by (simp add: spares_def)
qed

lemma NodePath_same_up:
  assumes "fresh u = fresh t"
    and same: "\<And>m. (n, m) \<in> (parent_rel t)\<^sup>* \<Longrightarrow> Parent u m = Parent t m \<and> Key u m = Key t m"
  shows "NodePath u n = NodePath t n"
proof -
  have "keysUp k u m = keysUp k t m" if "(n, m) \<in> (parent_rel t)\<^sup>*" for k m
    using that
  proof (induction k arbitrary: m)
    case (Suc k)
    show ?case
    proof (cases "Parent t m")
      case (Some p)
      then have "(m, p) \<in> parent_rel t" by (simp add: parent_rel_def)
      with Suc.prems have "(n, p) \<in> (parent_rel t)\<^sup>*" by (rule rtrancl_into_rtrancl)
      with Suc.IH same [OF Suc.prems] Some show ?thesis by simp
    qed (simp add: same [OF Suc.prems])
  qed simp
  with same [of n] assms(1) show ?thesis by (simp add: NodePath_def split: option.split)
qed

lemma spares_edited:
  assumes "edited auth t u" "reachable t n" "\<not> may auth t OpWrite n" "\<not> may auth t OpDelete n"
  shows "spares t u n"
proof -
  have "reachable u n" using edited_vanished [OF assms(1,2)] assms(4) by blast
  moreover have "Value u n = Value t n" using editedD(8) [OF assms(1)] assms(3) by blast
  moreover have "NodePath u n = NodePath t n"
    using editedD(2-4) [OF assms(1)] by (intro NodePath_same_up) simp_all
  ultimately show ?thesis using editedD(3) [OF assms(1)] by (simp add: spares_def)
qed

section \<open>A move\<close>

lemma moveNode_old: "Key (moveNode m q np u) k = Key u k" "Value (moveNode m q np u) k = Value u k"
  by (simp_all add: moveNode_def Let_def)

lemma moveNode_reachable:
  assumes wf: "wf_tree u" and n: "reachable u n" "(n, m) \<notin> (parent_rel u)\<^sup>*"
  shows "reachable (moveNode m q np u) n"
  using n
proof induction
  case root
  then show ?case using reachable.root [of "moveNode m q np u"] by (simp add: moveNode_simps(4))
next
  case (child p c)
  have "Parent u c = Some p" by (rule wf_treeD(8) [OF wf child.hyps(2)])
  then have "(c, p) \<in> parent_rel u" by (simp add: parent_rel_def)
  then have "(p, m) \<notin> (parent_rel u)\<^sup>*" using child.prems by (meson converse_rtrancl_into_rtrancl)
  from child.IH [OF this] have p: "reachable (moveNode m q np u) p" .
  have "c \<noteq> m" using child.prems by auto
  then have "c \<in> set (Children (moveNode m q np u) p)"
    using child.hyps(2) by (auto simp: moveNode_simps(2) Let_def)
  with p show ?case by (rule reachable.child)
qed

lemma moveNode_path:
  assumes "(n, m) \<notin> (parent_rel u)\<^sup>*"
  shows "NodePath (moveNode m q np u) n = NodePath u n"
  using assms by (intro NodePath_same_up) (auto simp: moveNode_simps(1,3) moveNode_old)

section \<open>Sets and deletes\<close>

lemma planEdits_staged:
  "planEdits compile ff t staging auth es = Ok ps \<Longrightarrow> p \<in> set ps \<Longrightarrow> pl_newParent p \<noteq> None \<Longrightarrow>
   \<exists>s. staging = Some s \<and> isDescendant t s (pl_targets p ! 0)"
proof (induction es arbitrary: ps)
  case (Cons e es)
  then obtain p' ps' where p': "planEdit compile ff t staging auth e = Ok p'"
    "planEdits compile ff t staging auth es = Ok ps'" "ps = p' # ps'" by (auto simp: rbind_Ok_iff)
  show ?case
  proof (cases "p = p'")
    case True
    with p'(1) Cons.prems(3) show ?thesis
      by (auto simp: planEdit_def planNewParent_def rbind_Ok_iff Let_def split: if_splits option.splits)
  qed (use Cons p' in auto)
qed simp

lemma applyPlans_value_keys:
  assumes "undo_ok t st" "ends_in (applyPlans ps st) st'"
  shows "fst ` set (ap_valueUndos st') \<subseteq> fst ` set (ap_valueUndos st) \<union> (\<Union>p \<in> set ps. set (value_keys p))"
  using assms
proof (induction ps arbitrary: st)
  case (Cons p ps)
  have one: "fst ` set (ap_valueUndos st1) = fst ` set (ap_valueUndos st) \<union> set (value_keys p)"
    if "ends_in (applyPlan p st) st1" for st1
    using applyPlan_undo [OF Cons.prems(1) that] by (metis list.set_map set_append)
  from Cons.prems(2) show ?case
  proof (cases rule: applyPlans_first)
    case (1 st1)
    have "undo_ok t st1" using applyPlan_undo [OF Cons.prems(1) 1(1)] by blast
    from Cons.IH [OF this 1(2)] one [OF 1(1)] show ?thesis by auto
  next
    case 2
    from one [OF this] show ?thesis by auto
  qed
qed simp

text \<open>The outcome of a set whose last edit may be a move: the shape is as before, or only edited, or
  edited and then one staged node moved.\<close>

lemma SetAs_outcome:
  assumes wf: "wf_tree t" and s: "SetAs compile ff s staging auth t = (u, r)"
    and moves: "\<forall>e \<in> set (butlast (set_Edits s)). se_NewParent e = None"
    and later: "siblings_later compile ff t staging auth s"
  obtains (undone) "Parent u = Parent t" "Children u = Children t" "same_frame t u"
      "\<And>n. \<not> may auth t OpWrite n \<Longrightarrow> Value u n = Value t n"
  | (edited) e where "edited auth t e" "u \<in> {e, notifyChanged e}"
  | (moved) e x q np r0 where "edited auth t e" "u \<in> {moveNode x q np e, notifyChanged (moveNode x q np e)}"
      "staging = Some r0" "(x, r0) \<in> (parent_rel t)\<^sup>+" "wf_tree u"
  using s
proof (cases rule: SetAs_cases)
  case (1 e)
  then show thesis using undone by simp
next
  case (2 ps e st)
  have pls: "\<forall>p \<in> set (butlast ps). pl_newParent p = None"
    using last_moves [OF planned_ok [OF wf 2(1)]] moves by blast
  have st: "ends_in (applyPlans ps (startApply t)) st" by (simp only: 2(2) ends_in.simps)
  have "distinct (concat (map parent_keys ps))"
    using pls by (cases ps rule: rev_cases) (auto simp: no_moves parent_keys_def)
  then have d: "distinct (map fst (ap_parentUndos st))"
    using applyPlans_parents [OF undo_ok_start st] by (simp add: startApply_def)
  have ok: "undo_ok t st" by (rule applyPlans_undo_ok [OF undo_ok_start st])
  have "Value u n = Value t n" if "\<not> may auth t OpWrite n" for n
  proof -
    have "n \<notin> fst ` set (ap_valueUndos st)"
      using applyPlans_value_keys [OF undo_ok_start st] planned_ok [OF wf 2(1)] that
      unfolding plan_ok_def value_keys_def startApply_def by (auto split: if_splits option.splits)
    then have "map_of (ap_valueUndos st) n = None" "map_of (rev (ap_valueUndos st)) n = None"
      by (simp_all add: map_of_eq_None_iff)
    then have "Value (rollback st) n = Value (ap_tree st) n"
      using fun_cong [OF rollback_fields(1) [of st], of n] by (simp add: restore_def)
    with ok \<open>map_of (ap_valueUndos st) n = None\<close> show ?thesis
      by (simp add: 2(3) undo_ok_def undo_rec_def undo_list_def)
  qed
  moreover have "Parent u = Parent t" "Children u = Children t" "same_frame t u"
    using ok d rollback_parents rollback_children rollback_fields(4) 2(3)
    by (auto simp: undo_ok_def undo_rec_def)
  ultimately show thesis using undone by blast
next
  case (3 ps st)
  have ok: "\<forall>p \<in> set ps. plan_ok auth t p \<and> sibling_later t (pl_targets p ! 0) (pl_nextSibling p)"
    "\<forall>p \<in> set (butlast ps). pl_newParent p = None"
    using planned_ok [OF wf 3(1)] last_moves [OF planned_ok [OF wf 3(1)]] moves later 3(1)
    by (auto simp: siblings_later_def)
  have u: "u \<in> {ap_tree st, notifyChanged (ap_tree st)}" using 3(3) by simp
  from wf 3(2) ok show thesis
  proof (cases rule: applyPlans_shape)
    case edited
    with u that(2) show thesis by blast
  next
    case (moved p np e q)
    obtain root where "staging = Some root" "isDescendant t root (pl_targets p ! 0)"
      using planEdits_staged 3(1) moved(1,2) unfolding planned_def by blast
    moreover have "wf_tree u" using applyPlans_wf [OF wf 3(2) ok] u by auto
    ultimately show thesis using moved u that(3) isDescendant_iff [OF wf] by metis
  qed
qed

text \<open>A set leaves alone what the session may not change and has not staged; the paths of all nodes not
  staged stay.\<close>

lemma SetAs_path:
  assumes "wf_tree t" "SetAs compile ff s (Some root) auth t = (u, r)"
    and "\<forall>e \<in> set (butlast (set_Edits s)). se_NewParent e = None" "siblings_later compile ff t (Some root) auth s"
    and n: "(n, root) \<notin> (parent_rel t)\<^sup>+"
  shows "NodePath u n = NodePath t n"
  using assms(1-4)
proof (cases rule: SetAs_outcome)
  case undone
  then show ?thesis by (intro NodePath_same_up) (auto simp: same_frame_def dest: fun_cong)
next
  case (edited e)
  have "NodePath e n = NodePath t n" using editedD(2-4) [OF edited(1)] by (intro NodePath_same_up) simp_all
  with edited(2) show ?thesis by auto
next
  case (moved e x q np r0)
  have rel: "parent_rel e = parent_rel t" by (simp add: parent_rel_def editedD(4) [OF moved(1)])
  have "(n, x) \<notin> (parent_rel e)\<^sup>*"
    using n moved(3,4) unfolding rel by (auto dest: rtrancl_trancl_trancl)
  moreover have "NodePath e n = NodePath t n" using editedD(2-4) [OF moved(1)] by (intro NodePath_same_up) simp_all
  ultimately show ?thesis using moved(2) moveNode_path by auto
qed

lemma SetAs_spares:
  assumes "wf_tree t" "SetAs compile ff s (Some root) auth t = (u, r)"
    and "\<forall>e \<in> set (butlast (set_Edits s)). se_NewParent e = None" "siblings_later compile ff t (Some root) auth s"
    and n: "(n, root) \<notin> (parent_rel t)\<^sup>+" "reachable t n" "\<not> may auth t OpWrite n" "\<not> may auth t OpDelete n"
  shows "spares t u n"
  using assms(1-4)
proof (cases rule: SetAs_outcome)
  case undone
  have "reachable u n" using n(2)
  proof induction
    case root
    then show ?case using reachable.root [of u] undone(3) by (simp add: same_frame_def)
  next
    case (child p c)
    with fun_cong [OF undone(2), of p] show ?case by (auto intro: reachable.child)
  qed
  with undone(4) n(3) SetAs_path [OF assms(1-4) n(1)] undone(3) show ?thesis by (auto simp: spares_def same_frame_def)
next
  case (edited e)
  with spares_edited [OF edited(1) n(2-4)] show ?thesis by auto
next
  case (moved e x q np r0)
  have rel: "parent_rel e = parent_rel t" by (simp add: parent_rel_def editedD(4) [OF moved(1)])
  have out: "(n, x) \<notin> (parent_rel e)\<^sup>*"
    using n(1) moved(3,4) unfolding rel by (auto dest: rtrancl_trancl_trancl)
  have e: "spares t e n" by (rule spares_edited [OF moved(1) n(2-4)])
  then have "spares e (moveNode x q np e) n"
    using moveNode_reachable [OF edited_wf [OF assms(1) moved(1)] _ out] moveNode_path [OF out]
    by (simp add: spares_def moveNode_old)
  with e have "spares t (moveNode x q np e) n" by (rule spares_trans)
  with moved(2) show ?thesis by auto
qed

lemma DeleteAs_outcome:
  assumes wf: "wf_tree t" and d: "DeleteAs compile ff exprs auth t = (u, r)"
  shows "wf_tree u" "fresh u = fresh t" "Parent u = Parent t" "NodePath u n = NodePath t n"
    and "reachable t n \<Longrightarrow> \<not> may auth t OpDelete n \<Longrightarrow> spares t u n"
proof -
  obtain ds where u: "u = t \<or> u \<in> {dropNodes ds t, notifyChanged (dropNodes ds t)} \<and> Root t \<notin> ds \<and>
      (\<forall>d \<in> ds. deletable auth t d)"
  proof (rule DeleteAs_cases [OF wf, of compile ff exprs auth])
    fix ms
    assume m: "DeleteAs compile ff exprs auth t = (if ms = [] then t else notifyChanged (dropNodes (set ms) t), Ok ms)"
      "set ms = deleted_by compile ff t auth exprs" "requireDeleteAll auth t ms = Ok ()"
    have "Root t \<notin> set ms" using m(2) deleted_by_parent(2) [OF wf] by blast
    with m d requireDeleteAll_iff [OF wf] that [of "set ms"] show thesis by auto
  qed (use d that in auto)
  have path: "NodePath (dropNodes ds t) n = NodePath t n" for n by (rule NodePath_same_up) simp_all
  show "wf_tree u" "fresh u = fresh t" "Parent u = Parent t" "NodePath u n = NodePath t n"
    using u wf wf_dropNodes [OF wf] path by auto
  assume n: "reachable t n" "\<not> may auth t OpDelete n"
  show "spares t u n"
  proof (cases "u = t")
    case False
    then have ds: "u \<in> {dropNodes ds t, notifyChanged (dropNodes ds t)}" "Root t \<notin> ds" "\<forall>d \<in> ds. deletable auth t d"
      using u by auto
    have "(n, d) \<notin> (parent_rel t)\<^sup>*" if "d \<in> ds" for d
      using reachable_chain [OF wf _ n(1)] ds(3) that n(2) by (auto simp: deletable_def)
    then have "reachable (dropNodes ds t) n" using dropNodes_reachable [OF wf ds(2)] n(1) by blast
    then have "spares t (dropNodes ds t) n" by (simp add: spares_def path)
    with ds(1) show ?thesis by auto
  qed (use n in \<open>simp add: spares_refl\<close>)
qed

end
