(* ===== verification/Session_Isolation.thy ===== *)
theory Session_Isolation
  imports Tree_Isolation Session_Delivery
begin

text \<open>
  What one event of a session does to the shared tree: it keeps it well-formed and leaves alone every node
  the session has no right to and has not staged.
\<close>

section \<open>Keeping out\<close>

definition keeps_out :: "auth \<Rightarrow> nat \<Rightarrow> Tree \<Rightarrow> Tree \<Rightarrow> bool" where
  "keeps_out auth root t u \<longleftrightarrow> wf_tree u \<and> fresh t \<le> fresh u \<and>
     (\<forall>n < fresh t. (n, root) \<notin> (parent_rel t)\<^sup>+ \<longrightarrow>
        NodePath u n = NodePath t n \<and> (n, root) \<notin> (parent_rel u)\<^sup>+ \<and>
        (reachable t n \<and> \<not> may auth t OpWrite n \<and> \<not> may auth t OpDelete n \<longrightarrow> spares t u n))"

lemma keeps_out_refl: "wf_tree t \<Longrightarrow> keeps_out auth root t t"
  by (simp add: keeps_out_def spares_refl)

lemma keeps_out_trans [trans]:
  assumes "keeps_out auth root t u" "keeps_out auth root u w"
  shows "keeps_out auth root t w"
proof -
  have "NodePath w n = NodePath t n \<and> (n, root) \<notin> (parent_rel w)\<^sup>+ \<and>
      (reachable t n \<and> \<not> may auth t OpWrite n \<and> \<not> may auth t OpDelete n \<longrightarrow> spares t w n)"
    if n: "n < fresh t" "(n, root) \<notin> (parent_rel t)\<^sup>+" for n
  proof -
    have u: "NodePath u n = NodePath t n" "(n, root) \<notin> (parent_rel u)\<^sup>+" "n < fresh u"
      "reachable t n \<and> \<not> may auth t OpWrite n \<and> \<not> may auth t OpDelete n \<longrightarrow> spares t u n"
      using assms(1) n by (auto simp: keeps_out_def)
    have w: "NodePath w n = NodePath u n" "(n, root) \<notin> (parent_rel w)\<^sup>+"
      "reachable u n \<and> \<not> may auth u OpWrite n \<and> \<not> may auth u OpDelete n \<longrightarrow> spares u w n"
      using assms(2) u(2,3) by (auto simp: keeps_out_def)
    have "may auth u op n = may auth t op n" for op unfolding may_def u(1) ..
    then have "spares t w n" if "reachable t n" "\<not> may auth t OpWrite n" "\<not> may auth t OpDelete n"
      using that u(4) w(3) spares_trans [of t u n w] by (auto simp: spares_def)
    with u(1) w(1,2) show ?thesis by simp
  qed
  moreover have "wf_tree w" "fresh t \<le> fresh w" using assms by (auto simp: keeps_out_def)
  ultimately show ?thesis by (simp add: keeps_out_def)
qed

text \<open>Whether a node is below another depends on the parents above it only.\<close>

lemma below_same_up:
  assumes "\<And>m. (n, m) \<in> (parent_rel t)\<^sup>* \<Longrightarrow> Parent u m = Parent t m" "(n, r) \<in> (parent_rel u)\<^sup>+"
  shows "(n, r) \<in> (parent_rel t)\<^sup>+"
  using assms(2)
proof (induction rule: trancl_induct)
  case (base y)
  with assms(1) [of n] show ?case by (auto simp: parent_rel_def)
next
  case (step y z)
  then have "Parent u y = Parent t y" by (intro assms(1)) (rule trancl_into_rtrancl)
  with step show ?case by (auto simp: parent_rel_def intro: trancl_into_trancl)
qed

lemma keeps_out_creates:
  assumes wf: "wf_tree t" and c: "creates t u"
  shows "keeps_out auth root t u"
proof -
  have u: "wf_tree u" "grows t u" using c by (simp_all add: creates_def)
  have "(n, root) \<notin> (parent_rel u)\<^sup>+" if n: "n < fresh t" "(n, root) \<notin> (parent_rel t)\<^sup>+" for n
  proof -
    have "Parent u m = Parent t m" if "(n, m) \<in> (parent_rel t)\<^sup>*" for m
    proof -
      have "m < fresh t" using that n(1) wf_treeD(5) [OF wf] by induction (auto simp: parent_rel_def)
      then show ?thesis by (rule growsD(5) [OF u(2)])
    qed
    with below_same_up [of n t u root] n(2) show ?thesis by blast
  qed
  then show ?thesis
    using u growsD(2) [OF u(2)] grows_NodePath [OF wf u] spares_creates [OF wf c] by (simp add: keeps_out_def)
qed

lemma keeps_out_DeleteAs:
  assumes "wf_tree t" "DeleteAs compile ff exprs auth t = (u, r)"
  shows "keeps_out auth root t u"
proof -
  note d = DeleteAs_outcome [OF assms]
  have "parent_rel u = parent_rel t" using fun_cong [OF d(3)] by (simp add: parent_rel_def)
  with d(1,2,4,5) show ?thesis by (simp add: keeps_out_def)
qed

lemma keeps_out_SetAs:
  assumes wf: "wf_tree t" and s: "SetAs compile ff s (Some root) auth t = (u, r)"
    and moves: "\<forall>e \<in> set (butlast (set_Edits s)). se_NewParent e = None"
    and later: "siblings_later compile ff t (Some root) auth s"
  shows "keeps_out auth root t u"
proof -
  have "wf_tree u \<and> fresh t \<le> fresh u \<and> (\<forall>n. (n, root) \<notin> (parent_rel t)\<^sup>+ \<longrightarrow> (n, root) \<notin> (parent_rel u)\<^sup>+)"
    using assms
  proof (cases rule: SetAs_outcome)
    case undone
    then have p: "Parent u n = Parent t n" "Children u n = Children t n" for n by (auto dest: fun_cong)
    then have "wf_tree u = wf_tree t" using undone(3) by (intro wf_same_shape) (auto simp: same_frame_def dest: fun_cong)
    moreover have "parent_rel u = parent_rel t" by (simp add: parent_rel_def p)
    ultimately show ?thesis using wf undone(3) by (simp add: same_frame_def)
  next
    case (edited e)
    have "parent_rel u = parent_rel t" using edited editedD(4) [OF edited(1)] by (auto simp: parent_rel_def)
    with edited edited_wf [OF wf edited(1)] editedD(2) [OF edited(1)] show ?thesis by auto
  next
    case (moved e x q np r0)
    note E = editedD(2,4) [OF moved(1)]
    have "(n, root) \<notin> (parent_rel u)\<^sup>+" if n: "(n, root) \<notin> (parent_rel t)\<^sup>+" for n
    proof -
      have "Parent u m = Parent t m" if "(n, m) \<in> (parent_rel t)\<^sup>*" for m
      proof -
        have "m \<noteq> x" using that n moved(3,4) by (auto dest: rtrancl_trancl_trancl)
        with moved(2) E(2) show ?thesis by (auto simp: moveNode_simps(1))
      qed
      with below_same_up [of n t u root] n show ?thesis by blast
    qed
    with moved(2,5) E(1) show ?thesis by (auto simp: moveNode_simps(3))
  qed
  with SetAs_path [OF assms] SetAs_spares [OF assms] show ?thesis by (simp add: keeps_out_def)
qed

section \<open>Events\<close>

text \<open>The nodes a session holds on to exist.\<close>

definition sinks_ok :: "Tree \<Rightarrow> Session \<Rightarrow> bool" where
  "sinks_ok t s \<longleftrightarrow> (\<forall>x \<in> set (activeQueries s). sk_resultsNode (aq_sink (snd x)) < fresh t)"

definition host_ok :: "host \<Rightarrow> bool" where
  "host_ok h \<longleftrightarrow> wf_tree (h_tree h) \<and> sinks_ok (h_tree h) (h_sess h) \<and>
     newNodesPath (h_sess h) < fresh (h_tree h) \<and> errorsPath (h_sess h) < fresh (h_tree h) \<and>
     queryResultsPath (h_sess h) < fresh (h_tree h)"

text \<open>A step of a handler.\<close>

definition step_ok :: "host \<Rightarrow> host \<Rightarrow> bool" where
  "step_ok h h' \<longleftrightarrow> (host_ok h \<longrightarrow> host_ok h' \<and> fixed (h_sess h) (h_sess h') \<and>
     keeps_out (sess_auth (h_sess h)) (newNodesPath (h_sess h)) (h_tree h) (h_tree h'))"

lemma step_ok_trans [trans]: "step_ok h h1 \<Longrightarrow> step_ok h1 h2 \<Longrightarrow> step_ok h h2"
  by (auto simp: step_ok_def fixed_def sess_auth_def intro: keeps_out_trans)

lemma step_ok_refl [simp]: "step_ok h h"
  by (auto simp: step_ok_def fixed_def host_ok_def intro: keeps_out_refl)

text \<open>Steps that leave the tree alone, and the queries but for their runners.\<close>

lemma step_ok_same_tree:
  assumes "fixed (h_sess h) (h_sess h')" "h_tree h' = h_tree h"
    and "sinks_ok (h_tree h) (h_sess h) \<Longrightarrow> sinks_ok (h_tree h) (h_sess h')"
  shows "step_ok h h'"
  using assms by (auto simp: step_ok_def host_ok_def fixed_def intro: keeps_out_refl)

lemma step_ok_send:
  assumes "keeps now r (h_sess h) (h_sess h')" "h_tree h' = h_tree h"
    "activeQueries (h_sess h') = activeQueries (h_sess h)"
  shows "step_ok h h'"
  using assms by (intro step_ok_same_tree) (auto simp: keeps_def sinks_ok_def)

text \<open>Steps that change the tree only.\<close>

lemma step_ok_tree:
  assumes "host_ok h \<Longrightarrow> keeps_out (sess_auth (h_sess h)) (newNodesPath (h_sess h)) (h_tree h) u"
  shows "step_ok h (h\<lparr>h_tree := u\<rparr>)"
  using assms by (fastforce simp: step_ok_def host_ok_def fixed_def sinks_ok_def keeps_out_def)

lemma step_ok_creates:
  assumes "host_ok h \<Longrightarrow> creates (h_tree h) u"
  shows "step_ok h (h\<lparr>h_tree := u\<rparr>)"
  using assms by (intro step_ok_tree keeps_out_creates) (auto simp: host_ok_def)

lemma step_ok_respondAndCache: "step_ok h (respondAndCache env now k resp h)"
  by (rule step_ok_send [OF keeps_respondAndCache]) simp_all

lemma step_ok_sendFitted: "step_ok h (sendFittedNodes env now k xs r b c h)"
  by (rule step_ok_send [where r = "Some k", OF keeps_sendFittedNodes]) simp_all

lemma step_ok_recordError: "step_ok h (snd (recordError code message k h))"
proof -
  let ?t = "snd (AppendUnder (errorsPath (h_sess h)) code ValueNoValue (h_tree h))"
  have "snd (recordError code message k h) = h\<lparr>h_tree := snd (AppendUnder (fresh (h_tree h)) ''reqSequenceNumber''
      (ValueCounter64 k) (snd (AppendUnder (fresh (h_tree h)) ''message'' (StringValue message) ?t)))\<rparr>"
    by (simp add: recordError_def AppendUnder_eq split_beta Let_def)
  moreover have "creates (h_tree h) (snd (AppendUnder (fresh (h_tree h)) ''reqSequenceNumber''
      (ValueCounter64 k) (snd (AppendUnder (fresh (h_tree h)) ''message'' (StringValue message) ?t))))"
    if "host_ok h"
  proof -
    have add: "wf_tree t \<Longrightarrow> p < fresh t \<Longrightarrow> creates t (snd (AppendUnder p key v t))" for t p key v
      by (simp add: AppendUnder_eq creates_addNode)
    have e: "wf_tree (h_tree h)" "errorsPath (h_sess h) < fresh (h_tree h)" using that by (auto simp: host_ok_def)
    have 1: "creates (h_tree h) ?t" by (rule add [OF e])
    let ?t2 = "snd (AppendUnder (fresh (h_tree h)) ''message'' (StringValue message) ?t)"
    have 2: "creates ?t ?t2" using 1 by (intro add) (simp_all add: creates_def AppendUnder_eq addNode_simps(2))
    have 3: "creates ?t2 (snd (AppendUnder (fresh (h_tree h)) ''reqSequenceNumber'' (ValueCounter64 k) ?t2))"
      using 2 by (intro add) (simp_all add: creates_def AppendUnder_eq addNode_simps(2))
    from creates_trans [OF creates_trans [OF 1 2] 3] show ?thesis .
  qed
  ultimately show ?thesis using step_ok_creates by simp
qed

lemma step_ok_respondError: "step_ok h (respondError env now k code message h)"
  using step_ok_trans [OF step_ok_recordError step_ok_respondAndCache]
  by (simp add: respondError_def split_beta)

lemma step_ok_answerNodes: "step_ok h (answerNodes env now k ns h)"
  by (simp add: answerNodes_def step_ok_respondAndCache)

lemma step_ok_reap: "step_ok h (reapCancelledQueries h)"
proof (rule step_ok_same_tree)
  show "fixed (h_sess h) (h_sess (reapCancelledQueries h))" using keeps_reap [of now None h] by (simp add: keeps_def)
qed (auto simp: reapCancelledQueries_def sinks_ok_def reapLoop_eq)

lemma step_okI: "(host_ok h \<Longrightarrow> step_ok h h') \<Longrightarrow> step_ok h h'"
  by (auto simp: step_ok_def)

lemma step_ok_fresh: "step_ok h h' \<Longrightarrow> host_ok h \<Longrightarrow> n < fresh (h_tree h) \<Longrightarrow> n < fresh (h_tree h')"
  by (auto simp: step_ok_def keeps_out_def)

lemma step_ok_deliver:
  assumes "sk_resultsNode s < fresh (h_tree h)"
  shows "step_ok h (snd (deliverBatch env now k batch s h))"
    and "sk_resultsNode (fst (deliverBatch env now k batch s h)) = sk_resultsNode s"
proof -
  have push: "step_ok h (sendFittedNodes env now k xs 0 b False (h\<lparr>h_tree := fst (AppendLeafSubtree (sk_resultsNode s) key es (h_tree h))\<rparr>))"
    for xs b key es
    using assms by (intro step_ok_trans [OF step_ok_creates step_ok_sendFitted] AppendLeafSubtree_creates)
      (auto simp: host_ok_def)
  have "sk_resultsNode (snd (nextTimestamp now s)) = sk_resultsNode s" by (simp add: nextTimestamp_def Let_def)
  with push show "step_ok h (snd (deliverBatch env now k batch s h))"
    by (auto simp: deliverBatch_def DeliverResults_def Let_def split_beta split: option.split)
  show "sk_resultsNode (fst (deliverBatch env now k batch s h)) = sk_resultsNode s"
    by (auto simp: deliverBatch_def DeliverResults_def nextTimestamp_def Let_def split_beta split: option.split)
qed

lemma al_put_in: "x \<in> set (al_put k v m) \<Longrightarrow> x = (k, v) \<or> x \<in> set m"
  by (induction m) (auto simp: al_put_def split: if_splits)

lemma step_ok_putQuery:
  assumes "sk_resultsNode (aq_sink aq) < fresh (h_tree h)"
  shows "step_ok h (putQuery k aq h)"
proof (rule step_ok_same_tree)
  assume "sinks_ok (h_tree h) (h_sess h)"
  with assms show "sinks_ok (h_tree h) (h_sess (putQuery k aq h))"
    unfolding sinks_ok_def putQuery_def on_sess_fields by (auto dest!: al_put_in)
qed (simp_all add: putQuery_def fixed_def)

lemma sink_fresh:
  assumes "host_ok h" "map_of (activeQueries (h_sess h)) k = Some aq"
  shows "sk_resultsNode (aq_sink aq) < fresh (h_tree h)"
  using assms map_of_SomeD [OF assms(2)] by (fastforce simp: host_ok_def sinks_ok_def)

lemma step_ok_deliver_put:
  assumes "host_ok h" "sk_resultsNode (aq_sink aq) < fresh (h_tree h)"
    "aq_sink aq' = fst (deliverBatch env now k batch (aq_sink aq) h)"
  shows "step_ok h (putQuery k aq' (snd (deliverBatch env now k batch (aq_sink aq) h)))"
proof -
  note d = step_ok_deliver [OF assms(2), of env now k batch]
  have "sk_resultsNode (aq_sink aq') < fresh (h_tree (snd (deliverBatch env now k batch (aq_sink aq) h)))"
    using step_ok_fresh [OF d(1) assms(1,2)] d(2) assms(3) by simp
  then show ?thesis by (rule step_ok_trans [OF d(1) step_ok_putQuery])
qed

lemma step_ok_queryTick:
  assumes "queryTick env now k tick h = Ok h'"
  shows "step_ok h h'"
proof (rule step_okI)
  assume ok: "host_ok h"
  show "step_ok h h'"
  proof (cases "map_of (activeQueries (h_sess h)) k")
    case (Some aq)
    from assms Some step_ok_deliver_put [OF ok sink_fresh [OF ok Some]] show ?thesis
      by (auto simp: queryTick_def rbind_Ok_iff Let_def split_beta split: if_splits)
  qed (use assms in \<open>simp add: queryTick_def\<close>)
qed

lemma step_ok_queryStart:
  assumes "queryStart env now k h = Ok h'"
  shows "step_ok h h'"
proof (rule step_okI)
  assume ok: "host_ok h"
  show "step_ok h h'"
  proof (cases "map_of (activeQueries (h_sess h)) k")
    case (Some aq)
    note sink = sink_fresh [OF ok Some]
    from assms Some step_ok_deliver_put [OF ok sink] step_ok_putQuery [of "aq\<lparr>aq_started := True\<rparr>" h k] sink
    show ?thesis by (auto simp: queryStart_def rbind_Ok_iff Let_def split_beta split: if_splits)
  qed (use assms in \<open>simp add: queryStart_def\<close>)
qed

section \<open>Handlers\<close>

lemma step_ok_handleGet: "handleGet env now g h = Ok h' \<Longrightarrow> step_ok h h'"
  by (auto simp: handleGet_def Let_def step_ok_respondError step_ok_sendFitted
      split: NodePointer.splits result.splits prod.splits)

text \<open>A set in which only the last edit moves a node, with siblings given in order.\<close>

definition tame_set :: "env \<Rightarrow> SetReq \<Rightarrow> host \<Rightarrow> bool" where
  "tame_set env s h \<longleftrightarrow> (\<forall>e \<in> set (butlast (set_Edits s)). se_NewParent e = None) \<and>
     siblings_later (env_compile env) (env_real env) (h_tree h) (Some (newNodesPath (h_sess h))) (sess_auth (h_sess h)) s"

lemma step_ok_handleSet:
  assumes "handleSet env now s h = Ok h'" "tame_set env s h"
  shows "step_ok h h'"
proof -
  obtain t r where set: "SetAs (env_compile env) (env_real env) s (Some (newNodesPath (h_sess h)))
      (sess_auth (h_sess h)) (h_tree h) = (t, r)" by fastforce
  have t: "step_ok h (h\<lparr>h_tree := t\<rparr>)"
    using keeps_out_SetAs [OF _ set] assms(2) by (intro step_ok_tree) (auto simp: host_ok_def tame_set_def)
  from assms(1) set step_ok_trans [OF t step_ok_respondError]
    step_ok_trans [OF t step_ok_trans [OF step_ok_reap step_ok_answerNodes]]
  show ?thesis by (auto simp: handleSet_def Let_def split: result.splits)
qed

lemma step_ok_handleDelete:
  assumes "handleDelete env now d h = Ok h'"
  shows "step_ok h h'"
proof -
  obtain t r where del: "DeleteAs (env_compile env) (env_real env) (del_Targets d)
      (sess_auth (h_sess h)) (h_tree h) = (t, r)" by fastforce
  have t: "step_ok h (h\<lparr>h_tree := t\<rparr>)"
    using keeps_out_DeleteAs [OF _ del] by (intro step_ok_tree) (auto simp: host_ok_def)
  from assms del step_ok_trans [OF t step_ok_respondError]
    step_ok_trans [OF t step_ok_trans [OF step_ok_reap step_ok_answerNodes]]
  show ?thesis by (auto simp: handleDelete_def Let_def split: result.splits)
qed

lemma step_ok_handleCreate:
  assumes "handleCreate env now c h = Ok h'"
  shows "step_ok h h'"
proof -
  obtain t r where cr: "CreateStagedAs (env_compile env) (env_real env) (newNodesPath (h_sess h))
      (case cr_Parent c of None \<Rightarrow> [] | Some p \<Rightarrow> p) (cr_Key c)
      (case cr_Value c of None \<Rightarrow> ValueNoValue | Some v \<Rightarrow> v) (sess_auth (h_sess h)) (h_tree h) = (t, r)"
    by fastforce
  have "creates (h_tree h) t" if "wf_tree (h_tree h)" "newNodesPath (h_sess h) < fresh (h_tree h)"
    by (rule CreateStagedAs_cases [OF that, of "env_compile env" "env_real env"
        "case cr_Parent c of None \<Rightarrow> [] | Some p \<Rightarrow> p" "cr_Key c"
        "case cr_Value c of None \<Rightarrow> ValueNoValue | Some v \<Rightarrow> v" "sess_auth (h_sess h)"])
      (use cr that in \<open>auto simp: creates_refl creates_addNode\<close>)
  then have t: "step_ok h (h\<lparr>h_tree := t\<rparr>)" by (intro step_ok_creates) (auto simp: host_ok_def)
  from assms cr step_ok_trans [OF t step_ok_respondError] step_ok_trans [OF t step_ok_answerNodes]
  show ?thesis by (auto simp: handleCreate_def Let_def split: result.splits)
qed

lemma step_ok_registerQuery:
  assumes "host_ok h" "registerQuery q h = (aq, h1)"
  shows "step_ok h h1" "sk_resultsNode (aq_sink aq) < fresh (h_tree h1)"
proof -
  let ?key = "''Query-SequenceNumber='' @ show_int (sint (q_SequenceNumber q))"
  let ?t = "snd (AppendUnder (queryResultsPath (h_sess h)) ?key ValueNoValue (h_tree h))"
  have aq: "sk_resultsNode (aq_sink aq) = fresh (h_tree h)" "h_tree h1 = ?t"
    "activeQueries (h_sess h1) = al_put (q_SequenceNumber q) aq (activeQueries (h_sess h))"
    "fixed (h_sess h) (h_sess h1)"
    using assms(2) by (auto simp: registerQuery_def Let_def split_beta AppendUnder_eq fixed_def)
  have tree: "fresh ?t = Suc (fresh (h_tree h))" by (simp add: AppendUnder_eq addNode_simps(2))
  with aq show sink: "sk_resultsNode (aq_sink aq) < fresh (h_tree h1)" by simp
  have "creates (h_tree h) ?t" using assms(1) by (simp add: host_ok_def AppendUnder_eq creates_addNode)
  then have t: "step_ok h (h\<lparr>h_tree := ?t\<rparr>)" by (rule step_ok_creates)
  have "step_ok (h\<lparr>h_tree := ?t\<rparr>) h1"
  proof (rule step_ok_same_tree)
    assume "sinks_ok (h_tree (h\<lparr>h_tree := ?t\<rparr>)) (h_sess (h\<lparr>h_tree := ?t\<rparr>))"
    with sink aq(2,3) show "sinks_ok (h_tree (h\<lparr>h_tree := ?t\<rparr>)) (h_sess h1)"
      by (auto simp: sinks_ok_def dest!: al_put_in)
  qed (use aq in simp_all)
  with t show "step_ok h h1" by (rule step_ok_trans)
qed

lemma step_ok_forgetQuery: "step_ok h (forgetQuery k h)"
  by (rule step_ok_same_tree) (auto simp: forgetQuery_def fixed_def sinks_ok_def al_delete_def)

lemma step_ok_handleQuery:
  assumes "handleQuery env now q h = Ok h'"
  shows "step_ok h h'"
proof (rule step_okI)
  assume ok: "host_ok h"
  show "step_ok h h'"
  proof (cases "ValidateQuery q")
    case (Ok v)
    let ?k = "q_SequenceNumber q"
    obtain aq h1 where reg: "registerQuery q h = (aq, h1)" by fastforce
    note r = step_ok_registerQuery [OF ok reg]
    obtain h2 resp where h2: "(if q_CollectionMode q = CollectOnce
        then rbind (startOnce env now ?k aq h1) (\<lambda>h. Ok (forgetQuery ?k h)) else Ok h1) = Ok h2"
      "h' = respondAndCache env now ?k resp h2"
      using assms Ok reg by (auto simp: handleQuery_def Let_def rbind_Ok_iff)
    have "step_ok h1 h2"
      using h2(1) step_ok_trans [OF step_ok_deliver(1) [OF r(2)] step_ok_forgetQuery]
      by (auto simp: startOnce_def rbind_Ok_iff split: if_splits)
    with r(1) show ?thesis unfolding h2(2) by (intro step_ok_trans [OF step_ok_trans step_ok_respondAndCache])
  qed (use assms step_ok_respondError in \<open>auto simp: handleQuery_def Let_def\<close>)
qed

definition tame_message :: "env \<Rightarrow> Message \<Rightarrow> host \<Rightarrow> bool" where
  "tame_message env m h \<longleftrightarrow> (case m of MsgSet s \<Rightarrow> tame_set env s h | _ \<Rightarrow> True)"

lemma step_ok_dispatch:
  assumes "dispatch env now m h = Ok h'" "tame_message env m h"
  shows "step_ok h h'"
proof (cases m)
  case (MsgSummaryAck a)
  with assms show ?thesis
    by (auto simp: dispatch_def fixed_def sinks_ok_def intro!: step_ok_same_tree)
qed (use assms in \<open>auto simp: dispatch_def tame_message_def step_ok_handleGet step_ok_handleSet step_ok_handleCreate
  step_ok_handleQuery step_ok_handleDelete\<close>)

lemma step_ok_handleMessage:
  assumes "handleMessage env now m h = Ok h'" "tame_message env m h"
  shows "step_ok h h'"
  using assms(1)
proof (cases rule: handleMessage_cases)
  case 1
  with assms(2) step_ok_dispatch show ?thesis by blast
next
  case (2 k)
  have "h_tree (resendCached env now k h) = h_tree h"
    "activeQueries (h_sess (resendCached env now k h)) = activeQueries (h_sess h)"
    by (simp_all add: resendCached_def sendResponse_def transmit_def sendDatagram_def Send_def allocSeq_def Let_def
        split_beta split: option.split)
  with 2(3) step_ok_send [OF resendCached_keeps] show ?thesis by blast
next
  case (3 k)
  let ?h = "on_sess (\<lambda>s. s\<lparr>ss_receiver := fst (MarkReceived (ss_receiver (h_sess h)) k)\<rparr>) h"
  have "step_ok h ?h" by (rule step_ok_same_tree) (simp_all add: fixed_def sinks_ok_def)
  moreover have "tame_message env m ?h"
    using assms(2) by (cases m) (simp_all add: tame_message_def tame_set_def sess_auth_def)
  ultimately show ?thesis using step_ok_dispatch [OF 3(3)] step_ok_trans by blast
qed

text \<open>Every event, whatever arrives, if a set in it is tame.\<close>

definition tame :: "env \<Rightarrow> session_event \<Rightarrow> host \<Rightarrow> bool" where
  "tame env ev h \<longleftrightarrow> (case ev of
     Datagram data \<Rightarrow> (case UnmarshalMessage data of Ok m \<Rightarrow> tame_message env m h | _ \<Rightarrow> True)
   | _ \<Rightarrow> True)"

lemma step_ok_sessionStep:
  assumes "sessionStep env now ev h = Ok h'" "tame env ev h"
  shows "step_ok h h'"
proof (cases ev)
  case (Datagram data)
  with assms show ?thesis
    by (auto simp: sessionStep_def receiveDatagram_def tame_def intro: step_ok_handleMessage split: result.splits)
next
  case AckTick
  with assms step_ok_send [OF keeps_ackTick] show ?thesis
    by (auto simp: sessionStep_def ackTick_def Let_def)
next
  case RetransmitTick
  with assms show ?thesis
    by (auto simp: sessionStep_def retransmitTick_def split_beta fixed_def sinks_ok_def intro!: step_ok_same_tree)
qed (use assms in \<open>auto simp: sessionStep_def step_ok_queryStart step_ok_queryTick\<close>)

end
