(* ===== verification/Server_Isolation.thy ===== *)
theory Server_Isolation
  imports Session_Isolation
begin

text \<open>
  The server as a whole: connections are accepted, each becoming a session, and the sessions act on the
  one tree in any order.
\<close>

section \<open>The server\<close>

text \<open>\<open>randomSessionID\<close>: eight random octets in hexadecimal.\<close>

definition session_id :: "string \<Rightarrow> bool" where
  "session_id sid \<longleftrightarrow> length sid = 16 \<and> set sid \<subseteq> set ''0123456789abcdef''"

type_synonym sessions = "string \<Rightarrow> host option"

text \<open>
  Runs from one state to another, with the sessions that acted: \<open>Run\<close> accepts a connection (with an
  identifier not in use), or some session takes an event on the tree as it is. Sets move a node in their
  last edit at most, and give siblings in order (\<open>tame\<close>).
\<close>

inductive server_run :: "env \<Rightarrow> Server \<Rightarrow> Tree \<times> sessions \<Rightarrow> string list \<Rightarrow> Tree \<times> sessions \<Rightarrow> bool"
  for env sv w where
  start: "server_run env sv w [] w"
| accept: "server_run env sv w log (t, ss) \<Longrightarrow> session_id sid \<Longrightarrow> ss sid = None \<Longrightarrow>
    newSession peer sid (sv\<lparr>sv_tree := t\<rparr>) = (s, sv') \<Longrightarrow>
    server_run env sv w log (sv_tree sv', ss(sid \<mapsto> \<lparr>h_tree = sv_tree sv', h_sess = s, h_sent = []\<rparr>))"
| event: "server_run env sv w log (t, ss) \<Longrightarrow> ss sid = Some h \<Longrightarrow> tame env ev (h\<lparr>h_tree := t\<rparr>) \<Longrightarrow>
    sessionStep env now ev (h\<lparr>h_tree := t\<rparr>) = Ok h' \<Longrightarrow>
    server_run env sv w (log @ [sid]) (h_tree h', ss(sid \<mapsto> h'))"

section \<open>Paths\<close>

definition session_path :: "string \<Rightarrow> string" where
  "session_path sid = ''/Sessions/Connection-ID='' @ sid"

lemma session_path_inj:
  assumes "CHR ''/'' \<notin> set a" "CHR ''/'' \<notin> set b"
    and "session_path a @ CHR ''/'' # x = session_path b @ CHR ''/'' # y"
  shows "a = b"
proof -
  have "takeWhile (\<lambda>c. c \<noteq> CHR ''/'') (s @ CHR ''/'' # z) = s" if "CHR ''/'' \<notin> set s" for s z
    using that by (induction s) auto
  moreover have "a @ CHR ''/'' # x = b @ CHR ''/'' # y" using assms(3) by (simp add: session_path_def)
  ultimately show ?thesis using assms(1,2) by metis
qed

definition up :: "Tree \<Rightarrow> nat \<Rightarrow> string" where
  "up t n = (if Parent t n = None then [] else NodePath t n)"

lemma up_child: "wf_tree t \<Longrightarrow> Parent t c = Some p \<Longrightarrow> up t c = up t p @ CHR ''/'' # Key t c"
  using NodePath_child [of t c p] by (simp add: up_def)

lemma NodePath_below:
  assumes "wf_tree t" "(n, r) \<in> (parent_rel t)\<^sup>+" "Parent t r \<noteq> None"
  shows "\<exists>x. NodePath t n = NodePath t r @ CHR ''/'' # x"
  using assms(2)
proof (induction rule: converse_trancl_induct)
  case (base n)
  with NodePath_child [OF assms(1), of n r] assms(3) show ?case by (auto simp: parent_rel_def)
next
  case (step n m)
  then obtain x where x: "NodePath t m = NodePath t r @ CHR ''/'' # x" by blast
  have "Parent t m \<noteq> None" using step(2) unfolding parent_trancl by auto
  with x NodePath_child [OF assms(1), of n m] step(1) show ?case by (auto simp: parent_rel_def)
qed

text \<open>The path of the node that \<open>EnsurePath\<close> returns.\<close>

lemma up_grows:
  assumes "wf_tree t" "creates t u" "n < fresh t"
  shows "up u n = up t n"
proof -
  have "wf_tree u" "grows t u" using assms(2) by (simp_all add: creates_def)
  then have "NodePath u n = NodePath t n" "Parent u n = Parent t n"
    using grows_NodePath [OF assms(1) _ _ assms(3)] growsD(5) [OF _ assms(3)] by blast+
  then show ?thesis by (simp add: up_def)
qed

lemma ensurePath_path:
  "wf_tree t \<Longrightarrow> cur < fresh t \<Longrightarrow> ensurePathLocked cur keys t = (n, u) \<Longrightarrow>
   up u n = up t cur @ concat (map (\<lambda>k. CHR ''/'' # k) keys)"
proof (induction keys arbitrary: cur t)
  case (Cons key keys)
  show ?case
  proof (cases "findKey t key (Children t cur)")
    case None
    let ?t = "addNode cur key ValueNoValue t"
    have c: "creates t ?t" using Cons.prems(1,2) by (rule creates_addNode)
    have "up u n = up ?t (fresh t) @ concat (map (\<lambda>k. CHR ''/'' # k) keys)"
      using Cons.prems c by (intro Cons.IH) (simp_all add: creates_def ensurePath_step [OF None] addNode_simps(2)
          del: ensurePathLocked.simps)
    moreover have "Parent ?t (fresh t) = Some cur" "Key ?t (fresh t) = key"
      using Cons.prems(2) by (simp_all add: addNode_simps(1))
    ultimately show ?thesis
      using up_child [of ?t "fresh t" cur] up_grows [OF Cons.prems(1) c Cons.prems(2)] c by (simp add: creates_def)
  next
    case (Some c)
    then have "c \<in> set (Children t cur)" "Key t c = key" using findKey_Some by blast+
    then have "c < fresh t" "up t c = up t cur @ CHR ''/'' # key"
      using wf_child_lt [OF Cons.prems(1)] up_child [OF Cons.prems(1)] wf_treeD(8) [OF Cons.prems(1)] by blast+
    with Cons.IH [of t c] Cons.prems(1,3) show ?thesis by (simp add: ensurePath_found [OF Some] del: ensurePathLocked.simps)
  qed
qed simp

lemma newSession_path:
  assumes "wf_tree (sv_tree sv)" "newSession peer sid sv = (s, sv')"
  shows "NodePath (sv_tree sv') (newNodesPath s) = session_path sid @ ''/NewNodes''"
proof -
  obtain b t1 nn t2 er t3 qr t4 where e:
    "EnsurePath [''Sessions'', ''Connection-ID='' @ sid] (sv_tree sv) = (b, t1)"
    "EnsurePath0 b [''NewNodes''] t1 = (nn, t2)" "EnsurePath0 b [''Errors''] t2 = (er, t3)"
    "EnsurePath0 b [''QueryResults''] t3 = (qr, t4)" by (metis surj_pair)
  note e = e [unfolded EnsurePath_def EnsurePath0_def]
  note root = wf_treeD(1,2) [OF assms(1)]
  note 1 = ensurePath_creates' [OF e(1) assms(1) root(1)]
  note 2 = ensurePath_creates' [OF e(2) 1(3,2)]
  have b: "b < fresh t2" using 1(2) 2(4) by simp
  note 3 = ensurePath_creates' [OF e(3) 2(3) b]
  have b: "b < fresh t3" using b 3(4) by simp
  note 4 = ensurePath_creates' [OF e(4) 3(3) b]
  have "up t2 nn = session_path sid @ ''/NewNodes''"
    using ensurePath_path [OF assms(1) root(1) e(1)] ensurePath_path [OF 1(3,2) e(2)] root(2)
    by (simp add: up_def session_path_def)
  moreover have "up t4 nn = up t2 nn"
    using up_grows [OF 2(3) creates_trans [OF 3(1) 4(1)] 2(2)] .
  moreover have "newNodesPath s = nn" "sv_tree sv' = t4"
    using assms(2) e by (auto simp: newSession_def Let_def EnsurePath_def EnsurePath0_def)
  ultimately show ?thesis by (auto simp: up_def session_path_def split: if_splits)
qed

section \<open>What holds in every state\<close>

text \<open>A session of the server: its checker, its nodes, and the place of its staging node.\<close>

definition session_at :: "Tree \<Rightarrow> string \<Rightarrow> host \<Rightarrow> bool" where
  "session_at t sid h \<longleftrightarrow> CHR ''/'' \<notin> set sid \<and> host_ok (h\<lparr>h_tree := t\<rparr>) \<and>
     (\<exists>p ident. ss_auth (h_sess h) = NewChecker p ident sid) \<and>
     NodePath t (newNodesPath (h_sess h)) = session_path sid @ ''/NewNodes''"

definition world_ok :: "Tree \<times> sessions \<Rightarrow> bool" where
  "world_ok w \<longleftrightarrow> wf_tree (fst w) \<and> (\<forall>sid h. snd w sid = Some h \<longrightarrow> session_at (fst w) sid h)"

lemma session_id_plain: "session_id sid \<Longrightarrow> CHR ''/'' \<notin> set sid"
  by (auto simp: session_id_def)

text \<open>No node in or below another session's staging area is staged by this one.\<close>

lemma not_staged:
  assumes at: "session_at t a h" and b: "CHR ''/'' \<notin> set b" "a \<noteq> b"
    and path: "NodePath t n = session_path b @ x" "x = [] \<or> hd x = CHR ''/''"
  shows "(n, newNodesPath (h_sess h)) \<notin> (parent_rel t)\<^sup>+"
proof
  let ?root = "newNodesPath (h_sess h)"
  assume below: "(n, ?root) \<in> (parent_rel t)\<^sup>+"
  have wf: "wf_tree t" and root: "NodePath t ?root = session_path a @ ''/NewNodes''" and a: "CHR ''/'' \<notin> set a"
    using at by (auto simp: session_at_def host_ok_def)
  have "Parent t ?root \<noteq> None"
  proof
    assume "Parent t ?root = None"
    then have "NodePath t ?root = ''/''" by (simp add: NodePath_def)
    with root show False by (simp add: session_path_def)
  qed
  then obtain y where "NodePath t n = NodePath t ?root @ CHR ''/'' # y" using NodePath_below [OF wf below] by blast
  then have eq: "session_path b @ x @ ''/'' = session_path a @ CHR ''/'' # ''NewNodes/'' @ y @ ''/''"
    using path(1) root by simp
  obtain z where "x @ ''/'' = CHR ''/'' # z" using path(2) by (cases x) auto
  with eq session_path_inj [OF b(1) a, of z] b(2) show False by simp
qed

lemma parent_acyclic:
  assumes "wf_tree t"
  shows "(n, n) \<notin> (parent_rel t)\<^sup>+"
proof -
  obtain rank :: "nat \<Rightarrow> nat" where rank: "\<And>a b. Parent t a = Some b \<Longrightarrow> rank b < rank a"
    using assms unfolding wf_tree_def parents_acyclic_def by blast
  have "rank b < rank a" if "(a, b) \<in> (parent_rel t)\<^sup>+" for a b
    using that by induction (auto simp: parent_rel_def dest: rank intro: less_trans)
  then show ?thesis by blast
qed

lemma session_at_keeps:
  assumes at: "session_at t a h" and k: "keeps_out auth root t u" and out: "(newNodesPath (h_sess h), root) \<notin> (parent_rel t)\<^sup>+"
  shows "session_at u a h"
proof -
  have "host_ok (h\<lparr>h_tree := u\<rparr>)"
    using at k by (fastforce simp: session_at_def host_ok_def sinks_ok_def keeps_out_def)
  moreover have "newNodesPath (h_sess h) < fresh t" using at by (simp add: session_at_def host_ok_def)
  then have "NodePath u (newNodesPath (h_sess h)) = NodePath t (newNodesPath (h_sess h))"
    using k out by (simp add: keeps_out_def)
  ultimately show ?thesis using at by (simp add: session_at_def)
qed

lemma world_ok_accept:
  assumes ok: "world_ok (t, ss)" and sid: "session_id sid" and new: "newSession peer sid (sv\<lparr>sv_tree := t\<rparr>) = (s, sv')"
  shows "world_ok (sv_tree sv', ss(sid \<mapsto> \<lparr>h_tree = sv_tree sv', h_sess = s, h_sent = []\<rparr>))"
    and "creates t (sv_tree sv')"
proof -
  have wf: "wf_tree (sv_tree (sv\<lparr>sv_tree := t\<rparr>))" using ok by (simp add: world_ok_def)
  note c = newSession_creates [OF wf new]
  then show cr: "creates t (sv_tree sv')" by simp
  have wfu: "wf_tree (sv_tree sv')" using cr by (simp add: creates_def)
  have "s = fst (newSession peer sid (sv\<lparr>sv_tree := t\<rparr>))" using new by simp
  then have s: "activeQueries s = []" "ss_auth s = NewChecker (sv_Policy sv) (if peer = [] then ''anonymous'' else peer) sid"
    by (simp_all add: newSession_def Let_def split_beta)
  have "session_at (sv_tree sv') sid \<lparr>h_tree = sv_tree sv', h_sess = s, h_sent = []\<rparr>"
    using s c(2) newSession_path [OF wf new] wfu session_id_plain [OF sid]
    unfolding session_at_def host_ok_def sinks_ok_def by auto
  moreover have "session_at (sv_tree sv') a h" if "ss a = Some h" for a h
  proof -
    have "session_at t a h" using ok that by (simp add: world_ok_def)
    moreover have "keeps_out None (fresh t) t (sv_tree sv')"
      using keeps_out_creates [OF _ cr] wf by simp
    moreover have "(m, fresh t) \<notin> (parent_rel t)\<^sup>+" for m
    proof
      assume "(m, fresh t) \<in> (parent_rel t)\<^sup>+"
      then obtain j where "(j, fresh t) \<in> parent_rel t" by (blast dest: tranclD2)
      with wf_treeD(5) [of t j "fresh t"] wf show False by (simp add: parent_rel_def)
    qed
    ultimately show ?thesis by (rule session_at_keeps)
  qed
  ultimately show "world_ok (sv_tree sv', ss(sid \<mapsto> \<lparr>h_tree = sv_tree sv', h_sess = s, h_sent = []\<rparr>))"
    using wfu by (simp add: world_ok_def)
qed

lemma world_ok_event:
  assumes ok: "world_ok (t, ss)" and h: "ss sid = Some h" "tame env ev (h\<lparr>h_tree := t\<rparr>)"
    and step: "sessionStep env now ev (h\<lparr>h_tree := t\<rparr>) = Ok h'"
  shows "world_ok (h_tree h', ss(sid \<mapsto> h'))"
    and "keeps_out (sess_auth (h_sess h)) (newNodesPath (h_sess h)) t (h_tree h')"
proof -
  have at: "session_at t sid h" using ok h(1) by (simp add: world_ok_def)
  then have s: "host_ok h'" "fixed (h_sess h) (h_sess h')"
    "keeps_out (sess_auth (h_sess h)) (newNodesPath (h_sess h)) t (h_tree h')"
    using step_ok_sessionStep [OF step h(2)] by (auto simp: step_ok_def session_at_def)
  then show "keeps_out (sess_auth (h_sess h)) (newNodesPath (h_sess h)) t (h_tree h')" by blast
  have wf: "wf_tree t" using ok by (simp add: world_ok_def)
  have self: "(newNodesPath (h_sess h), newNodesPath (h_sess h)) \<notin> (parent_rel t)\<^sup>+"
    by (rule parent_acyclic [OF wf])
  have "session_at (h_tree h') sid h'"
    using session_at_keeps [OF at s(3) self] s(1,2) by (simp add: session_at_def fixed_def)
  moreover have "session_at (h_tree h') b g" if "ss b = Some g" "b \<noteq> sid" for b g
  proof -
    have g: "session_at t b g" using ok that(1) by (simp add: world_ok_def)
    then have "(newNodesPath (h_sess g), newNodesPath (h_sess h)) \<notin> (parent_rel t)\<^sup>+"
      using not_staged [OF at, of b "newNodesPath (h_sess g)" "''/NewNodes''"] that(2) by (simp add: session_at_def)
    then show ?thesis by (rule session_at_keeps [OF g s(3)])
  qed
  ultimately show "world_ok (h_tree h', ss(sid \<mapsto> h'))" using s(1) by (auto simp: world_ok_def host_ok_def)
qed

lemma server_run_ok:
  "server_run env sv w log w' \<Longrightarrow> world_ok w \<Longrightarrow> world_ok w'"
proof (induction rule: server_run.induct)
  case (accept log t ss sid peer s sv')
  then show ?case using world_ok_accept(1) [of t ss sid peer sv s sv'] by blast
next
  case (event log t ss sid h ev now h')
  then show ?case using world_ok_event(1) [of t ss sid h env ev now h'] by blast
qed

end
