(* ===== verification/Server_Properties.thy ===== *)
theory Server_Properties
  imports Server_Isolation Session_Properties
begin

text \<open>What holds of the server with all its sessions.\<close>

lemma other_session_denied:
  assumes "CHR ''/'' \<notin> set b" "a \<noteq> b" "x = [] \<or> hd x = CHR ''/''"
  shows "\<not> Allowed (NewChecker p ident a) op (session_path b @ x)"
proof
  assume "Allowed (NewChecker p ident a) op (session_path b @ x)"
  then have "takeWhile (\<lambda>c. c \<noteq> CHR ''/'') (''Connection-ID='' @ b @ x) = ''Connection-ID='' @ a"
    using allowed_own_session [of p ident a op "''Connection-ID='' @ b @ x"] by (simp add: session_path_def)
  moreover have "takeWhile (\<lambda>c. c \<noteq> CHR ''/'') (b @ x) = b"
    using assms(1,3) by (induction b) (auto simp: takeWhile_eq_Nil_iff)
  ultimately show False using assms(2) by simp
qed


text \<open>A tree with the root of a session \<open>bb\<close>; another session is accepted and handles a request.\<close>

definition apart_server :: Server where
  "apart_server = \<lparr>sv_tree = snd (AppendUnder 1 ''Connection-ID=bb'' ValueNoValue
     (snd (AppendUnder 0 ''Sessions'' ValueNoValue NewTree))), MaxDatagramSizeOverride = 0, sv_Policy = None\<rparr>"

lemma apart_tree:
  "wf_tree (sv_tree apart_server)" "IsReachable (sv_tree apart_server) 2"
  "NodePath (sv_tree apart_server) 2 = session_path ''bb''" "Key (sv_tree apart_server) 2 = ''Connection-ID=bb''"
proof -
  have f: "fresh NewTree = 1" by (simp add: NewTree_def)
  show "wf_tree (sv_tree apart_server)"
    by (simp add: apart_server_def AppendUnder_wf NewTree_wf f AppendUnder_eq addNode_simps(2) wf_addNode)
  show "IsReachable (sv_tree apart_server) 2" "NodePath (sv_tree apart_server) 2 = session_path ''bb''"
    "Key (sv_tree apart_server) 2 = ''Connection-ID=bb''"
    by (simp_all add: apart_server_def IsReachable_def NodePath_def session_path_def indexOfChild_def AppendUnder_def
        allocNode_def AppendChild_def NewTree_def notifyChanged_def update_def setChildren_def setParent_def
        eval_nat_numeral Let_def)
qed


end
