(* ===== verification/Client_Connection.thy ===== *)
theory Client_Connection
  imports Sender Codec Query_Runner Match_Expr
begin

text \<open>
  The client's end of a connection (\<open>cmd/client/main.go\<close>): its state, reading datagrams, handing responses
  to whoever waits for them, acknowledging, waiting for a reply; and the requests its commands build from
  their arguments.
\<close>

section \<open>State\<close>

text \<open>
  \<open>cn_respChans\<close> maps the number of a request that is waited for to its channel, which holds one response
  at most. \<open>cn_pushHandler\<close> is the test of the installed push handler, if any; what passed it is logged in
  \<open>cn_pushes\<close>.
\<close>

record client =
  cn_sender :: Sender
  cn_receiver :: Receiver
  cn_nextSeq :: i64
  cn_respChans :: "i64 \<Rightarrow> Response option option"
  cn_pushHandler :: "(Response \<Rightarrow> bool) option"
  cn_pushes :: "Response list"

definition newClient :: client where
  "newClient = \<lparr>cn_sender = NewSender (250 * 10 ^ 6) 8, cn_receiver = NewReceiver, cn_nextSeq = 0,
     cn_respChans = (\<lambda>_. None), cn_pushHandler = None, cn_pushes = []\<rparr>"

section \<open>Operations\<close>

definition clientAllocSeq :: "client \<Rightarrow> i64 \<times> client" where
  "clientAllocSeq c = (cn_nextSeq c + 1, c\<lparr>cn_nextSeq := cn_nextSeq c + 1\<rparr>)"

text \<open>A full channel drops the response; with nobody waiting it is a push.\<close>

definition dispatchResponse :: "Response \<Rightarrow> client \<Rightarrow> client" where
  "dispatchResponse r c =
     (case cn_respChans c (rs_InReplyTo r) of
        Some None \<Rightarrow> c\<lparr>cn_respChans := (cn_respChans c)(rs_InReplyTo r \<mapsto> Some r)\<rparr>
      | Some (Some _) \<Rightarrow> c
      | None \<Rightarrow>
          (case cn_pushHandler c of
             None \<Rightarrow> c
           | Some accepts \<Rightarrow> if accepts r then c\<lparr>cn_pushes := cn_pushes c @ [r]\<rparr> else c))"

text \<open>The body of the read loop.\<close>

definition clientReceive :: "Message \<Rightarrow> client \<Rightarrow> client" where
  "clientReceive m c =
     (case m of
        MsgResponse r \<Rightarrow>
          let (rcv, isNew) = MarkReceived (cn_receiver c) (rs_SequenceNumber r); c = c\<lparr>cn_receiver := rcv\<rparr>
          in if isNew then dispatchResponse r c else c
      | MsgSummaryAck a \<Rightarrow> c\<lparr>cn_sender := HandleAck a (cn_sender c)\<rparr>
      | _ \<Rightarrow> c)"

definition clientRead :: "byte list \<Rightarrow> client \<Rightarrow> (unit, client) result" where
  "clientRead data c =
     (case UnmarshalMessage data of Err e \<Rightarrow> Ok c | Panic \<Rightarrow> Panic | Ok m \<Rightarrow> Ok (clientReceive m c))"

text \<open>A tick of the acknowledgement loop: the datagram it sends, if any.\<close>

definition clientAckTick :: "client \<Rightarrow> byte list option wire_result" where
  "clientAckTick c =
     (let ack = BuildAck (cn_receiver c) in
      if length (sa_Received ack) = 0 then Ok None
      else rbind (MarshalMessage (MsgSummaryAck ack)) (\<lambda>p. Ok (Some p)))"

text \<open>
  \<open>sendAndWait\<close>: the channel is made and the request sent; the wait ends with the response in the channel,
  or without one (a timeout or the end of the connection), and the channel is deleted.
\<close>

definition startWait :: "int \<Rightarrow> i64 \<Rightarrow> byte list \<Rightarrow> client \<Rightarrow> byte list \<times> client" where
  "startWait now seq p c =
     (let (s, p) = Send now seq p (cn_sender c)
      in (p, c\<lparr>cn_respChans := (cn_respChans c)(seq \<mapsto> None), cn_sender := s\<rparr>))"

definition endWait :: "i64 \<Rightarrow> client \<Rightarrow> Response option \<times> client" where
  "endWait seq c =
     (Option.bind (cn_respChans c seq) id, c\<lparr>cn_respChans := (cn_respChans c)(seq := None)\<rparr>)"

section \<open>The commands\<close>

definition parsePointerFlag :: "string \<Rightarrow> NodePointer" where
  "parsePointerFlag s = (if s = ''none'' then PointerNone else PointerAbsolute s)"

text \<open>\<open>runSet\<close>: the same edit of every expression; an empty flag is absent.\<close>

definition setCommand :: "i64 \<Rightarrow> string \<Rightarrow> string \<Rightarrow> string \<Rightarrow> string \<Rightarrow> string list \<Rightarrow> Message" where
  "setCommand seq value firstChild nextSibling newParent exprs =
     MsgSet \<lparr>set_SequenceNumber = seq, set_Edits = map (\<lambda>e.
       \<lparr>se_Target = e,
        se_NewValue = (if value \<noteq> [] then Some (StringValue value) else None),
        se_NewFirstChild = (if firstChild \<noteq> [] then Some (parsePointerFlag firstChild) else None),
        se_NewNextSibling = (if nextSibling \<noteq> [] then Some (parsePointerFlag nextSibling) else None),
        se_NewParent = (if newParent \<noteq> [] then Some newParent else None)\<rparr>) exprs\<rparr>"

definition deleteCommand :: "i64 \<Rightarrow> string list \<Rightarrow> Message" where
  "deleteCommand seq exprs = MsgDelete \<lparr>del_SequenceNumber = seq, del_Targets = exprs\<rparr>"

definition createCommand :: "i64 \<Rightarrow> string \<Rightarrow> string \<Rightarrow> string option \<Rightarrow> Message" where
  "createCommand seq parent key value =
     MsgCreate \<lparr>cr_SequenceNumber = seq, cr_Key = key, cr_Value = map_option StringValue value,
       cr_Parent = (if parent \<noteq> [] then Some parent else None)\<rparr>"

definition parseAggMethod :: "string \<Rightarrow> AggregationMethod option" where
  "parseAggMethod s =
     (if s = ''min'' then Some AggMin
      else if s = ''max'' then Some AggMax
      else if s = ''mean'' then Some AggMean
      else if s = ''stddev'' then Some AggStdDev
      else if length s > 1 \<and> s ! 0 = CHR ''p'' then
        (case atoi (drop 1 s) of
           None \<Rightarrow> None
         | Some n \<Rightarrow> if 0 \<le> n \<and> n \<le> 100 then Some (AggPercentile (word_of_int n)) else None)
      else None)"

text \<open>\<open>runQuery\<close>; a bad aggregation method ends the program before anything is sent.\<close>

definition queryCommand :: "i64 \<Rightarrow> i64 \<Rightarrow> bool \<Rightarrow> i64 \<Rightarrow> i64 \<Rightarrow> string \<Rightarrow> string \<Rightarrow> Message option" where
  "queryCommand seq collection changes transferEvery aggInterval aggMethod expr =
     (let mode = (if changes then CollectOnChange
                  else if collection = 0 then CollectOnce else CollectInterval collection);
          q = \<lparr>q_SequenceNumber = seq, q_NodeExpression = expr, q_CollectionMode = mode,
               q_AggregationInterval = None, q_AggregationMethod = None, q_TransferInterval = transferEvery\<rparr>
      in if sint aggInterval > 0 then
           (case parseAggMethod aggMethod of
              None \<Rightarrow> None
            | Some m \<Rightarrow> Some (MsgQuery (q\<lparr>q_AggregationInterval := Some aggInterval,
                                          q_AggregationMethod := Some m\<rparr>)))
         else Some (MsgQuery q))"

end
