(* ===== verification/Client_Requests.thy ===== *)
theory Client_Requests
  imports Client_Connection Codec_Props
begin

text \<open>Properties of the client's connection and of the requests its commands send.\<close>

section \<open>Responses\<close>

text \<open>The responses among what is read whose transport number is new when they arrive.\<close>

fun fresh_responses :: "Receiver \<Rightarrow> Message list \<Rightarrow> Response list" where
  "fresh_responses rcv [] = []"
| "fresh_responses rcv (MsgResponse r # ms) =
     (if snd (MarkReceived rcv (rs_SequenceNumber r)) then [r] else []) @
     fresh_responses (fst (MarkReceived rcv (rs_SequenceNumber r))) ms"
| "fresh_responses rcv (m # ms) = fresh_responses rcv ms"

fun response_number :: "Message \<Rightarrow> i64 list" where
  "response_number (MsgResponse r) = [rs_SequenceNumber r]"
| "response_number _ = []"

lemma fresh_responses_news:
  "map rs_SequenceNumber (fresh_responses rcv ms) = news MarkReceived rcv (concat (map response_number ms))"
  by (induction rcv ms rule: fresh_responses.induct) (simp_all add: split_beta)

lemma fresh_responses_arrived: "r \<in> set (fresh_responses rcv ms) \<Longrightarrow> MsgResponse r \<in> set ms"
  by (induction rcv ms rule: fresh_responses.induct) (auto simp: split_beta split: if_splits)

text \<open>Handing responses over, one after the other.\<close>

lemma dispatch_fields [simp]:
  "cn_receiver (dispatchResponse r c) = cn_receiver c" "cn_pushHandler (dispatchResponse r c) = cn_pushHandler c"
  "cn_sender (dispatchResponse r c) = cn_sender c"
  by (simp_all add: dispatchResponse_def split: option.split)

definition pushed :: "client \<Rightarrow> Response \<Rightarrow> bool" where
  "pushed c r \<longleftrightarrow> cn_respChans c (rs_InReplyTo r) = None \<and> (\<exists>accepts. cn_pushHandler c = Some accepts \<and> accepts r)"

definition channel_after :: "Response option option \<Rightarrow> i64 \<Rightarrow> Response list \<Rightarrow> Response option option" where
  "channel_after ch k rs = (case ch of Some None \<Rightarrow> Some (find (\<lambda>r. rs_InReplyTo r = k) rs) | _ \<Rightarrow> ch)"

lemma dispatch_all:
  "cn_respChans (fold dispatchResponse rs c) k = channel_after (cn_respChans c k) k rs \<and>
   cn_pushes (fold dispatchResponse rs c) = cn_pushes c @ filter (pushed c) rs"
proof (induction rs arbitrary: c)
  case Nil
  then show ?case by (simp add: channel_after_def split: option.split)
next
  case (Cons r rs)
  let ?c = "dispatchResponse r c"
  have "pushed ?c = pushed c"
    by (rule ext) (auto simp: pushed_def dispatchResponse_def split: option.splits)
  moreover have "cn_pushes ?c = cn_pushes c @ filter (pushed c) [r]"
    by (auto simp: pushed_def dispatchResponse_def split: option.splits)
  moreover have "channel_after (cn_respChans ?c k) k rs = channel_after (cn_respChans c k) k (r # rs)"
    by (auto simp: channel_after_def dispatchResponse_def split: option.splits)
  ultimately show ?case using Cons.IH [of ?c] by simp
qed

text \<open>The receiver and the sender do not matter to it.\<close>

definition same_ends :: "client \<Rightarrow> client \<Rightarrow> bool" where
  "same_ends c d \<longleftrightarrow> cn_respChans c = cn_respChans d \<and> cn_pushHandler c = cn_pushHandler d \<and> cn_pushes c = cn_pushes d"

lemma same_ends_dispatch: "same_ends c d \<Longrightarrow> same_ends (dispatchResponse r c) (dispatchResponse r d)"
  by (auto simp: same_ends_def dispatchResponse_def split: option.split)

lemma receive_all:
  "same_ends c d \<Longrightarrow>
   same_ends (fold clientReceive ms c) (fold dispatchResponse (fresh_responses (cn_receiver c) ms) d)"
proof (induction ms arbitrary: c d)
  case (Cons m ms)
  show ?case
  proof (cases m)
    case (MsgResponse r)
    let ?c = "c\<lparr>cn_receiver := fst (MarkReceived (cn_receiver c) (rs_SequenceNumber r))\<rparr>"
    have "same_ends ?c d" using Cons.prems by (simp add: same_ends_def)
    with Cons.IH [of ?c d] Cons.IH [OF same_ends_dispatch, of ?c d r] MsgResponse show ?thesis
      by (simp add: clientReceive_def split_beta Let_def)
  next
    case (MsgSummaryAck a)
    have "same_ends (c\<lparr>cn_sender := HandleAck a (cn_sender c)\<rparr>) d" using Cons.prems by (simp add: same_ends_def)
    from Cons.IH [OF this] MsgSummaryAck show ?thesis by (simp add: clientReceive_def)
  qed (use Cons in \<open>simp_all add: clientReceive_def\<close>)
qed simp

text \<open>C38. The client hands over what it reads exactly. Of the responses that arrive, each transport number
  counts once; while a request is waited for, the first of them that answers it goes to the waiter and
  every other one is dropped, even a push of the query just registered; those nobody waits for go to
  the push handler, in the order they arrive.\<close>

theorem client_hands_over:
  assumes "receiver_ok (cn_receiver c)" "bounded (cn_receiver c)"
  shows "(let rs = fresh_responses (cn_receiver c) ms; c' = fold clientReceive ms c in
    distinct (map rs_SequenceNumber rs) \<and>
    (\<forall>r \<in> set rs. MsgResponse r \<in> set ms \<and> \<not> seen (cn_receiver c) (rs_SequenceNumber r)) \<and>
    (\<forall>k. cn_respChans c k = Some None \<longrightarrow> fst (endWait k c') = find (\<lambda>r. rs_InReplyTo r = k) rs) \<and>
    (\<forall>k. cn_respChans c k = None \<longrightarrow> cn_respChans c' k = None) \<and>
    cn_pushes c' = cn_pushes c @ filter (pushed c) rs)"
proof -
  let ?rs = "fresh_responses (cn_receiver c) ms" and ?c = "fold clientReceive ms c"
  have inv: "receiver_ok (cn_receiver c) \<and> bounded (cn_receiver c)" using assms by simp
  have "distinct (map rs_SequenceNumber ?rs)"
    using rcv.fresh_distinct [OF inv] by (simp add: fresh_responses_news)
  moreover have "\<not> seen (cn_receiver c) (rs_SequenceNumber r)" if "r \<in> set ?rs" for r
  proof -
    have "rs_SequenceNumber r \<in> set (map rs_SequenceNumber ?rs)" using that by simp
    then show ?thesis using rcv.fresh_unknown [OF inv] unfolding fresh_responses_news by blast
  qed
  moreover have "same_ends ?c (fold dispatchResponse ?rs c)" by (rule receive_all) (simp add: same_ends_def)
  then have ends: "cn_respChans ?c k = channel_after (cn_respChans c k) k ?rs" "cn_pushes ?c = cn_pushes c @ filter (pushed c) ?rs"
    for k using dispatch_all [of ?rs c k] by (simp_all add: same_ends_def)
  ultimately show ?thesis
    using fresh_responses_arrived [of _ "cn_receiver c" ms]
    by (simp add: Let_def channel_after_def endWait_def)
qed

definition demo_reply :: "i64 \<Rightarrow> Response" where
  "demo_reply n = \<lparr>rs_SequenceNumber = n, rs_InReplyTo = 5, rs_Error = False, rs_ErrorNode = None, rs_Nodes = []\<rparr>"

text \<open>The answer to a request, its duplicate and a push for the same request, all while it is waited for: the
  push is lost.\<close>

theorem client_hands_over_witness:
  "fst (endWait 5 (fold clientReceive (map (MsgResponse \<circ> demo_reply) [1, 1, 2])
     (snd (startWait 0 5 [] (newClient\<lparr>cn_pushHandler := Some (\<lambda>_. True)\<rparr>))))) = Some (demo_reply 1) \<and>
   cn_pushes (fold clientReceive (map (MsgResponse \<circ> demo_reply) [1, 1, 2])
     (snd (startWait 0 5 [] (newClient\<lparr>cn_pushHandler := Some (\<lambda>_. True)\<rparr>)))) = []"
proof -
  let ?c = "snd (startWait 0 5 [] (newClient\<lparr>cn_pushHandler := Some (\<lambda>_. True)\<rparr>))"
  have c: "cn_receiver ?c = NewReceiver" "cn_respChans ?c = [5 \<mapsto> None]" "cn_pushes ?c = []"
    by (simp_all add: startWait_def newClient_def split_beta)
  have "snd (MarkReceived NewReceiver 1)" "\<not> snd (MarkReceived (fst (MarkReceived NewReceiver 1)) 1)"
    "snd (MarkReceived (fst (MarkReceived (fst (MarkReceived NewReceiver 1)) 1)) 2)" by code_simp+
  then have "fresh_responses (cn_receiver ?c) (map (MsgResponse \<circ> demo_reply) [1, 1, 2]) = [demo_reply 1, demo_reply 2]"
    by (simp add: c demo_reply_def)
  with client_hands_over [of ?c "map (MsgResponse \<circ> demo_reply) [1, 1, 2]"] NewReceiver_ok c show ?thesis
    by (simp add: Let_def pushed_def demo_reply_def)
qed

section \<open>Requests\<close>

lemma sint_percentile: "0 \<le> n \<Longrightarrow> n \<le> 100 \<Longrightarrow> sint (word_of_int n :: i64) = n"
  by (simp only: signed_of_int) (simp add: signed_take_bit_int_eq_self)

lemma parseAggMethod_valid: "parseAggMethod s = Some m \<Longrightarrow> valid_agg m"
  by (auto simp: parseAggMethod_def valid_agg_def sint_percentile split: if_splits option.splits)

lemma queryCommand_sends:
  assumes "queryCommand seq collection changes every aggInterval aggMethod expr = Some m"
  obtains q where "m = MsgQuery q" "valid_query q"
    "q_CollectionMode q = (if changes then CollectOnChange
       else if collection = 0 then CollectOnce else CollectInterval collection)"
    "q_TransferInterval q = every"
    "q_AggregationInterval q = None \<or> (\<exists>n. q_AggregationInterval q = Some n \<and> 0 < sint n)"
    "q_AggregationInterval q = None \<longleftrightarrow> q_AggregationMethod q = None"
  using assms by (auto simp: queryCommand_def Let_def valid_query_def dest: parseAggMethod_valid
    split: if_splits option.splits)

lemma atoi_show: "atoi (show_nat n) = (if int n < 2 ^ 63 then Some (int n) else None)"
proof -
  obtain c cs where s: "show_nat n = c # cs" using show_nat_digits [of n] by (cases "show_nat n") auto
  then have "is_digit c" using show_nat_digits [of n] by simp
  then have "c \<noteq> CHR ''-''" "c \<noteq> CHR ''+''" by (auto simp: is_digit_def)
  with s show_nat_digits [of n] digits_value_show_nat [of n] show ?thesis by (auto simp: atoi_def)
qed

lemma queryCommand_valid:
  "queryCommand seq collection changes every aggInterval aggMethod expr = Some m \<Longrightarrow> valid_message m"
  by (erule queryCommand_sends) (simp add: valid_message_def)

lemma commands_valid:
  "valid_message (setCommand seq value firstChild nextSibling newParent exprs)"
  "valid_message (deleteCommand seq exprs)" "valid_message (createCommand seq parent key v)"
  by (simp_all add: valid_message_def setCommand_def deleteCommand_def createCommand_def)

lemma valid_roundtrip:
  "valid_message m \<Longrightarrow> MarshalMessage m = Ok bs \<Longrightarrow> length bs < 2 ^ 63 \<Longrightarrow> UnmarshalMessage bs = Ok m"
  using UnmarshalMessage_bytes [of m] by (simp add: MarshalMessage_bytes)



end
