(* ===== verification/Server_Data.thy ===== *)
theory Server_Data
  imports Handlers
begin

text \<open>
  What the server program starts with (\<open>cmd/server/main.go\<close>, \<open>cmd/server/ifmib.go\<close>): a new server, its
  options, the demo nodes and one node per row of the captured interface table. Decoding the embedded
  JSON is the caller's: the rows are an argument.
\<close>

section \<open>The interface table\<close>

text \<open>A row as decoded; Go's \<open>int\<close> has 64 bits.\<close>

record ifmibRow =
  IfIndex :: i64
  IfDescr :: string
  IfType :: i64
  IfMtu :: i64
  IfSpeed :: i64
  IfPhysAddress :: string
  IfAdminStatus :: i64
  IfOperStatus :: i64
  IfLastChangeTicks :: i64
  IfInOctets :: i64
  IfInUcastPkts :: i64
  IfInNUcastPkts :: i64
  IfInDiscards :: i64
  IfInErrors :: i64
  IfInUnknownProtos :: i64
  IfOutOctets :: i64
  IfOutUcastPkts :: i64
  IfOutNUcastPkts :: i64
  IfOutDiscards :: i64
  IfOutErrors :: i64

text \<open>The columns appended under a row's node; \<open>int32\<close> and \<open>uint32\<close> keep the low 32 bits.\<close>

definition columns :: "ifmibRow \<Rightarrow> (string \<times> NodeValue) list" where
  "columns row =
     [(''ifIndex'', ValueInteger32 (ucast (IfIndex row))),
      (''ifDescr'', StringValue (IfDescr row)),
      (''ifType'', ValueInteger32 (ucast (IfType row))),
      (''ifMtu'', ValueInteger32 (ucast (IfMtu row))),
      (''ifSpeed'', ValueUnsigned32 (ucast (IfSpeed row))),
      (''ifPhysAddress'', StringValue (IfPhysAddress row)),
      (''ifAdminStatus'', ValueInteger32 (ucast (IfAdminStatus row))),
      (''ifOperStatus'', ValueInteger32 (ucast (IfOperStatus row))),
      (''ifLastChangeTicks'', ValueTimeTicks (ucast (IfLastChangeTicks row))),
      (''ifInOctets'', ValueCounter32 (ucast (IfInOctets row))),
      (''ifInUcastPkts'', ValueCounter32 (ucast (IfInUcastPkts row))),
      (''ifInNUcastPkts'', ValueCounter32 (ucast (IfInNUcastPkts row))),
      (''ifInDiscards'', ValueCounter32 (ucast (IfInDiscards row))),
      (''ifInErrors'', ValueCounter32 (ucast (IfInErrors row))),
      (''ifInUnknownProtos'', ValueCounter32 (ucast (IfInUnknownProtos row))),
      (''ifOutOctets'', ValueCounter32 (ucast (IfOutOctets row))),
      (''ifOutUcastPkts'', ValueCounter32 (ucast (IfOutUcastPkts row))),
      (''ifOutNUcastPkts'', ValueCounter32 (ucast (IfOutNUcastPkts row))),
      (''ifOutDiscards'', ValueCounter32 (ucast (IfOutDiscards row))),
      (''ifOutErrors'', ValueCounter32 (ucast (IfOutErrors row)))]"

text \<open>A run of \<open>t.AppendUnder(n, \<dots>)\<close> calls.\<close>

fun appendColumns :: "nat \<Rightarrow> (string \<times> NodeValue) list \<Rightarrow> Tree \<Rightarrow> Tree" where
  "appendColumns n [] t = t"
| "appendColumns n ((key, value) # cols) t = appendColumns n cols (snd (AppendUnder n key value t))"

definition seedRow :: "ifmibRow \<Rightarrow> Tree \<Rightarrow> Tree" where
  "seedRow row t =
     (let (n, t) = AppendUnder (Root t) ''interfaces'' ValueNoValue t in appendColumns n (columns row) t)"

definition seedIfMib :: "ifmibRow list \<Rightarrow> Server \<Rightarrow> Server" where
  "seedIfMib rows sv = sv\<lparr>sv_tree := fold seedRow rows (sv_tree sv)\<rparr>"

section \<open>The demo nodes and the start\<close>

definition seedUser :: "string \<times> string \<Rightarrow> Tree \<Rightarrow> Tree" where
  "seedUser u t =
     (let (usersNode, t) = AppendUnder (Root t) ''users'' ValueNoValue t;
          (_, t) = AppendUnder usersNode ''user'' (StringValue (fst u)) t;
          (_, t) = AppendUnder usersNode ''group'' (StringValue (snd u)) t
      in t)"

definition seedDemoData :: "Server \<Rightarrow> Server" where
  "seedDemoData sv =
     (let t = fold seedUser [(''alice'', ''admin''), (''bob'', ''user''), (''carol'', ''user'')] (sv_tree sv);
          (config, t) = AppendUnder (Root t) ''config'' ValueNoValue t;
          (_, t) = AppendUnder config ''timeout'' (ValueInteger32 30) t;
          (_, t) = AppendUnder config ''retries'' (ValueInteger32 3) t
      in sv\<lparr>sv_tree := t\<rparr>)"

definition NewServer :: Server where
  "NewServer = \<lparr>sv_tree = NewTree, MaxDatagramSizeOverride = 0, sv_Policy = None\<rparr>"

text \<open>\<open>main\<close> once the flags are read, the policy loaded and the listener open.\<close>

definition startServer :: "Policy option \<Rightarrow> int \<Rightarrow> ifmibRow list \<Rightarrow> Server" where
  "startServer policy maxDatagram rows =
     (let srv = NewServer\<lparr>sv_Policy := policy\<rparr>;
          srv = srv\<lparr>MaxDatagramSizeOverride := maxDatagram\<rparr>;
          srv = seedDemoData srv
      in seedIfMib rows srv)"

end
