(* ===== verification/Server_Data_Props.thy ===== *)
theory Server_Data_Props
  imports Server_Data Session_Delivery
begin

text \<open>The tree the server starts with.\<close>

section \<open>Groups of leaves under the root\<close>

text \<open>A run of appends leaves the nodes that \<open>AppendLeafSubtree\<close> would.\<close>

definition same_nodes :: "Tree \<Rightarrow> Tree \<Rightarrow> bool" where
  "same_nodes t u \<longleftrightarrow> nodes t = nodes u \<and> fresh t = fresh u \<and> Root t = Root u \<and> nextNodeID t = nextNodeID u"

lemma notifyChanged_id [simp]: "nextNodeID (notifyChanged t) = nextNodeID t"
  by (simp add: notifyChanged_def)

lemma addNode_same: "same_nodes t u \<Longrightarrow> same_nodes (addNode p k v t) (addNode p k v u)"
  by (simp add: same_nodes_def addNode_def allocNode_def AppendChild_def setChildren_def setParent_def Let_def)

lemma appendColumns_leaves: "same_nodes t u \<Longrightarrow> same_nodes (appendColumns n cols t) (appendLeaves n cols u)"
proof (induction cols arbitrary: t u)
  case (Cons e cols)
  obtain key v where e: "e = (key, v)" by force
  have "same_nodes (snd (AppendUnder n key v t)) (addNode n key v u)"
    using addNode_same [OF Cons.prems] by (simp add: AppendUnder_eq same_nodes_def)
  from Cons.IH [OF this] show ?case by (simp add: e appendLeaves_step del: appendLeaves.simps)
qed simp

definition addGroup :: "string \<times> (string \<times> NodeValue) list \<Rightarrow> Tree \<Rightarrow> Tree" where
  "addGroup g t = appendColumns (fresh t) (snd g) (snd (AppendUnder (Root t) (fst g) ValueNoValue t))"

definition leaf_at :: "Tree \<Rightarrow> nat \<Rightarrow> string \<times> NodeValue \<Rightarrow> bool" where
  "leaf_at t d e \<longleftrightarrow> d < fresh t \<and> d \<noteq> Root t \<and> Key t d = fst e \<and> Value t d = snd e \<and> Children t d = []"

definition group_at :: "Tree \<Rightarrow> nat \<Rightarrow> string \<times> (string \<times> NodeValue) list \<Rightarrow> bool" where
  "group_at t c g \<longleftrightarrow> c < fresh t \<and> c \<noteq> Root t \<and> Key t c = fst g \<and> Value t c = ValueNoValue \<and>
     list_all2 (leaf_at t) (Children t c) (snd g)"

definition root_groups :: "Tree \<Rightarrow> (string \<times> (string \<times> NodeValue) list) list \<Rightarrow> bool" where
  "root_groups t gs \<longleftrightarrow> wf_tree t \<and> Key t (Root t) = ''/'' \<and> Value t (Root t) = ValueNoValue \<and>
     list_all2 (group_at t) (Children t (Root t)) gs"

text \<open>Later appends under the root keep what is there.\<close>

lemma group_kept:
  assumes "group_at t c g" "Root u = Root t" "fresh t \<le> fresh u"
    and "\<And>n. n < fresh t \<Longrightarrow> n \<noteq> Root t \<Longrightarrow> Key u n = Key t n \<and> Value u n = Value t n \<and> Children u n = Children t n"
  shows "group_at u c g"
proof -
  have "leaf_at u d e" if "leaf_at t d e" for d e
    using that assms(2,3) assms(4) [of d] by (simp add: leaf_at_def)
  then show ?thesis using assms(1-3) assms(4) [of c]
    by (auto simp: group_at_def elim: list_all2_mono)
qed

lemma root_groups_same: "same_nodes t u \<Longrightarrow> root_groups t gs = root_groups u gs"
  by (simp add: same_nodes_def root_groups_def group_at_def [abs_def] leaf_at_def [abs_def] wf_tree_def parents_acyclic_def)

lemma root_groups_add:
  assumes "root_groups t gs"
  shows "root_groups (addGroup g t) (gs @ [g])"
proof -
  let ?r = "Root t" and ?t = "addNode (Root t) (fst g) ValueNoValue t" and ?c = "fresh t"
  let ?u = "appendLeaves ?c (snd g) ?t"
  have wf: "wf_tree t" and r: "?r < fresh t" using assms wf_treeD(1) by (auto simp: root_groups_def)
  have "same_nodes (addGroup g t) ?u"
    unfolding addGroup_def by (rule appendColumns_leaves) (simp add: AppendUnder_eq same_nodes_def)
  moreover have "root_groups ?u (gs @ [g])"
  proof -
    have c: "?c < fresh ?t" "?r < fresh ?t" using r by (simp_all add: addNode_simps(2))
    note leaves = appendLeaves_leaves [OF c(1), where es = "snd g"]
    note new = addNode_simps(1) [OF r] addNode_simps(2,3)
    have "wf_tree ?u" "Root ?u = ?r"
      using appendLeaves_creates [OF wf_addNode [OF wf r] c(1)] by (auto simp: creates_def grows_def new)
    moreover have "Key ?u ?r = ''/''" "Value ?u ?r = ValueNoValue"
      using leaves(3) [OF c(2)] assms r by (simp_all add: new root_groups_def)
    moreover have "Children ?u ?r = Children t ?r @ [?c]"
      using leaves(3) [OF c(2)] r by (simp add: new)
    moreover have "list_all2 (group_at ?u) (Children t ?r) gs"
    proof (rule list_all2_mono)
      show "list_all2 (group_at t) (Children t ?r) gs" using assms by (simp add: root_groups_def)
      fix d h assume "group_at t d h"
      then show "group_at ?u d h"
      proof (rule group_kept)
        show "Root ?u = ?r" by fact
        show "fresh t \<le> fresh ?u" using leaves(1) by (simp add: new)
        fix n assume n: "n < fresh t" "n \<noteq> ?r"
        then show "Key ?u n = Key t n \<and> Value ?u n = Value t n \<and> Children ?u n = Children t n"
          using leaves(3) [of n] by (simp add: new)
      qed
    qed
    moreover have "group_at ?u ?c g"
    proof -
      have "Children ?u ?c = [fresh ?t..<fresh ?t + length (snd g)]"
        using leaves(2) r by (simp add: new)
      moreover have "leaf_at ?u (fresh ?t + i) (snd g ! i)" if "i < length (snd g)" for i
        using leaves(4) [OF that] leaves(1) that r \<open>Root ?u = ?r\<close> by (simp add: leaf_at_def new)
      ultimately have "list_all2 (leaf_at ?u) (Children ?u ?c) (snd g)"
        by (simp add: list_all2_conv_all_nth)
      then show ?thesis
        using leaves(1) leaves(3) [OF c(1)] r \<open>Root ?u = ?r\<close> by (simp add: group_at_def new)
    qed
    ultimately show ?thesis by (simp add: root_groups_def list_all2_appendI)
  qed
  ultimately show ?thesis by (simp add: root_groups_same)
qed

lemma root_groups_fold: "root_groups t gs \<Longrightarrow> root_groups (fold addGroup hs t) (gs @ hs)"
proof (induction hs arbitrary: t gs)
  case (Cons h hs)
  from Cons.IH [OF root_groups_add [OF Cons.prems, of h]] show ?case by simp
qed simp

lemma root_groups_size:
  assumes "root_groups t ((k, e # es) # gs)"
  shows "3 \<le> fresh t"
proof -
  obtain c cs where c: "group_at t c (k, e # es)" using assms by (auto simp: root_groups_def list_all2_Cons2)
  then obtain d where "leaf_at t d e" "d \<in> set (Children t c)" by (auto simp: group_at_def list_all2_Cons2)
  with c have "distinct [Root t, c, d]" "set [Root t, c, d] \<subseteq> {..<fresh t}"
    using assms wf_treeD(1) [of t] by (auto simp: root_groups_def group_at_def leaf_at_def)
  from distinct_card [OF this(1)] card_mono [OF _ this(2)] show ?thesis by simp
qed

lemma root_groups_view:
  assumes "root_groups t gs" "3 \<le> fresh t"
  shows "pruneVisible t (Root t) None = VNode ''/'' ValueNoValue (map (\<lambda>(k, es). leaf_tree k es) gs)"
proof -
  have leaf: "prune (Suc k) t None d = VNode (fst e) (snd e) []" if "leaf_at t d e" for k d e
    using that by (simp add: leaf_at_def)
  have all: "filter (canRead None t) cs = cs" for cs by (simp add: canRead_def)
  have leaves: "map (prune (Suc k) t None) ds = map (\<lambda>(k, v). VNode k v []) es" if "list_all2 (leaf_at t) ds es" for k ds es
    using that by induction (simp_all add: leaf split_beta del: prune.simps)
  have grp: "prune (Suc (Suc k)) t None c = leaf_tree (fst g) (snd g)" if "group_at t c g" for k c g
    using that leaves [of "Children t c" "snd g" k]
    by (simp add: group_at_def leaf_tree_def all prune.simps(2) [of "Suc k"] del: prune.simps)
  have groups: "map (prune (Suc (Suc k)) t None) cs = map (\<lambda>(k, es). leaf_tree k es) gs"
    if "list_all2 (group_at t) cs gs" for k cs gs
    using that by induction (simp_all add: grp split_beta del: prune.simps)
  obtain k where k: "fresh t = Suc (Suc (Suc k))"
    using assms(2) by (metis Suc_le_D numeral_3_eq_3 Suc_le_mono)
  show ?thesis
    using assms(1) groups [of "Children t (Root t)" gs k] unfolding pruneVisible_def k prune.simps(2) [of "Suc (Suc k)"] all
    by (simp add: root_groups_def)
qed

section \<open>The server's start\<close>

definition demo_groups :: "(string \<times> (string \<times> NodeValue) list) list" where
  "demo_groups =
     [(''users'', [(''user'', StringValue ''alice''), (''group'', StringValue ''admin'')]),
      (''users'', [(''user'', StringValue ''bob''), (''group'', StringValue ''user'')]),
      (''users'', [(''user'', StringValue ''carol''), (''group'', StringValue ''user'')]),
      (''config'', [(''timeout'', ValueInteger32 30), (''retries'', ValueInteger32 3)])]"

lemma seedRow_group: "seedRow row = addGroup (''interfaces'', columns row)"
  by (rule ext) (simp add: seedRow_def addGroup_def AppendUnder_eq)

lemma seedUser_group:
  "seedUser u = addGroup (''users'', [(''user'', StringValue (fst u)), (''group'', StringValue (snd u))])"
  by (rule ext) (simp add: seedUser_def addGroup_def AppendUnder_eq Let_def)

lemma startServer_tree:
  "sv_tree (startServer policy maxSize rows) =
     fold addGroup (demo_groups @ map (\<lambda>r. (''interfaces'', columns r)) rows) NewTree"
proof -
  have "fold seedRow rows t = fold addGroup (map (\<lambda>r. (''interfaces'', columns r)) rows) t" for t
    by (induction rows arbitrary: t) (simp_all add: seedRow_group)
  then show ?thesis
    by (simp add: startServer_def seedIfMib_def seedDemoData_def NewServer_def Let_def split_beta seedUser_group
        demo_groups_def addGroup_def [of "(''config'', _)"] AppendUnder_eq)
qed

lemma NewTree_groups: "root_groups NewTree []"
  by (simp add: root_groups_def NewTree_wf) (simp add: NewTree_def)

text \<open>The number a value holds, and the number that 32 bits keep of a field.\<close>

fun number :: "NodeValue \<Rightarrow> int option" where
  "number (ValueInteger32 v) = Some (sint v)"
| "number (ValueUnsigned32 v) = Some (uint v)"
| "number (ValueCounter32 v) = Some (uint v)"
| "number (ValueCounter64 v) = Some (uint v)"
| "number (ValueTimeTicks v) = Some (uint v)"
| "number _ = None"

definition signed32 :: "i64 \<Rightarrow> int" where "signed32 x = (sint x + 2 ^ 31) mod 2 ^ 32 - 2 ^ 31"

definition unsigned32 :: "i64 \<Rightarrow> int" where "unsigned32 x = sint x mod 2 ^ 32"

lemma narrow_uint32: "uint (ucast x :: u32) = unsigned32 x"
proof -
  have "uint (ucast x :: u32) = take_bit 32 (uint x)" by (simp add: unsigned_ucast_eq)
  also have "\<dots> = take_bit 32 (take_bit 64 (sint x))" by (subst uint_sint) simp
  finally show ?thesis by (simp only: take_bit_take_bit) (simp add: take_bit_eq_mod unsigned32_def)
qed

lemma narrow_int32: "sint (ucast x :: i32) = signed32 x"
proof -
  have "sint (ucast x :: i32) = signed_take_bit 31 (uint (ucast x :: i32))" by (subst sint_uint) simp
  also have "\<dots> = signed_take_bit 31 (take_bit 32 (sint x))"
    by (simp only: narrow_uint32 unsigned32_def) (simp add: take_bit_eq_mod)
  also have "\<dots> = signed_take_bit 31 (sint x)" by (simp only: signed_take_bit_take_bit) simp
  finally show ?thesis
    by (simp only: signed_take_bit_eq_take_bit_shift take_bit_eq_mod) (simp add: signed32_def)
qed

text \<open>The server starts with exactly its data: a well-formed tree whose root has, in this order, one node
  per demo user, the configuration, and one node per captured interface with its twenty columns as
  leaves; the signed columns hold the captured number as 32 signed bits keep it, speed, ticks and
  counters as 32 unsigned bits do.\<close>

theorem server_starts_with_its_data:
  "wf_tree (sv_tree (startServer policy maxSize rows)) \<and>
   pruneVisible (sv_tree (startServer policy maxSize rows)) (Root (sv_tree (startServer policy maxSize rows))) None =
     VNode ''/'' ValueNoValue
       (map (\<lambda>(k, es). leaf_tree k es) demo_groups @ map (\<lambda>r. leaf_tree ''interfaces'' (columns r)) rows) \<and>
   (\<forall>r. map (\<lambda>(k, v). number v) (columns r) =
     [Some (signed32 (IfIndex r)), None, Some (signed32 (IfType r)), Some (signed32 (IfMtu r)),
      Some (unsigned32 (IfSpeed r)), None, Some (signed32 (IfAdminStatus r)), Some (signed32 (IfOperStatus r)),
      Some (unsigned32 (IfLastChangeTicks r)), Some (unsigned32 (IfInOctets r)), Some (unsigned32 (IfInUcastPkts r)),
      Some (unsigned32 (IfInNUcastPkts r)), Some (unsigned32 (IfInDiscards r)), Some (unsigned32 (IfInErrors r)),
      Some (unsigned32 (IfInUnknownProtos r)), Some (unsigned32 (IfOutOctets r)), Some (unsigned32 (IfOutUcastPkts r)),
      Some (unsigned32 (IfOutNUcastPkts r)), Some (unsigned32 (IfOutDiscards r)), Some (unsigned32 (IfOutErrors r))])"
proof (intro conjI allI)
  let ?gs = "demo_groups @ map (\<lambda>r. (''interfaces'', columns r)) rows" and ?t = "sv_tree (startServer policy maxSize rows)"
  have gs: "root_groups ?t ?gs"
    using root_groups_fold [OF NewTree_groups, of ?gs] by (simp add: startServer_tree)
  then show "wf_tree ?t" by (simp add: root_groups_def)
  have "3 \<le> fresh ?t" by (rule root_groups_size) (use gs in \<open>simp only: demo_groups_def append_Cons\<close>)
  from root_groups_view [OF gs this]
  show "pruneVisible ?t (Root ?t) None =
     VNode ''/'' ValueNoValue
       (map (\<lambda>(k, es). leaf_tree k es) demo_groups @ map (\<lambda>r. leaf_tree ''interfaces'' (columns r)) rows)"
    by (simp add: comp_def)
qed (simp add: columns_def narrow_int32 narrow_uint32 StringValue_def)

end
