(* ===== verification/Load_Test.thy ===== *)
theory Load_Test
  imports Client_Connection
begin

text \<open>
  The load tester (\<open>cmd/loadtest/main.go\<close>): its client with a handler per request, the requests that build
  the series, the generator of data points, and the subscriber that counts what is delivered. Starting
  the server process, sampling it and reporting are left out.
\<close>

section \<open>The client\<close>

text \<open>What a handler does is a change of the program's counters, of type \<open>'s\<close>.\<close>

record 's handler =
  hd_fn :: "Response \<Rightarrow> 's \<Rightarrow> 's"
  hd_persistent :: bool

record 's loadClient =
  lc_sender :: Sender
  lc_receiver :: Receiver
  lc_seq :: i64
  lc_handlers :: "i64 \<Rightarrow> 's handler option"

definition dial :: "'s loadClient" where
  "dial = \<lparr>lc_sender = NewSender (250 * 10 ^ 6) 8, lc_receiver = NewReceiver, lc_seq = 0, lc_handlers = (\<lambda>_. None)\<rparr>"

definition loadDispatch :: "Response \<Rightarrow> 's loadClient \<times> 's \<Rightarrow> 's loadClient \<times> 's" where
  "loadDispatch r cs =
     (let (c, s) = cs in
      case lc_handlers c (rs_InReplyTo r) of
        None \<Rightarrow> (c, s)
      | Some h \<Rightarrow>
          let c = (if hd_persistent h then c else c\<lparr>lc_handlers := (lc_handlers c)(rs_InReplyTo r := None)\<rparr>)
          in (c, hd_fn h r s))"

text \<open>The body of the read loop.\<close>

definition loadReceive :: "Message \<Rightarrow> 's loadClient \<times> 's \<Rightarrow> 's loadClient \<times> 's" where
  "loadReceive m cs =
     (let (c, s) = cs in
      case m of
        MsgResponse r \<Rightarrow>
          let (rcv, isNew) = MarkReceived (lc_receiver c) (rs_SequenceNumber r); c = c\<lparr>lc_receiver := rcv\<rparr>
          in if isNew then loadDispatch r (c, s) else (c, s)
      | MsgSummaryAck a \<Rightarrow> (c\<lparr>lc_sender := HandleAck a (lc_sender c)\<rparr>, s)
      | _ \<Rightarrow> (c, s))"

definition on :: "i64 \<Rightarrow> (Response \<Rightarrow> 's \<Rightarrow> 's) \<Rightarrow> bool \<Rightarrow> 's loadClient \<Rightarrow> 's loadClient" where
  "on seq f pers c = c\<lparr>lc_handlers := (lc_handlers c)(seq \<mapsto> \<lparr>hd_fn = f, hd_persistent = pers\<rparr>)\<rparr>"

text \<open>\<open>request\<close> up to its wait: the reply is put where the wait finds it (\<open>deliver\<close>).\<close>

definition sendRequest :: "int \<Rightarrow> (i64 \<Rightarrow> Message) \<Rightarrow> (Response \<Rightarrow> 's \<Rightarrow> 's) \<Rightarrow> 's loadClient \<Rightarrow>
    (byte list \<times> 's loadClient) wire_result" where
  "sendRequest now build deliver c =
     (let seq = lc_seq c + 1; c = on seq deliver False (c\<lparr>lc_seq := seq\<rparr>) in
      rbind (MarshalMessage (build seq)) (\<lambda>p.
        let (s, p) = Send now seq p (lc_sender c) in Ok (p, c\<lparr>lc_sender := s\<rparr>)))"

text \<open>Its outcome: no reply in time, an error reply, or a reply.\<close>

definition requestResult :: "Response option \<Rightarrow> Response option" where
  "requestResult reply = (case reply of None \<Rightarrow> None | Some r \<Rightarrow> if rs_Error r then None else Some r)"

definition getRequest :: "string \<Rightarrow> i64 \<Rightarrow> Message" where
  "getRequest expr seq = MsgGet \<lparr>get_SequenceNumber = seq, get_Target = PointerAbsolute expr\<rparr>"

section \<open>Building the series\<close>

text \<open>\<open>%0kd\<close>, on a number that is not negative.\<close>

definition padded :: "nat \<Rightarrow> nat \<Rightarrow> string" where
  "padded k n = replicate (k - length (show_nat n)) (CHR ''0'') @ show_nat n"

definition hostKey :: "nat \<Rightarrow> string" where "hostKey h = CHR ''h'' # padded 3 h"

definition metricKey :: "nat \<Rightarrow> string" where "metricKey m = CHR ''m'' # padded 4 m"

definition seriesPath :: "nat \<Rightarrow> nat \<Rightarrow> string" where
  "seriesPath h m = ''/config/metrics/'' @ hostKey h @ ''/'' @ metricKey m"

definition stagingPath :: "string \<Rightarrow> string" where
  "stagingPath key =
     ''/Sessions/'' @ concat (map (\<lambda>c. if c = CHR ''='' then [CHR 0x5C, c] else [c]) key) @ ''/NewNodes''"

definition createRequest :: "string \<Rightarrow> NodeValue option \<Rightarrow> string \<Rightarrow> i64 \<Rightarrow> CreateReq" where
  "createRequest key v parent seq =
     \<lparr>cr_SequenceNumber = seq, cr_Key = key, cr_Value = v,
      cr_Parent = (if parent \<noteq> [] then Some parent else None)\<rparr>"

text \<open>The creations \<open>bootstrap\<close> asks for, in order, and the set that attaches them.\<close>

definition bootstrapCreates :: "string \<Rightarrow> nat \<Rightarrow> nat \<Rightarrow> (i64 \<Rightarrow> CreateReq) list" where
  "bootstrapCreates staging hosts perHost =
     createRequest ''metrics'' None [] #
     concat (map (\<lambda>h.
       createRequest (hostKey h) None (staging @ ''/metrics'') #
       map (\<lambda>m. createRequest (metricKey m) (Some (ValueCounter64 0)) (staging @ ''/metrics/'' @ hostKey h))
         [0..<perHost]) [0..<hosts])"

definition bootstrapAttach :: "string \<Rightarrow> i64 \<Rightarrow> SetReq" where
  "bootstrapAttach staging seq =
     \<lparr>set_SequenceNumber = seq, set_Edits =
       [\<lparr>se_Target = staging @ ''/metrics'', se_NewValue = None, se_NewFirstChild = None,
         se_NewNextSibling = None, se_NewParent = Some ''/config''\<rparr>]\<rparr>"

text \<open>
  \<open>bootstrap\<close> with \<open>request\<close> as the step that performs one request (its answer, unless it fails):
  the first failure ends it.
\<close>

fun requestAll :: "((i64 \<Rightarrow> Message) \<Rightarrow> 'c \<Rightarrow> Response option \<times> 'c) \<Rightarrow> (i64 \<Rightarrow> Message) list \<Rightarrow> 'c \<Rightarrow> bool \<times> 'c" where
  "requestAll request [] c = (True, c)"
| "requestAll request (b # bs) c =
     (case request b c of (None, c) \<Rightarrow> (False, c) | (Some r, c) \<Rightarrow> requestAll request bs c)"

definition bootstrap :: "((i64 \<Rightarrow> Message) \<Rightarrow> 'c \<Rightarrow> Response option \<times> 'c) \<Rightarrow> nat \<Rightarrow> nat \<Rightarrow> 'c \<Rightarrow> bool \<times> 'c" where
  "bootstrap request hosts perHost c =
     (case request (getRequest ''/Sessions/Connection-ID.*'') c of
        (None, c) \<Rightarrow> (False, c)
      | (Some r, c) \<Rightarrow>
          if length (rs_Nodes r) = 0 then (False, c)
          else
            let staging = stagingPath (nd_Key (rs_Nodes r ! 0)) in
            requestAll request
              (map (\<lambda>b seq. MsgCreate (b seq)) (bootstrapCreates staging hosts perHost) @
               [\<lambda>seq. MsgSet (bootstrapAttach staging seq)]) c)"

section \<open>Generating load\<close>

record stats =
  st_sent :: i64
  st_applied :: i64
  st_errored :: i64
  st_lat :: "int list"

text \<open>The edits of one Set: round-robin over the series, \<open>cursor mod n\<close> panicking when there are none.
  Fewer than \<open>2^63\<close> points are sent, so the cursor is a natural number.\<close>

fun generatorEdits :: "nat \<Rightarrow> nat \<Rightarrow> nat \<Rightarrow> nat \<Rightarrow> i64 \<Rightarrow> (unit, SetEdit list \<times> nat \<times> i64) result" where
  "generatorEdits hosts perHost 0 cursor counter = Ok ([], cursor, counter)"
| "generatorEdits hosts perHost (Suc batch) cursor counter =
     (if hosts * perHost = 0 then Panic
      else
        let idx = cursor mod (hosts * perHost); counter = counter + 1;
            e = \<lparr>se_Target = seriesPath (idx div perHost) (idx mod perHost),
                 se_NewValue = Some (ValueCounter64 counter), se_NewFirstChild = None,
                 se_NewNextSibling = None, se_NewParent = None\<rparr>
        in rbind (generatorEdits hosts perHost batch (cursor + 1) counter) (\<lambda>(es, st). Ok (e # es, st)))"

definition generatorStart :: "nat \<Rightarrow> nat \<Rightarrow> nat \<Rightarrow> nat" where
  "generatorStart i n gens = (i * n) div gens"

text \<open>The answer to a Set: its latency, and its points applied or failed.\<close>

definition setAnswered :: "int \<Rightarrow> int \<Rightarrow> nat \<Rightarrow> Response \<Rightarrow> stats \<Rightarrow> stats" where
  "setAnswered started now batch r st =
     (let st = st\<lparr>st_lat := st_lat st @ [now - started]\<rparr> in
      if rs_Error r then st\<lparr>st_errored := st_errored st + of_nat batch\<rparr>
      else st\<lparr>st_applied := st_applied st + of_nat batch\<rparr>)"

text \<open>When the datagram of a Set could, or could not, be sent.\<close>

definition setSent :: "bool \<Rightarrow> nat \<Rightarrow> stats \<Rightarrow> stats" where
  "setSent ok batch st =
     (if ok then st\<lparr>st_sent := st_sent st + of_nat batch\<rparr> else st\<lparr>st_errored := st_errored st + of_nat batch\<rparr>)"

section \<open>Counting what is delivered\<close>

record subscriber =
  sb_delivered :: i64
  sb_pushes :: i64
  sb_getErrs :: i64
  sb_acked :: bool
  sb_follows :: "string list"

fun absolutePointer :: "NodePointer \<Rightarrow> string \<Rightarrow> string" where
  "absolutePointer (PointerAbsolute a) ptr = a"
| "absolutePointer _ ptr = ptr"

definition lastAbsolute :: "Node list \<Rightarrow> string" where
  "lastAbsolute ns = fold (\<lambda>n ptr. absolutePointer (nd_NextSibling n) (absolutePointer (nd_FirstChild n) ptr)) ns []"

text \<open>
  \<open>follow\<close>, with \<open>get i\<close> the outcome of its \<open>i\<close>-th request. It need not end, so the result is \<open>None\<close>
  when it does not.
\<close>

partial_function (option) follow ::
    "(nat \<Rightarrow> string \<Rightarrow> Response option) \<Rightarrow> nat \<Rightarrow> string \<Rightarrow> subscriber \<Rightarrow> subscriber option" where
  "follow get i ptr s =
     (if ptr = [] then Some s
      else
        (case requestResult (get i ptr) of
           None \<Rightarrow> Some (s\<lparr>sb_getErrs := sb_getErrs s + 1\<rparr>)
         | Some r \<Rightarrow> follow get (i + 1) (lastAbsolute (rs_Nodes r))
             (s\<lparr>sb_delivered := sb_delivered s + of_nat (length (rs_Nodes r))\<rparr>)))"

text \<open>The subscription's handler; the goroutines that follow a cut push are listed in \<open>sb_follows\<close>.\<close>

definition subscriberPush :: "Response \<Rightarrow> subscriber \<Rightarrow> subscriber" where
  "subscriberPush r s =
     (if length (rs_Nodes r) = 0 then s\<lparr>sb_acked := True\<rparr>
      else
        let s = s\<lparr>sb_pushes := sb_pushes s + 1,
                  sb_delivered := sb_delivered s + of_nat (length (rs_Nodes r) - 1)\<rparr>;
            ptr = lastAbsolute (rs_Nodes r)
        in if ptr \<noteq> [] then s\<lparr>sb_follows := sb_follows s @ [ptr]\<rparr> else s)"

definition subscribeQuery :: "i64 \<Rightarrow> i64 \<Rightarrow> QueryReq" where
  "subscribeQuery transferEvery seq =
     \<lparr>q_SequenceNumber = seq, q_NodeExpression = ''/config/metrics/.*/.*'', q_CollectionMode = CollectOnChange,
      q_AggregationInterval = None, q_AggregationMethod = None, q_TransferInterval = transferEvery\<rparr>"

definition subscribe :: "int \<Rightarrow> i64 \<Rightarrow> subscriber loadClient \<Rightarrow> (byte list \<times> subscriber loadClient) wire_result" where
  "subscribe now transferEvery c =
     (let seq = lc_seq c + 1; c = on seq subscriberPush True (c\<lparr>lc_seq := seq\<rparr>) in
      rbind (MarshalMessage (MsgQuery (subscribeQuery transferEvery seq))) (\<lambda>p.
        let (s, p) = Send now seq p (lc_sender c) in Ok (p, c\<lparr>lc_sender := s\<rparr>)))"

end
