(* ===== verification/Load_Test_Props.thy ===== *)
theory Load_Test_Props
  imports Load_Test Client_Requests Paging Session_Delivery
begin

text \<open>Properties of the load tester.\<close>

section \<open>Names of series\<close>

lemma digits_value_zeros: "digits_value (replicate k (CHR ''0'') @ s) = digits_value s"
  by (induction k) (simp_all add: digits_value_def)

lemma padded_inj [simp]: "padded k m = padded k n \<longleftrightarrow> m = n"
  by (metis digits_value_show_nat digits_value_zeros padded_def)

lemma padded_digits: "set (padded k n) \<subseteq> {c. is_digit c}"
  using show_nat_digits [of n] by (auto simp: padded_def list_all_iff is_digit_def)

lemma key_plain: "CHR ''/'' \<notin> set (hostKey h)"
  using padded_digits [of 3 h] by (auto simp: hostKey_def is_digit_def)

lemma split_slash: "CHR ''/'' \<notin> set a \<Longrightarrow> CHR ''/'' \<notin> set b \<Longrightarrow>
    a @ CHR ''/'' # x = b @ CHR ''/'' # y \<longleftrightarrow> a = b \<and> x = y"
proof (induction a arbitrary: b)
  case Nil
  then show ?case by (cases b) auto
next
  case (Cons c a)
  then show ?case by (cases b) auto
qed

lemma seriesPath_inj [simp]: "seriesPath h m = seriesPath h' m' \<longleftrightarrow> h = h' \<and> m = m'"
  using key_plain [of h] key_plain [of h'] by (auto simp: seriesPath_def split_slash metricKey_def) (simp_all add: hostKey_def)

definition series :: "nat \<Rightarrow> nat \<Rightarrow> string" where
  "series perHost idx = seriesPath (idx div perHost) (idx mod perHost)"

lemma series_inj: "0 < perHost \<Longrightarrow> series perHost i = series perHost j \<longleftrightarrow> i = j"
  unfolding series_def seriesPath_inj by (metis div_mult_mod_eq)

section \<open>The generator\<close>

lemma generatorEdits_points:
  assumes "0 < hosts * perHost"
  shows "\<exists>es. generatorEdits hosts perHost batch cursor counter = Ok (es, cursor + batch, counter + of_nat batch) \<and>
    map (\<lambda>e. (se_Target e, se_NewValue e)) es =
      map (\<lambda>i. (series perHost ((cursor + i) mod (hosts * perHost)), Some (ValueCounter64 (counter + of_nat i + 1)))) [0..<batch]"
proof (induction batch arbitrary: cursor counter)
  case (Suc batch)
  obtain es where es: "generatorEdits hosts perHost batch (cursor + 1) (counter + 1) =
      Ok (es, cursor + 1 + batch, counter + 1 + of_nat batch)"
    "map (\<lambda>e. (se_Target e, se_NewValue e)) es = map (\<lambda>i. (series perHost ((cursor + 1 + i) mod (hosts * perHost)),
      Some (ValueCounter64 (counter + 1 + of_nat i + 1)))) [0..<batch]" using Suc.IH by blast
  have "[0..<Suc batch] = 0 # map Suc [0..<batch]" by (simp add: map_Suc_upt upt_conv_Cons del: upt_Suc)
  with es assms show ?case by (simp add: Let_def series_def comp_def algebra_simps del: upt_Suc)
qed simp

lemma window_inj:
  assumes "(c + i) mod n = (c + j) mod n" "i \<le> j" "j < n"
  shows "i = (j :: nat)"
proof -
  have "n dvd (c + j) - (c + i)" using assms(1,2) by (subst mod_eq_dvd_iff_nat [symmetric]) simp_all
  then show ?thesis using assms(2,3) by (auto dest: dvd_imp_le)
qed

lemma window_distinct:
  assumes "b \<le> n"
  shows "inj_on (\<lambda>i. (c + i) mod n) {..<b :: nat}"
proof (rule inj_onI)
  fix i j assume "i \<in> {..<b}" "j \<in> {..<b}" "(c + i) mod n = (c + j) mod n"
  then show "i = j" using window_inj [of c i n j] window_inj [of c j n i] assms by (cases "i \<le> j") auto
qed

lemma window_all:
  assumes "0 < (n :: nat)"
  shows "(\<lambda>i. (c + i) mod n) ` {..<n} = {..<n}"
  using card_image [OF window_distinct [of n n c]] assms by (intro card_subset_eq) auto

text \<open>The nodes with a value that \<open>bootstrap\<close> asks for, as they are called once moved below \<open>/config\<close>.\<close>

definition created_series :: "string \<Rightarrow> (i64 \<Rightarrow> CreateReq) list \<Rightarrow> string list" where
  "created_series staging bs =
     concat (map (\<lambda>c. case (cr_Value (c 0), cr_Parent (c 0)) of
         (Some v, Some p) \<Rightarrow> [''/config'' @ drop (length staging) p @ ''/'' @ cr_Key (c 0)]
       | _ \<Rightarrow> []) bs)"

lemma created_series_all:
  "created_series staging (bootstrapCreates staging hosts perHost) =
     concat (map (\<lambda>h. map (seriesPath h) [0..<perHost]) [0..<hosts])"
proof -
  have "created_series staging (map (\<lambda>m. createRequest (metricKey m) (Some (ValueCounter64 0)) (staging @ ''/metrics/'' @ hostKey h)) ms) =
      map (seriesPath h) ms" for h ms
    by (induction ms) (simp_all add: created_series_def createRequest_def seriesPath_def)
  moreover have "created_series staging (concat (map f hs)) = concat (map (\<lambda>h. created_series staging (f h)) hs)" for f and hs :: "nat list"
    by (induction hs) (simp_all add: created_series_def)
  moreover have "created_series staging (createRequest k None p # bs) = created_series staging bs" for k p bs
    by (simp add: created_series_def createRequest_def)
  ultimately show ?thesis by (simp only: bootstrapCreates_def)
qed

lemma created_series_set:
  assumes "0 < perHost"
  shows "set (created_series staging (bootstrapCreates staging hosts perHost)) = series perHost ` {..<hosts * perHost}"
proof (intro equalityI subsetI)
  fix p assume "p \<in> set (created_series staging (bootstrapCreates staging hosts perHost))"
  then obtain h m where hm: "h < hosts" "m < perHost" "p = seriesPath h m" by (auto simp: created_series_all)
  have "h * perHost + m < hosts * perHost"
    using hm(1,2) by (metis add_less_cancel_left less_le_trans mult.commute mult_Suc_right mult_le_mono1 Suc_leI add.commute)
  moreover have "p = series perHost (h * perHost + m)" using hm by (simp add: series_def)
  ultimately show "p \<in> series perHost ` {..<hosts * perHost}" by blast
next
  fix p assume "p \<in> series perHost ` {..<hosts * perHost}"
  then obtain i where i: "i < hosts * perHost" "p = seriesPath (i div perHost) (i mod perHost)" by (auto simp: series_def)
  then have "i div perHost \<in> {0..<hosts}" by (simp add: less_mult_imp_div_less)
  moreover have "p \<in> set (map (seriesPath (i div perHost)) [0..<perHost])" using assms by (simp add: i(2))
  ultimately show "p \<in> set (created_series staging (bootstrapCreates staging hosts perHost))"
    unfolding created_series_all set_concat set_map [of _ "[0..<hosts]"] set_upt [of 0 hosts] by blast
qed

text \<open>The generator is fair: the edits of a Set take the series in turn, each with the next number; a Set no
  larger than the number of series updates none twice, and as many points as there are series, from any cursor,
  update each exactly once: exactly the nodes that \<open>bootstrap\<close> creates and moves below \<open>/config\<close>.\<close>

theorem generator_is_fair:
  fixes hosts perHost :: nat
  defines "n \<equiv> hosts * perHost"
  assumes "0 < n"
  shows "\<exists>es. generatorEdits hosts perHost batch cursor counter = Ok (es, cursor + batch, counter + of_nat batch) \<and>
    map se_NewValue es = map (\<lambda>i. Some (ValueCounter64 (counter + of_nat i + 1))) [0..<batch] \<and>
    (batch \<le> n \<longrightarrow> distinct (map se_Target es)) \<and>
    (batch = n \<longrightarrow>
       set (map se_Target es) = set (created_series staging (bootstrapCreates staging hosts perHost)))"
proof -
  obtain es where es: "generatorEdits hosts perHost batch cursor counter = Ok (es, cursor + batch, counter + of_nat batch)"
    and points: "map (\<lambda>e. (se_Target e, se_NewValue e)) es =
      map (\<lambda>i. (series perHost ((cursor + i) mod n), Some (ValueCounter64 (counter + of_nat i + 1)))) [0..<batch]"
    using generatorEdits_points [of hosts perHost] assms by blast
  have pos: "0 < perHost" using assms by simp
  have targets: "map se_Target es = map (\<lambda>i. series perHost ((cursor + i) mod n)) [0..<batch]"
    using arg_cong [OF points, of "map fst"] by (simp add: comp_def)
  have "map se_NewValue es = map (\<lambda>i. Some (ValueCounter64 (counter + of_nat i + 1))) [0..<batch]"
    using arg_cong [OF points, of "map snd"] by (simp add: comp_def)
  moreover have "distinct (map se_Target es)" if "batch \<le> n"
    unfolding targets distinct_map using comp_inj_on [OF window_distinct [OF that, of cursor], of "series perHost"] pos
    by (simp add: comp_def lessThan_atLeast0 inj_on_def series_inj)
  moreover have "set (map se_Target es) = set (created_series staging (bootstrapCreates staging hosts perHost))" if "batch = n"
  proof -
    have "(\<lambda>i. series perHost ((cursor + i) mod n)) ` {..<n} = series perHost ` (\<lambda>i. (cursor + i) mod n) ` {..<n}"
      by (simp only: image_image)
    then show ?thesis
      unfolding targets set_map set_upt that atLeast0LessThan created_series_set [OF pos]
      by (simp only: window_all [OF assms(2)] flip: n_def)
  qed
  ultimately show ?thesis using es by blast
qed

text \<open>Two hosts with two metrics each: a Set of four edits from the cursor 3.\<close>

theorem generator_is_fair_witness:
  "\<exists>es. generatorEdits 2 2 4 3 10 = Ok (es, 7, 14) \<and> distinct (map se_Target es) \<and>
     set (map se_Target es) = set (created_series ''/s'' (bootstrapCreates ''/s'' 2 2))"
  using generator_is_fair [of 2 2 4 3 10 "''/s''"] by auto

section \<open>Following a cut push\<close>

text \<open>The flattened result of a transfer: the timestamp node and its leaves, each leading to the next.\<close>

lemma leaves_nth:
  "i < length es \<Longrightarrow> flats (map (\<lambda>(k, v). VNode k v []) es) ! i =
     \<lparr>nd_Key = fst (es ! i), nd_Value = snd (es ! i), nd_FirstChild = offset 0,
      nd_NextSibling = offset (if Suc i < length es then 1 else 0)\<rparr>"
proof (induction es arbitrary: i)
  case (Cons e es)
  obtain k v where e: "e = (k, v)" by force
  show ?case
  proof (cases i)
    case 0
    then show ?thesis by (simp add: e)
  next
    case (Suc j)
    with Cons.IH [of j] Cons.prems show ?thesis by (simp add: e)
  qed
qed simp

lemma leaf_tree_length [simp]: "length (flat ns (leaf_tree key es)) = Suc (length es)"
proof -
  have "vsizes (map (\<lambda>(k, v). VNode k v []) es) = length es" by (induction es) auto
  then show ?thesis by (simp add: leaf_tree_def length_flats)
qed

lemma leaf_tree_pointers:
  assumes "i < Suc (length es)"
  obtains d e where "nd_FirstChild (flats [leaf_tree key es] ! i) = offset d"
    "nd_NextSibling (flats [leaf_tree key es] ! i) = offset e" "d + e = (if i < length es then 1 else 0)"
proof (cases i)
  case 0
  then show thesis by (intro that [of "if es = [] then 0 else 1" 0]) (auto simp: leaf_tree_def)
next
  case (Suc j)
  with assms show thesis
    by (intro that [of 0 "if Suc j < length es then 1 else 0"]) (auto simp: leaf_tree_def leaves_nth)
qed

lemma lastAbsolute_snoc:
  "lastAbsolute (xs @ [x]) = absolutePointer (nd_NextSibling x) (absolutePointer (nd_FirstChild x) (lastAbsolute xs))"
  by (simp add: lastAbsolute_def)

text \<open>Of a page, only the last entry leads further.\<close>

lemma lastAbsolute_page:
  fixes key es
  defines "xs \<equiv> flats [leaf_tree key es]"
  assumes "r + n \<le> length xs" "length xs < 2 ^ 63" "m \<le> n"
  shows "lastAbsolute (take m (fixupWindow xs r n base)) =
    (if m = n \<and> 0 < n \<and> r + n < length xs then continuation base (r + n) else [])"
  using assms(4)
proof (induction m)
  case 0
  then show ?case by (auto simp: lastAbsolute_def)
next
  case (Suc m)
  let ?w = "fixupWindow xs r n base"
  have lt: "r + m < Suc (length es)" using Suc.prems assms(2) by (simp add: xs_def)
  obtain d e where de: "nd_FirstChild (xs ! (r + m)) = offset d" "nd_NextSibling (xs ! (r + m)) = offset e"
    "d + e = (if r + m < length es then 1 else 0)"
    using leaf_tree_pointers [OF lt, of key] unfolding xs_def by blast
  have w: "?w ! m = fixupNode (r + m) (r + n) base (xs ! (r + m))"
    using Suc.prems assms(2) by (intro window_nth) simp_all
  have step: "take (Suc m) ?w = take m ?w @ [?w ! m]"
    using Suc.prems assms(2) by (intro take_Suc_conv_app_nth) (simp add: length_fixupWindow)
  show ?case
  proof -
    have ptr: "absolutePointer (fixupPointer (r + m) (r + n) base (offset k)) p =
        (if k = 0 \<or> r + m + k < r + n then p else continuation base (r + m + k))" if "k \<le> 1" for k p
    proof -
      have "r + m + k < 2 ^ 63" using that Suc.prems assms(2,3) by linarith
      then show ?thesis by (simp add: fixup_offset) (simp add: offset_def)
    qed
    have IH: "lastAbsolute (take m ?w) = []" using Suc.IH Suc.prems by simp
    have "d \<le> 1" "e \<le> 1" using de(3) by (auto split: if_splits)
    moreover have "r + m < length es \<longleftrightarrow> Suc (r + m) < length xs" by (simp add: xs_def)
    ultimately show ?thesis
      using de(3) Suc.prems unfolding step lastAbsolute_snoc w fixupNode_simps de(1,2) IH
      by (auto simp: ptr less_Suc_eq_le intro!: arg_cong [of _ _ "continuation base"] split: if_splits)
  qed
qed

lemma lastAbsolute_window:
  assumes "0 < n" "r + n \<le> Suc (length es)" "Suc (length es) < 2 ^ 63"
  shows "lastAbsolute (fixupWindow (flats [leaf_tree key es]) r n base) =
    (if r + n < Suc (length es) then continuation base (r + n) else [])"
  using lastAbsolute_page [of r n key es n base] length_fixupWindow [of r n "flats [leaf_tree key es]" base] assms
  by simp

text \<open>Replies that page through a transfer's subtree: each starts at the entry asked for and is not empty.\<close>

definition pages_through :: "(nat \<Rightarrow> string \<Rightarrow> Response option) \<Rightarrow> string \<Rightarrow> string \<Rightarrow> (string \<times> NodeValue) list \<Rightarrow> bool" where
  "pages_through get base key es \<longleftrightarrow>
     (\<forall>i. \<forall>j \<in> {1..length es}. \<exists>r n. get i (continuation base j) = Some r \<and> \<not> rs_Error r \<and>
        rs_Nodes r = fixupWindow (flats [leaf_tree key es]) j n base \<and> 0 < n \<and> j + n \<le> Suc (length es))"

lemma continuation_nonempty [simp]: "continuation base j \<noteq> []"
  by (simp add: continuation_def)

lemma follow_pages:
  assumes "pages_through get base key es" "Suc (length es) < 2 ^ 63" "1 \<le> j" "j \<le> length es"
  shows "follow get i (continuation base j) s =
    Some (s\<lparr>sb_delivered := sb_delivered s + of_nat (Suc (length es) - j)\<rparr>)"
  using assms(3,4)
proof (induction "Suc (length es) - j" arbitrary: i j s rule: less_induct)
  case less
  let ?xs = "flats [leaf_tree key es]"
  obtain r n where r: "get i (continuation base j) = Some r" "\<not> rs_Error r"
    "rs_Nodes r = fixupWindow ?xs j n base" "0 < n" "j + n \<le> Suc (length es)"
    using assms(1) less.prems unfolding pages_through_def by (meson atLeastAtMost_iff)
  let ?s = "s\<lparr>sb_delivered := sb_delivered s + of_nat n\<rparr>"
  have len: "length (rs_Nodes r) = n" using r(5) by (simp add: r(3) length_fixupWindow)
  have step: "follow get i (continuation base j) s = follow get (i + 1) (lastAbsolute (rs_Nodes r)) ?s"
    using r(1,2) len by (subst follow.simps) (simp add: requestResult_def)
  show ?case
  proof (cases "j + n < Suc (length es)")
    case True
    then have "lastAbsolute (rs_Nodes r) = continuation base (j + n)"
      using lastAbsolute_window [OF r(4,5) assms(2)] by (simp add: r(3))
    moreover have "of_nat n + of_nat (Suc (length es) - (j + n)) = (of_nat (Suc (length es) - j) :: i64)"
      using True by (simp only: of_nat_add [symmetric]) (rule arg_cong [of _ _ of_nat], simp)
    ultimately show ?thesis using less.hyps [of "j + n" "i + 1" ?s] True r(4) less.prems
      by (simp add: step add.assoc)
  next
    case False
    then have "lastAbsolute (rs_Nodes r) = []" "Suc (length es) - j = n"
      using lastAbsolute_window [OF r(4,5) assms(2)] r(5) by (simp_all add: r(3))
    then show ?thesis by (simp add: step follow.simps [of _ _ "[]"])
  qed
qed

text \<open>The handler of the subscription sees every response to it that is new, and keeps its place.\<close>

definition bystanders :: "i64 \<Rightarrow> 's loadClient \<Rightarrow> bool" where
  "bystanders seq c \<longleftrightarrow> (\<forall>k h. k \<noteq> seq \<longrightarrow> lc_handlers c k = Some h \<longrightarrow> (\<forall>r s. hd_fn h r s = s))"

lemma loadReceive_all:
  assumes "lc_handlers c seq = Some \<lparr>hd_fn = f, hd_persistent = True\<rparr>" "bystanders seq c"
  shows "snd (fold loadReceive ms (c, s)) = fold f (filter (\<lambda>r. rs_InReplyTo r = seq) (fresh_responses (lc_receiver c) ms)) s"
  using assms
proof (induction ms arbitrary: c s)
  case (Cons m ms)
  show ?case
  proof (cases m)
    case (MsgResponse r)
    let ?c = "c\<lparr>lc_receiver := fst (MarkReceived (lc_receiver c) (rs_SequenceNumber r))\<rparr>"
    obtain c' s' where d: "loadDispatch r (?c, s) = (c', s')" by force
    have "lc_handlers c' seq = Some \<lparr>hd_fn = f, hd_persistent = True\<rparr>" "bystanders seq c'"
      "lc_receiver c' = lc_receiver ?c" "s' = (if rs_InReplyTo r = seq then f r s else s)"
      using d Cons.prems by (auto simp: loadDispatch_def bystanders_def Let_def split: option.splits if_splits)
    with Cons.IH [of c' s'] Cons.IH [of ?c s] Cons.prems MsgResponse d show ?thesis
      by (simp add: loadReceive_def split_beta Let_def bystanders_def)
  qed (use Cons in \<open>simp_all add: loadReceive_def bystanders_def\<close>)
qed simp

text \<open>C40. The subscriber counts everything: its handler sees every response to its query that is new, in order,
  and for a push that carries the start of a transfer's subtree, following the last pointer of each page adds exactly
  the leaves the push left out, without an error, when the server answers each continuation with a page.\<close>

theorem subscriber_counts_every_leaf:
  assumes "lc_handlers c seq = Some \<lparr>hd_fn = subscriberPush, hd_persistent = True\<rparr>" "bystanders seq c"
    and pages: "pages_through get base key es" "Suc (length es) < 2 ^ 63"
    and push: "rs_Nodes push = fixupWindow (flats [leaf_tree key es]) 0 n base" "0 < n" "n \<le> Suc (length es)"
  shows "snd (fold loadReceive ms (c, s)) =
      fold subscriberPush (filter (\<lambda>r. rs_InReplyTo r = seq) (fresh_responses (lc_receiver c) ms)) s \<and>
    sb_pushes (subscriberPush push s) = sb_pushes s + 1 \<and>
    follow get 0 (lastAbsolute (rs_Nodes push)) (subscriberPush push s) =
      Some ((subscriberPush push s)\<lparr>sb_delivered := sb_delivered s + of_nat (length es)\<rparr>)"
proof (intro conjI)
  show "snd (fold loadReceive ms (c, s)) =
      fold subscriberPush (filter (\<lambda>r. rs_InReplyTo r = seq) (fresh_responses (lc_receiver c) ms)) s"
    by (rule loadReceive_all [OF assms(1,2)])
  let ?s = "subscriberPush push s"
  have len: "length (rs_Nodes push) = n" using push(3) by (simp add: push(1) length_fixupWindow)
  show "sb_pushes ?s = sb_pushes s + 1" using push(2) len by (simp add: subscriberPush_def Let_def)
  have d: "sb_delivered ?s = sb_delivered s + of_nat (n - 1)" using push(2) len by (simp add: subscriberPush_def Let_def)
  have ptr: "lastAbsolute (rs_Nodes push) = (if n < Suc (length es) then continuation base n else [])"
    using lastAbsolute_window [of n 0 es key base] push(2,3) pages(2) by (simp add: push(1))
  have sum: "of_nat (n - 1) + of_nat (Suc (length es) - n) = (of_nat (length es) :: i64)"
    using push(2,3) by (simp flip: of_nat_add)
  show "follow get 0 (lastAbsolute (rs_Nodes push)) ?s = Some (?s\<lparr>sb_delivered := sb_delivered s + of_nat (length es)\<rparr>)"
  proof (cases "n < Suc (length es)")
    case True
    with follow_pages [OF pages, of n 0 ?s] push(2) sum show ?thesis by (simp add: ptr d add.assoc)
  next
    case False
    with push(3) d have "?s\<lparr>sb_delivered := sb_delivered s + of_nat (length es)\<rparr> = ?s" by simp
    with False show ?thesis by (simp add: ptr follow.simps [of _ _ "[]"])
  qed
qed

text \<open>A push cut after its timestamp node, its two leaves fetched one by one.\<close>

definition demo_leaves :: "(string \<times> NodeValue) list" where
  "demo_leaves = [(''a'', ValueInteger32 1), (''b'', ValueInteger32 2)]"

definition demo_page :: "nat \<Rightarrow> Response" where
  "demo_page j = \<lparr>rs_SequenceNumber = of_nat j + 1, rs_InReplyTo = 1, rs_Error = False, rs_ErrorNode = None,
     rs_Nodes = fixupWindow (flats [leaf_tree ''t'' demo_leaves]) j 1 ''/x''\<rparr>"

definition demo_pages :: "nat \<Rightarrow> string \<Rightarrow> Response option" where
  "demo_pages i p = Some (demo_page (if p = continuation ''/x'' 1 then 1 else 2))"

definition demo_count :: subscriber where
  "demo_count = \<lparr>sb_delivered = 0, sb_pushes = 0, sb_getErrs = 0, sb_acked = False, sb_follows = []\<rparr>"

theorem subscriber_counts_every_leaf_witness:
  "snd (fold loadReceive [MsgResponse (demo_page 0)] (on 1 subscriberPush True dial, demo_count)) =
     subscriberPush (demo_page 0) demo_count \<and>
   follow demo_pages 0 (lastAbsolute (rs_Nodes (demo_page 0))) (subscriberPush (demo_page 0) demo_count) =
     Some ((subscriberPush (demo_page 0) demo_count)\<lparr>sb_delivered := 2\<rparr>)"
proof -
  let ?c = "on 1 subscriberPush True dial" and ?p = "demo_page 0"
  have c: "lc_handlers ?c 1 = Some \<lparr>hd_fn = subscriberPush, hd_persistent = True\<rparr>" "bystanders 1 ?c"
    "lc_receiver ?c = NewReceiver" by (simp_all add: on_def dial_def bystanders_def)
  have "j = 1 \<or> j = 2" if "j \<in> {1..length demo_leaves}" for j using that by (auto simp: demo_leaves_def)
  moreover have "continuation ''/x'' 2 \<noteq> continuation ''/x'' 1" by code_simp
  ultimately have "demo_pages i (continuation ''/x'' j) = Some (demo_page j) \<and> j + 1 \<le> Suc (length demo_leaves)"
    if "j \<in> {1..length demo_leaves}" for i j using that by (auto simp: demo_pages_def)
  then have pages: "pages_through demo_pages ''/x'' ''t'' demo_leaves"
    unfolding pages_through_def by (intro allI ballI exI [of _ "demo_page _"] exI [of _ 1]) (simp add: demo_page_def)
  have new: "snd (MarkReceived NewReceiver 1)" by code_simp
  show ?thesis
    using subscriber_counts_every_leaf [OF c(1,2) pages, of ?p 1 "[MsgResponse ?p]" demo_count] new
    by (simp add: c(3)) (simp add: demo_page_def demo_leaves_def demo_count_def)
qed

end
