(* ===== verification/Session_Soundness.thy ===== *)
theory Session_Soundness
  imports Session_Isolation Query_Properties Wire_Properties Tree_Write_Properties
begin

text \<open>
  Where a session does not panic: aggregates of percentiles within range, the aggregation and the tickers of a query
  that was decoded and validated, every request handler on a well-formed tree; and the invariant that every
  running query is such a query.
\<close>

section \<open>Aggregates\<close>

text \<open>The rank of a percentile between 0 and 100 of at most \<open>2^53\<close> samples lies within them, as it does in IEEE
  arithmetic: \<open>p / 100\<close> is at most 1, and the product with \<open>n - 1\<close> rounds to at most \<open>n - 1\<close>.\<close>

definition ranks_within :: "float_ops \<Rightarrow> bool" where
  "ranks_within fl \<longleftrightarrow> (\<forall>p n. 0 \<le> p \<and> p \<le> 100 \<and> 2 \<le> n \<and> n \<le> (2 :: int) ^ 53 \<longrightarrow>
     (let rank = fl_mul fl (fl_div fl (fl_of_int fl p) (fl_of_int fl 100)) (fl_of_int fl (n - 1))
      in 0 \<le> fl_floor fl rank \<and> fl_floor fl rank \<le> fl_ceil fl rank \<and> fl_ceil fl rank < n))"

lemma percentile_returns:
  assumes "ranks_within fl" "0 \<le> sint p" "sint p \<le> 100" "v \<noteq> []" "length v \<le> 2 ^ 53"
  shows "percentile fl v (fl_of_int fl (sint p)) \<noteq> Panic"
proof (cases "length v = 1")
  case True
  then show ?thesis by (simp add: percentile_def index_at_def)
next
  case False
  with assms(4) have "2 \<le> length v" by (cases "length v") auto
  moreover from assms(5) have "int (length v) \<le> 2 ^ 53" by (metis of_nat_le_iff of_nat_numeral of_nat_power)
  ultimately have "let rank = fl_mul fl (fl_div fl (fl_of_int fl (sint p)) (fl_of_int fl 100)) (fl_of_int fl (int (length v) - 1))
      in 0 \<le> fl_floor fl rank \<and> fl_floor fl rank \<le> fl_ceil fl rank \<and> fl_ceil fl rank < int (length v)"
    using assms(1-3) unfolding ranks_within_def by simp
  with False show ?thesis by (auto simp: percentile_def Let_def index_at_def rbind_Panic_iff)
qed

lemma Aggregate_returns:
  assumes "ranks_within fl" "valid_agg kind" "length ss \<le> 2 ^ 53"
  shows "Aggregate fl kind ss \<noteq> Panic"
proof (cases "ss \<noteq> [] \<and> (\<forall>s \<in> set ss. IsNumeric s)")
  case True
  then obtain xs where xs: "asFloats fl ss = Ok xs" "length xs = length ss" using asFloats_ok by blast
  then have "xs \<noteq> []" "length xs \<le> 2 ^ 53" using True assms(3) by auto
  with True assms(2) xs(1) show ?thesis
    by (cases kind) (simp_all add: Aggregate_def valid_agg_def rbind_Panic_iff percentile_returns [OF assms(1) _ _ \<open>xs \<noteq> []\<close> \<open>length xs \<le> 2 ^ 53\<close>])
next
  case False
  then show ?thesis by (cases "ss = []") (auto simp: Aggregate_def asFloats_err)
qed

text \<open>No key has more samples than that.\<close>

definition short :: "results \<Rightarrow> bool" where
  "short m \<longleftrightarrow> (\<forall>(k, vs) \<in> set m. length vs \<le> 2 ^ 53)"

lemma aggregateLoop_returns:
  "ranks_within fl \<Longrightarrow> valid_agg kind \<Longrightarrow> short m \<Longrightarrow> \<exists>p. aggregateLoop fl kind m pending = Ok p"
proof (induction fl kind m pending rule: aggregateLoop.induct)
  case (2 fl kind key samples rest pending)
  have "Aggregate fl kind samples \<noteq> Panic"
    using 2(3-5) by (intro Aggregate_returns) (auto simp: short_def)
  moreover have "short rest" using 2(5) by (simp add: short_def)
  ultimately show ?case using 2(1,2) [OF _ 2(3,4)] by (auto split: result.split)
qed simp

section \<open>Queries\<close>

text \<open>A query that was decoded and validated.\<close>

definition sound :: "QueryReq \<Rightarrow> bool" where
  "sound q \<longleftrightarrow> ValidateQuery q = Ok () \<and> valid_query q"

lemma sound_method: "sound q \<Longrightarrow> (q_AggregationInterval q = None) = (q_AggregationMethod q = None)"
  by (auto simp: sound_def ValidateQuery_def rbind_Ok_iff split: if_splits)

lemma aggregate_returns:
  assumes "ranks_within fl" "sound (rn_query r)" "q_AggregationMethod (rn_query r) \<noteq> None" "short (rn_collected r)"
  shows "\<exists>r'. aggregate fl r = (Ok r' :: ('e, Runner) result)"
proof -
  obtain kind where kind: "q_AggregationMethod (rn_query r) = Some kind" "valid_agg kind"
    using assms(2,3) by (auto simp: sound_def valid_query_def)
  from aggregateLoop_returns [OF assms(1) kind(2) assms(4)] obtain p
    where "aggregateLoop fl kind (rn_collected r) (rn_pending r) = (Ok p :: ('e, results) result)" by blast
  with kind(1) show ?thesis by (simp add: aggregate_def)
qed

lemma runStep_returns:
  assumes "ranks_within fl" "sound (rn_query r)" "short (rn_collected r)"
  shows "\<exists>x. runStep fl ev r = (Ok x :: ('e, Runner \<times> results option) result)"
proof (cases "ev = AggTick \<and> q_AggregationInterval (rn_query r) \<noteq> None")
  case True
  with sound_method [OF assms(2)] obtain r' where "aggregate fl r = (Ok r' :: ('e, Runner) result)"
    using aggregate_returns [OF assms(1,2) _ assms(3)] by blast
  with True show ?thesis by (simp add: runStep_def)
qed (cases ev; auto simp: runStep_def)

section \<open>Once queries\<close>

lemma evaluate_fresh:
  assumes "wf_tree t"
  shows "set (evaluateAs ff t (Root t) segs auth) \<subseteq> {..<fresh t}"
proof (cases "segs = []")
  case True
  with wf_treeD(1) [OF assms] show ?thesis by (auto simp: evaluateAs_def)
next
  case False
  have "n < fresh t" if "reachable t n" for n
    using that wf_treeD(1,6,8) [OF assms] by (cases rule: reachable.cases) auto
  with evaluate_reachable [OF False] show ?thesis by blast
qed

lemma samples_bounded:
  assumes "wf_tree (h_tree h)" "treeSample env expression h = Some ss"
  shows "length ss \<le> fresh (h_tree h)"
proof -
  obtain segs where "length ss = length (evaluateAs (env_real env) (h_tree h) (Root (h_tree h)) segs (sess_auth (h_sess h)))"
    using assms(2) by (auto simp: treeSample_def SampleAs_def rbind_Ok_iff simp del: map_map split: result.splits)
  also have "\<dots> = card (set (evaluateAs (env_real env) (h_tree h) (Root (h_tree h)) segs (sess_auth (h_sess h))))"
    by (rule distinct_card [OF distinct_evaluateAs [OF assms(1)], symmetric])
  also have "\<dots> \<le> card {..<fresh (h_tree h)}" by (rule card_mono [OF _ evaluate_fresh [OF assms(1)]]) simp
  finally show ?thesis by simp
qed

lemma collectLoop_short:
  assumes "\<And>k. length (entries m k) + length ss \<le> 2 ^ 53" "one_entry m"
  shows "short (collectLoop ss m)"
proof -
  have "length vs \<le> 2 ^ 53" if "(k, vs) \<in> set (collectLoop ss m)" for k vs
  proof -
    have vs: "vs = entries (collectLoop ss m) k"
      using that collectLoop_entries(2) [OF assms(2), of ss] by (simp add: entries_def one_entry_def)
    have "length (values_of k ss) \<le> length ss" by (simp add: values_of_def)
    moreover have "length (entries (collectLoop ss m) k) = length (entries m k) + length (values_of k ss)"
      by (simp add: collectLoop_entries(1))
    ultimately show ?thesis using assms(1) [of k] unfolding vs by linarith
  qed
  then show ?thesis by (auto simp: short_def)
qed

lemma startOnce_returns:
  assumes "ranks_within (env_float env)" "sound q" "aq_runner aq = NewRunner q"
    and "wf_tree (h_tree h)" "fresh (h_tree h) \<le> 2 ^ 53"
  shows "\<exists>h'. startOnce env now k aq h = Ok h' \<and> activeQueries (h_sess h') = activeQueries (h_sess h)"
proof -
  let ?r = "collect (sampleFor env aq h) (NewRunner q)"
  have q: "rn_query ?r = q" by (simp add: collect_simps NewRunner_def)
  have "short (rn_collected ?r)"
  proof (cases "sampleFor env aq h")
    case (Some ss)
    then have "length ss \<le> fresh (h_tree h)" unfolding sampleFor_def by (rule samples_bounded [OF assms(4)])
    with assms(5) Some show ?thesis by (auto simp: collect_def NewRunner_def intro!: collectLoop_short)
  qed (simp add: collect_def NewRunner_def short_def)
  then have "\<exists>r'. (if q_AggregationMethod q \<noteq> None then aggregate (env_float env) ?r
      else Ok (promoteCollectedToPending ?r)) = (Ok r' :: (unit, Runner) result)"
    using aggregate_returns [OF assms(1), of ?r] assms(2) q by auto
  then show ?thesis using assms(3) q by (auto simp: startOnce_def runOnce_def Let_def split_beta)
qed

section \<open>The running queries of a session\<close>

text \<open>Every running query was decoded and validated.\<close>

definition queries_sound :: "Session \<Rightarrow> bool" where
  "queries_sound s \<longleftrightarrow> (\<forall>(k, aq) \<in> set (activeQueries s). sound (rn_query (aq_runner aq)) \<and>
     q_CollectionMode (rn_query (aq_runner aq)) \<noteq> CollectOnce)"

lemma queries_sound_subset:
  "queries_sound s \<Longrightarrow> set (activeQueries s') \<subseteq> set (activeQueries s) \<Longrightarrow> queries_sound s'"
  by (auto simp: queries_sound_def)

lemma queries_soundD:
  "queries_sound s \<Longrightarrow> map_of (activeQueries s) k = Some aq \<Longrightarrow> sound (rn_query (aq_runner aq)) \<and>
     q_CollectionMode (rn_query (aq_runner aq)) \<noteq> CollectOnce"
  by (auto simp: queries_sound_def dest!: map_of_SomeD)

lemma queries_sound_put:
  assumes "queries_sound (h_sess h)" "activeQueries (h_sess h1) = activeQueries (h_sess h)"
    and "sound (rn_query (aq_runner aq))" "q_CollectionMode (rn_query (aq_runner aq)) \<noteq> CollectOnce"
  shows "queries_sound (h_sess (putQuery k aq h1))"
  unfolding putQuery_def on_sess_fields using assms by (fastforce simp: queries_sound_def dest!: al_put_in)

lemma promote_query [simp]: "rn_query (promoteUnlessAggregated r) = rn_query r"
  by (simp add: promoteUnlessAggregated_def promoteCollectedToPending_def)

lemma baseline_query [simp]: "rn_query (fst (onChangeBaseline sampled r)) = rn_query r"
  by (simp add: onChangeBaseline_def transfer_def)

lemma runStep_query: "runStep fl ev r = Ok (r', b) \<Longrightarrow> rn_query r' = rn_query r"
  by (auto simp: runStep_def transfer_def aggregate_def Let_def rbind_Ok_iff collect_simps
      split: query_event.splits if_splits option.splits)

lemma queries_sound_queryTick:
  assumes "queries_sound (h_sess h)" "queryTick env now k tick h = Ok h'"
  shows "queries_sound (h_sess h')"
proof (cases "map_of (activeQueries (h_sess h)) k")
  case (Some aq)
  note q = queries_soundD [OF assms(1) Some]
  show ?thesis
    using assms Some q
    by (auto simp: queryTick_def rbind_Ok_iff Let_def split_beta
        intro: queries_sound_put [OF assms(1)] dest!: runStep_query split: if_splits)
qed (use assms in \<open>simp add: queryTick_def\<close>)

lemma queries_sound_queryStart:
  assumes "queries_sound (h_sess h)" "queryStart env now k h = Ok h'"
  shows "queries_sound (h_sess h')"
proof (cases "map_of (activeQueries (h_sess h)) k")
  case (Some aq)
  note q = queries_soundD [OF assms(1) Some]
  show ?thesis
    using assms Some q
    by (auto simp: queryStart_def rbind_Ok_iff Let_def split_beta
        intro: queries_sound_put [OF assms(1)] split: if_splits)
qed (use assms in \<open>simp add: queryStart_def\<close>)

section \<open>Handlers\<close>

lemma queries_sound_same:
  "queries_sound s \<Longrightarrow> activeQueries s' = activeQueries s \<Longrightarrow> queries_sound s'"
  by (simp add: queries_sound_def)

lemma respondError_queries [simp]: "activeQueries (h_sess (respondError env now k code message h)) = activeQueries (h_sess h)"
  by (simp add: respondError_def split_beta keeps_recordError)

lemma queries_sound_reap: "queries_sound (h_sess h) \<Longrightarrow> queries_sound (h_sess (reapCancelledQueries h))"
  by (auto simp: reapCancelledQueries_def reapLoop_eq elim!: queries_sound_subset)

lemma queries_sound_answer:
  "queries_sound (h_sess h) \<Longrightarrow>
    queries_sound (h_sess (answerNodes env now k ns (reapCancelledQueries (h\<lparr>h_tree := t\<rparr>))))"
  by (rule queries_sound_same [OF queries_sound_reap]) simp_all

lemma handleGet_total:
  "\<exists>h'. handleGet env now g h = Ok h' \<and> activeQueries (h_sess h') = activeQueries (h_sess h)"
proof -
  have "GetFullAs (env_compile env) (env_real env) (h_tree h) e (sess_auth (h_sess h)) \<noteq> Panic" for e
    by (auto simp: GetFullAs_def rbind_Panic_iff Let_def parse_returns split: prod.splits option.splits if_splits)
  then show ?thesis
    by (auto simp: handleGet_def Let_def split: NodePointer.split result.split prod.split)
qed

lemma handleSet_total:
  "\<exists>h'. handleSet env now s h = Ok h' \<and> (queries_sound (h_sess h) \<longrightarrow> queries_sound (h_sess h'))"
proof -
  obtain t r where set: "SetAs (env_compile env) (env_real env) s (Some (newNodesPath (h_sess h)))
      (sess_auth (h_sess h)) (h_tree h) = (t, r)" by fastforce
  then have "r \<noteq> Panic" by (cases rule: SetAs_cases) auto
  then show ?thesis
    using set by (cases r) (auto simp: handleSet_def Let_def queries_sound_answer elim: queries_sound_same)
qed

lemma handleDelete_sound:
  assumes "queries_sound (h_sess h)" "handleDelete env now d h = Ok h'"
  shows "queries_sound (h_sess h')"
proof -
  obtain t r where del: "DeleteAs (env_compile env) (env_real env) (del_Targets d)
      (sess_auth (h_sess h)) (h_tree h) = (t, r)" by fastforce
  then show ?thesis
    using assms by (cases r) (auto simp: handleDelete_def Let_def queries_sound_answer elim: queries_sound_same)
qed

lemma handleDelete_total:
  assumes "wf_tree (h_tree h)"
  shows "\<exists>h'. handleDelete env now d h = Ok h'"
  by (rule DeleteAs_cases [OF assms, of "env_compile env" "env_real env" "del_Targets d" "sess_auth (h_sess h)"])
    (simp_all add: handleDelete_def Let_def)

lemma handleCreate_sound:
  assumes "handleCreate env now c h = Ok h'"
  shows "activeQueries (h_sess h') = activeQueries (h_sess h)"
proof -
  obtain t r where "CreateStagedAs (env_compile env) (env_real env) (newNodesPath (h_sess h))
      (case cr_Parent c of None \<Rightarrow> [] | Some p \<Rightarrow> p) (cr_Key c)
      (case cr_Value c of None \<Rightarrow> ValueNoValue | Some v \<Rightarrow> v) (sess_auth (h_sess h)) (h_tree h) = (t, r)"
    by fastforce
  with assms show ?thesis by (cases r) (auto simp: handleCreate_def Let_def)
qed

lemma handleCreate_total:
  assumes "wf_tree (h_tree h)" "newNodesPath (h_sess h) < fresh (h_tree h)"
  shows "\<exists>h'. handleCreate env now c h = Ok h'"
  by (rule CreateStagedAs_cases [OF assms, of "env_compile env" "env_real env"
        "case cr_Parent c of None \<Rightarrow> [] | Some p \<Rightarrow> p" "cr_Key c"
        "case cr_Value c of None \<Rightarrow> ValueNoValue | Some v \<Rightarrow> v" "sess_auth (h_sess h)"])
    (simp_all add: handleCreate_def Let_def)

lemma registerQuery_fields:
  assumes "registerQuery q h = (aq, h1)"
  shows "aq_runner aq = NewRunner q" "fresh (h_tree h1) = Suc (fresh (h_tree h))"
    and "activeQueries (h_sess h1) = al_put (q_SequenceNumber q) aq (activeQueries (h_sess h))"
  using assms by (auto simp: registerQuery_def Let_def split_beta AppendUnder_eq addNode_simps(2))

lemma forgetQuery_sound:
  assumes "queries_sound (h_sess h)" "activeQueries (h_sess h') = al_put k aq (activeQueries (h_sess h))"
  shows "queries_sound (h_sess (forgetQuery k h'))"
  using assms by (auto simp: queries_sound_def forgetQuery_def al_delete_def dest!: al_put_in)

lemma handleQuery_sound:
  assumes "queries_sound (h_sess h)" "valid_query q" "handleQuery env now q h = Ok h'"
  shows "queries_sound (h_sess h')"
proof (cases "ValidateQuery q")
  case (Ok v)
  let ?k = "q_SequenceNumber q"
  obtain aq h1 where reg: "registerQuery q h = (aq, h1)" by fastforce
  note r = registerQuery_fields [OF reg]
  show ?thesis
  proof (cases "q_CollectionMode q = CollectOnce")
    case True
    with assms(3) Ok reg obtain h2 where h2: "startOnce env now ?k aq h1 = Ok h2"
      "activeQueries (h_sess h') = activeQueries (h_sess (forgetQuery ?k h2))"
      by (auto simp: handleQuery_def Let_def rbind_Ok_iff)
    then have "activeQueries (h_sess h2) = al_put ?k aq (activeQueries (h_sess h))"
      using r(3) by (auto simp: startOnce_def rbind_Ok_iff)
    from forgetQuery_sound [OF assms(1) this] h2(2) show ?thesis by (rule queries_sound_same)
  next
    case False
    with Ok assms(2) have "sound q" by (simp add: sound_def)
    with assms(1) r False have "queries_sound (h_sess h1)"
      by (auto simp: queries_sound_def NewRunner_def dest!: al_put_in)
    with False Ok reg assms(3) show ?thesis by (auto simp: handleQuery_def Let_def elim: queries_sound_same)
  qed
qed (use assms in \<open>auto simp: handleQuery_def Let_def elim: queries_sound_same\<close>)

lemma handleQuery_total:
  assumes "ranks_within (env_float env)" "host_ok h" "valid_query q" "fresh (h_tree h) < 2 ^ 53"
  shows "\<exists>h'. handleQuery env now q h = Ok h'"
proof (cases "ValidateQuery q")
  case Panic
  then show ?thesis by (auto simp: ValidateQuery_def rbind_Panic_iff split: if_splits CollectionMode.splits option.splits)
next
  case (Ok v)
  then have q: "sound q" using assms(3) by (simp add: sound_def)
  obtain aq h1 where reg: "registerQuery q h = (aq, h1)" by fastforce
  note r = registerQuery_fields [OF reg]
  have "host_ok h1" using step_ok_registerQuery(1) [OF assms(2) reg] assms(2) by (simp add: step_ok_def)
  then have "\<exists>h2. startOnce env now (q_SequenceNumber q) aq h1 = Ok h2"
    using startOnce_returns [OF assms(1) q r(1), of h1] r(2) assms(4) by (auto simp: host_ok_def)
  with Ok reg show ?thesis by (auto simp: handleQuery_def Let_def)
qed (simp add: handleQuery_def)

section \<open>Messages\<close>

lemma dispatch_sound:
  assumes "queries_sound (h_sess h)" "valid_message m" "dispatch env now m h = Ok h'"
  shows "queries_sound (h_sess h')"
proof (cases m)
  case (MsgGet g)
  with assms(1,3) handleGet_total [of env now g h] show ?thesis by (auto simp: dispatch_def elim: queries_sound_same)
next
  case (MsgSet s)
  with assms(1,3) handleSet_total [of env now s h] show ?thesis by (auto simp: dispatch_def)
next
  case (MsgCreate c)
  with assms(3) have "activeQueries (h_sess h') = activeQueries (h_sess h)" by (simp add: dispatch_def handleCreate_sound)
  with assms(1) show ?thesis by (rule queries_sound_same)
next
  case (MsgQuery q)
  with assms show ?thesis by (simp add: dispatch_def valid_message_def handleQuery_sound)
next
  case (MsgDelete d)
  with assms(1,3) show ?thesis by (simp add: dispatch_def handleDelete_sound)
qed (use assms(1,3) in \<open>auto simp: dispatch_def elim: queries_sound_same\<close>)

lemma dispatch_total:
  assumes "ranks_within (env_float env)" "host_ok h" "valid_message m" "fresh (h_tree h) < 2 ^ 53"
  shows "\<exists>h'. dispatch env now m h = Ok h'"
proof (cases m)
  case (MsgGet g)
  with handleGet_total [of env now g h] show ?thesis by (auto simp: dispatch_def)
next
  case (MsgSet s)
  with handleSet_total [of env now s h] show ?thesis by (auto simp: dispatch_def)
next
  case (MsgQuery q)
  with assms handleQuery_total [of env h q now] show ?thesis by (simp add: dispatch_def valid_message_def)
qed (use assms(2) in \<open>auto simp: dispatch_def host_ok_def handleCreate_total handleDelete_total\<close>)

lemma resendCached_queries: "activeQueries (h_sess (resendCached env now k h)) = activeQueries (h_sess h)"
  by (auto simp: resendCached_def split_beta sendResponse_def allocSeq_def Let_def split: option.split)

lemma handleMessage_sound:
  assumes "queries_sound (h_sess h)" "valid_message m" "handleMessage env now m h = Ok h'"
  shows "queries_sound (h_sess h')"
  using assms(3)
proof (cases rule: handleMessage_cases)
  case 1
  with assms(1,2) dispatch_sound show ?thesis by blast
next
  case (2 k)
  with assms(1) show ?thesis by (auto simp: resendCached_queries elim: queries_sound_same)
next
  case (3 k)
  have "queries_sound (h_sess (on_sess (\<lambda>s. s\<lparr>ss_receiver := fst (MarkReceived (ss_receiver (h_sess h)) k)\<rparr>) h))"
    using assms(1) by (auto elim: queries_sound_same)
  from dispatch_sound [OF this assms(2) 3(3)] show ?thesis .
qed

lemma handleMessage_total:
  assumes "ranks_within (env_float env)" "host_ok h" "valid_message m" "fresh (h_tree h) < 2 ^ 53"
  shows "\<exists>h'. handleMessage env now m h = Ok h'"
proof -
  have "\<exists>h'. dispatch env now m (on_sess (\<lambda>s. s\<lparr>ss_receiver := r\<rparr>) h) = Ok h'" for r
    using assms by (intro dispatch_total) (auto simp: host_ok_def sinks_ok_def)
  with dispatch_total [OF assms] show ?thesis
    by (auto simp: handleMessage_def Let_def split_beta split: option.split)
qed

section \<open>Events\<close>

lemma queryStart_total:
  assumes "queries_sound (h_sess h)"
    and "\<And>aq. map_of (activeQueries (h_sess h)) k = Some aq \<Longrightarrow> \<not> too_long (rn_query (aq_runner aq))"
  shows "\<exists>h'. queryStart env now k h = Ok h'"
proof (cases "map_of (activeQueries (h_sess h)) k")
  case (Some aq)
  with queries_soundD [OF assms(1) Some] assms(2) show ?thesis
    by (auto simp: queryStart_def Let_def split_beta sound_def tickers_start)
qed (simp add: queryStart_def)

lemma queryTick_total:
  assumes "ranks_within (env_float env)" "queries_sound (h_sess h)"
    and "\<And>aq. map_of (activeQueries (h_sess h)) k = Some aq \<Longrightarrow> short (rn_collected (aq_runner aq))"
  shows "\<exists>h'. queryTick env now k tick h = Ok h'"
proof (cases "map_of (activeQueries (h_sess h)) k")
  case (Some aq)
  note sound = conjunct1 [OF queries_soundD [OF assms(2) Some]]
  from runStep_returns [OF assms(1) sound assms(3) [OF Some]]
  obtain x where "runStep (env_float env)
                   (case tick of CollectTick \<Rightarrow> Collect (sampleFor env aq h)
                    | AggregateTick \<Rightarrow> AggTick | DeliverTick \<Rightarrow> TransferTick)
                   (aq_runner aq) = (Ok x :: (unit, Runner \<times> results option) result)" by blast
  with Some show ?thesis by (cases x) (simp add: queryTick_def Let_def split_beta)
qed (simp add: queryTick_def)

text \<open>More nodes or samples than a 64-bit float counts.\<close>

definition overload :: "host \<Rightarrow> bool" where
  "overload h \<longleftrightarrow> 2 ^ 53 \<le> fresh (h_tree h) \<or>
     (\<exists>(k, aq) \<in> set (activeQueries (h_sess h)). \<exists>(key, vs) \<in> set (rn_collected (aq_runner aq)). 2 ^ 53 < length vs)"

lemma overload_short:
  "\<not> overload h \<Longrightarrow> map_of (activeQueries (h_sess h)) k = Some aq \<Longrightarrow> short (rn_collected (aq_runner aq))"
  by (fastforce simp: overload_def short_def dest!: map_of_SomeD)

lemma sessionStep_sound:
  assumes "queries_sound (h_sess h)" "sessionStep env now ev h = Ok h'"
  shows "queries_sound (h_sess h')"
proof (cases ev)
  case (Datagram data)
  with assms show ?thesis
    by (auto simp: sessionStep_def receiveDatagram_def elim: handleMessage_sound [OF _ decoded_valid] split: result.splits)
next
  case (QueryStart k)
  with assms show ?thesis by (simp add: sessionStep_def queries_sound_queryStart)
next
  case (QueryTick k tick)
  with assms show ?thesis by (simp add: sessionStep_def queries_sound_queryTick)
qed (use assms in \<open>auto simp: sessionStep_def ackTick_def retransmitTick_def Let_def split_beta elim: queries_sound_same\<close>)

lemma sessionStep_total:
  assumes "ranks_within (env_float env)" "host_ok h" "queries_sound (h_sess h)" "\<not> overload h"
    and "\<And>data. ev = Datagram data \<Longrightarrow> UnmarshalMessage data \<noteq> Panic"
    and "\<And>k aq. ev = QueryStart k \<Longrightarrow> (k, aq) \<in> set (activeQueries (h_sess h)) \<Longrightarrow> \<not> too_long (rn_query (aq_runner aq))"
  shows "\<exists>h'. sessionStep env now ev h = Ok h'"
proof (cases ev)
  case (Datagram data)
  show ?thesis
  proof (cases "UnmarshalMessage data")
    case (Ok m)
    with handleMessage_total [OF assms(1,2) decoded_valid [OF Ok]] assms(4) Datagram show ?thesis
      by (simp add: sessionStep_def receiveDatagram_def overload_def)
  qed (use assms(5) Datagram in \<open>auto simp: sessionStep_def receiveDatagram_def\<close>)
next
  case (QueryStart k)
  have "\<not> too_long (rn_query (aq_runner aq))" if "map_of (activeQueries (h_sess h)) k = Some aq" for aq
    using assms(6) [OF QueryStart map_of_SomeD [OF that]] .
  with queryStart_total [OF assms(3)] QueryStart show ?thesis by (simp add: sessionStep_def)
next
  case (QueryTick k tick)
  with queryTick_total [OF assms(1,3)] overload_short [OF assms(4)] show ?thesis by (simp add: sessionStep_def)
qed (simp_all add: sessionStep_def)

end
