(* ===== verification/Survival_Properties.thy ===== *)
theory Survival_Properties
  imports Session_Soundness Server_Isolation Session_Properties
begin

text \<open>
  Which events the server does not survive: a panic in any goroutine ends the process, and nothing recovers.
\<close>

text \<open>One session whose running queries are sound, on a well-formed tree.\<close>

lemma session_survives:
  assumes "queries_sound (h_sess h)" "host_ok h" "ranks_within (env_float env)"
  shows "(\<exists>h'. sessionStep env now ev h = Ok h') \<or>
    (\<exists>data. ev = Datagram data \<and> UnmarshalMessage data = Panic) \<or>
    (\<exists>k aq. ev = QueryStart k \<and> (k, aq) \<in> set (activeQueries (h_sess h)) \<and> too_long (rn_query (aq_runner aq))) \<or>
    overload h"
  using sessionStep_total [OF assms(3,2,1)] by metis

lemma newSession_queries: "newSession peer sid sv = (s, sv') \<Longrightarrow> queries_sound s"
  by (auto simp: newSession_def Let_def split_beta queries_sound_def)

lemma server_run_queries_sound:
  assumes "server_run env sv w log w'" "\<And>sid h. snd w sid = Some h \<Longrightarrow> queries_sound (h_sess h)"
  shows "snd w' sid = Some h \<Longrightarrow> queries_sound (h_sess h)"
  using assms
proof (induction arbitrary: sid h rule: server_run.induct)
  case (accept log t ss sid' peer s sv')
  then show ?case using newSession_queries by (auto split: if_splits)
next
  case (event log t ss sid' h0 ev now h')
  have "queries_sound (h_sess (h0\<lparr>h_tree := t\<rparr>))" using event.IH [of sid' h0] event.hyps(2) event.prems(2) by simp
  from sessionStep_sound [OF this event.hyps(4)] event.IH [of sid h] event.prems show ?case by (auto split: if_splits)
qed simp


section \<open>An instance\<close>

lemma whole_ranks: "ranks_within whole"
  unfolding ranks_within_def
proof (intro allI impI)
  fix p n :: int
  assume pn: "0 \<le> p \<and> p \<le> 100 \<and> 2 \<le> n \<and> n \<le> 2 ^ 53"
  define x where "x = p div 100"
  have x: "x = 0 \<or> x = 1" "sint (word_of_int p :: f64) = p" "sint (word_of_int (n - 1) :: f64) = n - 1"
    using pn sint_of_int_i64 [of p] sint_of_int_i64 [of "n - 1"] by (auto simp: x_def)
  then show "let rank = fl_mul whole (fl_div whole (fl_of_int whole p) (fl_of_int whole 100)) (fl_of_int whole (n - 1))
      in 0 \<le> fl_floor whole rank \<and> fl_floor whole rank \<le> fl_ceil whole rank \<and> fl_ceil whole rank < n"
    using pn by (auto simp: whole_def x_def [symmetric])
qed

lemma ensurePath_fresh: "fresh (snd (ensurePathLocked cur keys t)) \<le> fresh t + length keys"
proof (induction keys arbitrary: cur t)
  case (Cons key keys)
  show ?case
  proof (cases "findKey t key (Children t cur)")
    case None
    from Cons [of "fresh t" "addNode cur key ValueNoValue t"] show ?thesis
      by (simp add: ensurePath_step [OF None] addNode_simps(2) del: ensurePathLocked.simps)
  next
    case (Some c)
    from Cons [of c t] show ?thesis by (simp add: ensurePath_found [OF Some] del: ensurePathLocked.simps)
  qed
qed simp

lemma newSession_fresh: "fresh (sv_tree (snd (newSession peer sid sv))) \<le> fresh (sv_tree sv) + 5"
proof -
  obtain b t1 nn t2 er t3 qr t4 where e:
    "EnsurePath [''Sessions'', ''Connection-ID='' @ sid] (sv_tree sv) = (b, t1)"
    "EnsurePath0 b [''NewNodes''] t1 = (nn, t2)" "EnsurePath0 b [''Errors''] t2 = (er, t3)"
    "EnsurePath0 b [''QueryResults''] t3 = (qr, t4)" by (metis surj_pair)
  have "fresh t1 \<le> fresh (sv_tree sv) + 2" "fresh t2 \<le> fresh t1 + 1" "fresh t3 \<le> fresh t2 + 1" "fresh t4 \<le> fresh t3 + 1"
    using ensurePath_fresh [of "Root (sv_tree sv)" "[''Sessions'', ''Connection-ID='' @ sid]" "sv_tree sv"]
      ensurePath_fresh [of b "[''NewNodes'']" t1] ensurePath_fresh [of b "[''Errors'']" t2]
      ensurePath_fresh [of b "[''QueryResults'']" t3] e
    unfolding EnsurePath_def EnsurePath0_def by simp_all
  then show ?thesis using e by (simp add: newSession_def Let_def)
qed

definition first_server :: Server where
  "first_server = \<lparr>sv_tree = NewTree, MaxDatagramSizeOverride = 0, sv_Policy = None\<rparr>"


end
